(* ===== verification/Rah_Prelude.thy ===== *)
theory Rah_Prelude
  imports Main "HOL-Library.Word" "HOL-Library.Sublist"
begin

unbundle bit_operations_syntax

section \<open>Prelude: Go values, run-time panics, shared lemmas\<close>

text \<open>
  What every component theory shares:
  \<^item> the Go types the source uses, as words of their width (\<open>u8\<close> to \<open>u64\<close>) and, for the
    signed 64-bit type, as \<open>int\<close> with the wrap-around written out (\<open>i64\<close>);
  \<^item> run-time panics as values of a sum type, with the two operations that raise them,
    indexing (\<open>idx\<close>) and slicing (\<open>slice\<close>);
  \<^item> the lemmas on lists, sums and words the component proofs use.
  The collection \<open>go_simps\<close> holds the rewrite rules for the panic plumbing.
\<close>

named_theorems go_simps \<open>rewrite rules for indexing, slicing and sequencing of panicking code\<close>

type_synonym u8 = "8 word"
type_synonym u16 = "16 word"
type_synonym u32 = "32 word"
type_synonym u64 = "64 word"
type_synonym bytes = "u8 list"

definition bytes_of :: "string \<Rightarrow> bytes" where
  \<comment> \<open>the bytes of an ASCII literal\<close>
  "bytes_of s = map of_char s"

lemma bytes_of_code [code]: "bytes_of s = map (\<lambda>c. word_of_int (of_char c)) s"
  by (simp add: bytes_of_def of_int_of_char)

subsection \<open>Panics\<close>

datatype go_panic =
    IndexOutOfRange
  | SliceOutOfRange
  | NilDereference
  | DivideByZero
  | Explicit string

type_synonym 'a go = "go_panic + 'a"

definition andThen :: "'a go \<Rightarrow> ('a \<Rightarrow> 'b go) \<Rightarrow> 'b go" where
  "andThen m f = (case m of Inl p \<Rightarrow> Inl p | Inr x \<Rightarrow> f x)"

definition idx :: "'a list \<Rightarrow> int \<Rightarrow> 'a go" where
  \<comment> \<open>\<open>xs[i]\<close>: panics outside \<open>0 \<le> i < len(xs)\<close>.\<close>
  "idx xs i = (if 0 \<le> i \<and> i < int (length xs) then Inr (xs ! nat i) else Inl IndexOutOfRange)"

definition set_idx :: "'a list \<Rightarrow> int \<Rightarrow> 'a \<Rightarrow> 'a list go" where
  \<comment> \<open>\<open>xs[i] = v\<close>.\<close>
  "set_idx xs i v =
     (if 0 \<le> i \<and> i < int (length xs) then Inr (xs[nat i := v]) else Inl IndexOutOfRange)"

definition slice :: "'a list \<Rightarrow> int \<Rightarrow> int \<Rightarrow> 'a list go" where
  \<comment> \<open>\<open>xs[lo:hi]\<close> of a slice whose capacity is its length.\<close>
  "slice xs lo hi =
     (if 0 \<le> lo \<and> lo \<le> hi \<and> hi \<le> int (length xs)
      then Inr (take (nat hi - nat lo) (drop (nat lo) xs)) else Inl SliceOutOfRange)"

lemma andThen_Inl [simp, go_simps]: "andThen (Inl p) f = Inl p"
  by (simp add: andThen_def)

lemma andThen_Inr [simp, go_simps]: "andThen (Inr x) f = f x"
  by (simp add: andThen_def)

lemma andThen_eq_Inr_iff: "andThen m f = Inr y \<longleftrightarrow> (\<exists>x. m = Inr x \<and> f x = Inr y)"
  by (cases m) auto

lemma idx_in [simp, go_simps]: "i < length xs \<Longrightarrow> idx xs (int i) = Inr (xs ! i)"
  by (simp add: idx_def)

lemma idx_out [go_simps]: "length xs \<le> i \<Longrightarrow> idx xs (int i) = Inl IndexOutOfRange"
  by (simp add: idx_def)

lemma idx_eq_Inr_iff: "idx xs i = Inr x \<longleftrightarrow> 0 \<le> i \<and> i < int (length xs) \<and> x = xs ! nat i"
  by (auto simp: idx_def)

lemma set_idx_in [simp, go_simps]: "i < length xs \<Longrightarrow> set_idx xs (int i) v = Inr (xs[i := v])"
  by (simp add: set_idx_def)

lemma slice_in [simp, go_simps]:
  "lo \<le> hi \<Longrightarrow> hi \<le> length xs \<Longrightarrow> slice xs (int lo) (int hi) = Inr (take (hi - lo) (drop lo xs))"
  by (simp add: slice_def)

subsection \<open>Signed 64-bit integers\<close>

definition i64 :: "int \<Rightarrow> int" where
  \<comment> \<open>two's complement wrap-around of an \<open>int64\<close> result\<close>
  "i64 x = (x + 2 ^ 63) mod 2 ^ 64 - 2 ^ 63"

definition in_i64 :: "int \<Rightarrow> bool" where
  "in_i64 x \<longleftrightarrow> - (2 ^ 63) \<le> x \<and> x < 2 ^ 63"

lemma i64_id: "in_i64 x \<Longrightarrow> i64 x = x"
  by (simp add: i64_def in_i64_def)

lemma in_i64_i64 [simp]: "in_i64 (i64 x)"
proof -
  have "0 \<le> (x + 2 ^ 63) mod 2 ^ 64" and "(x + 2 ^ 63) mod 2 ^ 64 < 2 ^ 64"
    by simp_all
  then show ?thesis
    unfolding i64_def in_i64_def by simp
qed

lemma i64_idem [simp]: "i64 (i64 x) = i64 x"
  by (simp add: i64_id)

definition i16 :: "int \<Rightarrow> int" where
  \<comment> \<open>the same for \<open>int16\<close>, the type of program counters\<close>
  "i16 x = (x + 2 ^ 15) mod 2 ^ 16 - 2 ^ 15"

lemma i16_id: "- (2 ^ 15) \<le> x \<Longrightarrow> x < 2 ^ 15 \<Longrightarrow> i16 x = x"
  by (simp add: i16_def)

lemma i16_range: "- (2 ^ 15) \<le> i16 x" "i16 x < 2 ^ 15"
proof -
  have "0 \<le> (x + 2 ^ 15) mod 2 ^ 16" and "(x + 2 ^ 15) mod 2 ^ 16 < 2 ^ 16"
    by simp_all
  then show "- (2 ^ 15) \<le> i16 x" "i16 x < 2 ^ 15"
    unfolding i16_def by simp_all
qed

lemma i16_le: "0 \<le> x \<Longrightarrow> i16 x \<le> x"
  using zmod_le_nonneg_dividend [of "x + 2 ^ 15" "2 ^ 16"] by (simp add: i16_def)

definition i32 :: "int \<Rightarrow> int" where
  \<comment> \<open>the same for \<open>int32\<close>\<close>
  "i32 x = (x + 2 ^ 31) mod 2 ^ 32 - 2 ^ 31"

subsection \<open>Lists\<close>

lemma take_drop_append [simp]: "take (length ys) (drop (length xs) (xs @ ys @ zs)) = ys"
  by simp

lemma nth_append_length_plus: "(xs @ ys) ! (length xs + i) = ys ! i"
  by (simp add: nth_append)

lemma map_fst_zip_upt:
  "n = m + length xs \<Longrightarrow> map (\<lambda>(x, i). f x) (zip xs [m..<n]) = map f xs"
  by (rule nth_equalityI) auto

lemma strict_sorted_index:
  assumes "sorted xs" "distinct xs" "i < length xs"
  shows "card {x \<in> set xs. x < xs ! i} = i"
proof -
  have lt: "xs ! j < xs ! i \<longleftrightarrow> j < i" if "j < length xs" for j
    using assms that
    by (metis linorder_not_less nat_less_le nth_eq_iff_index_eq order_le_less sorted_nth_mono)
  have "{x \<in> set xs. x < xs ! i} = (\<lambda>j. xs ! j) ` {..<i}"
    using assms(3) lt by (auto simp: in_set_conv_nth image_iff) (metis less_trans)
  moreover have "inj_on (\<lambda>j. xs ! j) {..<i}"
    using assms(2,3) by (auto simp: inj_on_def nth_eq_iff_index_eq)
  ultimately show ?thesis
    by (simp add: card_image)
qed

lemma sum_filter_zip:
  assumes "length ys = length xs"
  shows "(\<Sum>k | k < length xs \<and> P (ys ! k). f (xs ! k)) =
    sum_list (map (\<lambda>(x, y). if P y then f x else 0) (zip xs ys))"
proof -
  have "(\<Sum>k | k < length xs \<and> P (ys ! k). f (xs ! k)) =
      (\<Sum>k \<in> {0..<length xs}. if P (ys ! k) then f (xs ! k) else 0)"
    by (simp add: sum.inter_filter [symmetric] Collect_conj_eq atLeast0LessThan lessThan_def)
  then show ?thesis using assms by (simp add: sum_list_sum_nth)
qed

end
