(* ===== verification/Rah_Cas.thy ===== *)
theory Rah_Cas
  imports Rah_Prelude
begin

section \<open>Compare-and-swap loops under interleaving\<close>

text \<open>
  The lock-free operations of the engine all have one shape: load a shared word, decide from its
  value alone either to return without writing or to compare-and-swap a new value, and start again
  when another goroutine changed the word in between. \<open>cas_step\<close> is one pass through the body of
  such a loop; \<open>cas_run\<close> is the operation with nobody else running.

  The step relation \<open>cas_reach\<close> interleaves any number of goroutines, each running one operation
  on the same word, at the granularity of the atomic accesses. The last component of its state
  records the operations in the order in which they took effect; \<open>cas_linearizable\<close> shows
  that the shared word and every returned value are those of running the operations one after the
  other in that order. The counter, bucket and limiter theories prove their bounds for sequential
  runs and obtain them for every interleaving from it.
\<close>

datatype ('v, 'r) cas_step = Done 'r | Cas 'v 'r

fun cas_run :: "('v \<Rightarrow> ('v, 'r) cas_step) \<Rightarrow> 'v \<Rightarrow> 'v \<times> 'r" where
  "cas_run body v = (case body v of Done r \<Rightarrow> (v, r) | Cas v' r \<Rightarrow> (v', r))"

fun cas_runs :: "('v \<Rightarrow> ('v, 'r) cas_step) list \<Rightarrow> 'v \<Rightarrow> 'v \<times> 'r list" where
  "cas_runs [] v = (v, [])"
| "cas_runs (b # bs) v =
     (let (v', r) = cas_run b v; (w, rs) = cas_runs bs v' in (w, r # rs))"

text \<open>What a goroutine is doing: not yet loaded (or about to retry), holding a loaded value it will
  swap, or returned.\<close>

datatype ('v, 'r) cas_pc = Start | Loaded 'v | Returned 'r

type_synonym ('v, 'r) cas_conf = "'v \<times> (nat \<Rightarrow> ('v, 'r) cas_pc) \<times> nat list"

inductive cas_reach :: "(nat \<Rightarrow> 'v \<Rightarrow> ('v, 'r) cas_step) \<Rightarrow> 'v \<Rightarrow> ('v, 'r) cas_conf \<Rightarrow> bool"
  for body :: "nat \<Rightarrow> 'v \<Rightarrow> ('v, 'r) cas_step" and v0 :: 'v where
  init: "cas_reach body v0 (v0, \<lambda>_. Start, [])"
| load_return: "cas_reach body v0 (v, pc, h) \<Longrightarrow> pc i = Start \<Longrightarrow> body i v = Done r \<Longrightarrow>
     cas_reach body v0 (v, pc(i := Returned r), h @ [i])"
| load: "cas_reach body v0 (v, pc, h) \<Longrightarrow> pc i = Start \<Longrightarrow> body i v = Cas v' r \<Longrightarrow>
     cas_reach body v0 (v, pc(i := Loaded v), h)"
| swap: "cas_reach body v0 (v, pc, h) \<Longrightarrow> pc i = Loaded v \<Longrightarrow> body i v = Cas v' r \<Longrightarrow>
     cas_reach body v0 (v', pc(i := Returned r), h @ [i])"
| retry: "cas_reach body v0 (v, pc, h) \<Longrightarrow> pc i = Loaded u \<Longrightarrow> u \<noteq> v \<Longrightarrow>
     cas_reach body v0 (v, pc(i := Start), h)"

lemma cas_runs_append:
  "cas_runs (xs @ ys) v =
     (let (v', rs) = cas_runs xs v; (w, ss) = cas_runs ys v' in (w, rs @ ss))"
  by (induction xs arbitrary: v) (auto simp: split_beta Let_def)

lemma cas_runs_snoc:
  "cas_runs (xs @ [b]) v =
     (let (v', rs) = cas_runs xs v; (w, r) = cas_run b v' in (w, rs @ [r]))"
  by (auto simp: cas_runs_append split_beta Let_def)

lemma length_cas_runs [simp]: "length (snd (cas_runs bs v)) = length bs"
  by (induction bs arbitrary: v) (auto simp: split_beta Let_def)

text \<open>The invariant of the interleaving: the word is the result of the recorded operations, a
  goroutine has returned exactly when it is recorded, with the sequential run's result.\<close>

definition cas_inv :: "(nat \<Rightarrow> 'v \<Rightarrow> ('v, 'r) cas_step) \<Rightarrow> 'v \<Rightarrow> ('v, 'r) cas_conf \<Rightarrow> bool" where
  "cas_inv body v0 = (\<lambda>(v, pc, h).
     distinct h \<and> v = fst (cas_runs (map body h) v0) \<and>
     (\<forall>i. (\<exists>r. pc i = Returned r) \<longleftrightarrow> i \<in> set h) \<and>
     (\<forall>k < length h. pc (h ! k) = Returned (snd (cas_runs (map body h) v0) ! k)))"

lemma cas_inv_record:
  assumes inv: "cas_inv body v0 (v, pc, h)"
    and not_returned: "\<And>r. pc i \<noteq> Returned r"
    and run: "cas_run (body i) v = (v', r)"
  shows "cas_inv body v0 (v', pc(i := Returned r), h @ [i])"
proof -
  have i: "i \<notin> set h" using inv not_returned by (auto simp: cas_inv_def)
  have v: "v = fst (cas_runs (map body h) v0)" using inv by (simp add: cas_inv_def)
  have runs: "cas_runs (map body (h @ [i])) v0 = (v', snd (cas_runs (map body h) v0) @ [r])"
    using run v by (simp add: cas_runs_snoc split_beta Let_def del: cas_run.simps)
  have len: "length (snd (cas_runs (map body h) v0)) = length h" by simp
  have "(pc(i := Returned r)) ((h @ [i]) ! k) =
      Returned (snd (cas_runs (map body (h @ [i])) v0) ! k)" if "k < Suc (length h)" for k
  proof (cases "k < length h")
    case True
    then have "h ! k \<noteq> i" using i by auto
    then show ?thesis using True inv runs len by (simp add: cas_inv_def nth_append)
  next
    case False
    then have "k = length h" using that by simp
    then show ?thesis using runs len by (simp add: nth_append)
  qed
  then show ?thesis
    using inv i runs by (auto simp: cas_inv_def)
qed

lemma cas_inv_unrecorded:
  assumes "cas_inv body v0 (v, pc, h)" and "\<And>r. pc i \<noteq> Returned r" and "\<And>r. x \<noteq> Returned r"
  shows "cas_inv body v0 (v, pc(i := x), h)"
proof -
  have "\<not> (\<exists>r. pc i = Returned r)" using assms(2) by simp
  then have "i \<notin> set h" using assms(1) unfolding cas_inv_def prod.case by blast
  moreover from this have "\<And>k. k < length h \<Longrightarrow> h ! k \<noteq> i" by auto
  ultimately show ?thesis using assms by (simp add: cas_inv_def)
qed

lemma cas_reach_inv: "cas_reach body v0 c \<Longrightarrow> cas_inv body v0 c"
proof (induction rule: cas_reach.induct)
  case init
  show ?case by (simp add: cas_inv_def)
next
  case (load_return v pc h i r)
  then show ?case by (intro cas_inv_record) auto
next
  case (load v pc h i v' r)
  then show ?case by (intro cas_inv_unrecorded) auto
next
  case (swap v pc h i v' r)
  then show ?case by (intro cas_inv_record [where v = v]) auto
next
  case (retry v pc h i u)
  then show ?case by (intro cas_inv_unrecorded) auto
qed

lemma cas_linearizable:
  assumes "cas_reach body v0 (v, pc, h)"
  shows "v = fst (cas_runs (map body h) v0)"
    and "distinct h"
    and "pc i = Returned r \<Longrightarrow>
      \<exists>k < length h. h ! k = i \<and> r = snd (cas_runs (map body h) v0) ! k"
  using cas_reach_inv [OF assms]
  by (auto simp: cas_inv_def in_set_conv_nth) (metis cas_pc.inject(2))

text \<open>
  No goroutine is blocked by the others: whatever the configuration, a goroutine that has not
  returned returns after at most three steps of its own (lock freedom in the absence of further
  interference).
\<close>

lemma cas_solo_return:
  assumes "cas_reach body v0 (v, pc, h)" and "pc i = Start"
  shows "\<exists>v' r. cas_run (body i) v = (v', r) \<and> cas_reach body v0 (v', pc(i := Returned r), h @ [i])"
proof (cases "body i v")
  case (Done r)
  then show ?thesis using cas_reach.load_return [OF assms Done] by simp
next
  case (Cas v' r)
  have "cas_reach body v0 (v, pc(i := Loaded v), h)"
    using cas_reach.load [OF assms Cas] .
  then have "cas_reach body v0 (v', (pc(i := Loaded v))(i := Returned r), h @ [i])"
    using cas_reach.swap [of body v0 v "pc(i := Loaded v)" h i v' r] Cas by simp
  then show ?thesis using Cas by simp
qed

lemma Returned_inj_on_history:
  assumes "cas_reach body v0 (v, pc, h)"
  shows "{i. pc i = Returned r} = {h ! k |k. k < length h \<and> snd (cas_runs (map body h) v0) ! k = r}"
  using cas_reach_inv [OF assms]
  by (auto simp: cas_inv_def in_set_conv_nth) (metis cas_pc.inject(2))

text \<open>The number of goroutines that got a given answer is its number in the sequential run.\<close>

lemma sum_Returned_index:
  assumes "cas_reach body v0 (v, pc, h)"
  shows "(\<Sum>i | \<exists>r. pc i = Returned r \<and> P i r. f i) =
    (\<Sum>k | k < length h \<and> P (h ! k) (snd (cas_runs (map body h) v0) ! k). f (h ! k))"
proof -
  let ?rs = "snd (cas_runs (map body h) v0)"
  have inv: "cas_inv body v0 (v, pc, h)" using assms by (rule cas_reach_inv)
  have dist: "distinct h" using inv by (simp add: cas_inv_def)
  have "{i. \<exists>r. pc i = Returned r \<and> P i r} = (\<lambda>k. h ! k) ` {k. k < length h \<and> P (h ! k) (?rs ! k)}"
  proof (intro set_eqI iffI)
    fix i
    assume "i \<in> {i. \<exists>r. pc i = Returned r \<and> P i r}"
    then obtain r where r: "pc i = Returned r" "P i r" by blast
    then obtain k where "k < length h" "h ! k = i" "r = ?rs ! k"
      using cas_linearizable(3) [OF assms] by blast
    then show "i \<in> (\<lambda>k. h ! k) ` {k. k < length h \<and> P (h ! k) (?rs ! k)}" using r by blast
  next
    fix i
    assume "i \<in> (\<lambda>k. h ! k) ` {k. k < length h \<and> P (h ! k) (?rs ! k)}"
    then show "i \<in> {i. \<exists>r. pc i = Returned r \<and> P i r}" using inv by (auto simp: cas_inv_def)
  qed
  moreover have "inj_on (\<lambda>k. h ! k) {k. k < length h \<and> P (h ! k) (?rs ! k)}"
    using dist by (auto simp: inj_on_def nth_eq_iff_index_eq)
  ultimately show ?thesis by (simp add: sum.reindex)
qed

lemma card_Returned_index:
  assumes "cas_reach body v0 (v, pc, h)"
  shows "card {i. \<exists>r. pc i = Returned r \<and> P i r} =
    card {k. k < length h \<and> P (h ! k) (snd (cas_runs (map body h) v0) ! k)}"
  using sum_Returned_index [OF assms, where P = P and f = "\<lambda>_. 1 :: nat"] by simp

lemma card_Returned:
  assumes "cas_reach body v0 (v, pc, h)"
  shows "card {i. \<exists>r. pc i = Returned r \<and> P r} =
    length (filter P (snd (cas_runs (map body h) v0)))"
  using card_Returned_index [OF assms, of "\<lambda>_. P"] by (simp add: length_filter_conv_card)

text \<open>Running the operations one after the other is one of the interleavings.\<close>

lemma cas_reach_sequential:
  "distinct h \<Longrightarrow> \<exists>pc. cas_reach body v0 (fst (cas_runs (map body h) v0), pc, h) \<and>
     (\<forall>i. i \<notin> set h \<longrightarrow> pc i = Start)"
proof (induction h rule: rev_induct)
  case Nil
  then show ?case using cas_reach.init [of body v0] by auto
next
  case (snoc i h)
  then obtain pc where pc: "cas_reach body v0 (fst (cas_runs (map body h) v0), pc, h)"
    "\<forall>i. i \<notin> set h \<longrightarrow> pc i = Start" by auto
  then obtain v' r where "cas_run (body i) (fst (cas_runs (map body h) v0)) = (v', r)"
    "cas_reach body v0 (v', pc(i := Returned r), h @ [i])"
    using cas_solo_return [OF pc(1), of i] snoc.prems by auto
  then show ?case
    using pc(2) by (auto simp: cas_runs_snoc split_beta Let_def simp del: cas_run.simps intro!: exI [of _ "pc(i := Returned r)"])
qed

end
