(* ===== verification/Rah_Router.thy ===== *)
theory Rah_Router
  imports Rah_Prelude "HOL-Library.AList"
begin

unbundle bit_operations_syntax

section \<open>Base-path router (\<open>internal/router\<close>)\<close>

text \<open>
  The writer side keeps a radix tree of \<open>BuilderNode\<close>s, which \<open>BakeToArena\<close> flattens breadth
  first into an array of pointer-free \<open>RouteNode\<close>s and one byte table; the reader side walks that
  array, selecting a child by the rank of its first byte in two 64-bit masks.

  A node's children (a Go map from the first byte) are an association list with distinct keys. The
  arena walk is a \<open>partial_function\<close> whose value is None where the loop of the source would not
  end, and whose error results are the index and slice panics of the Go run time.
\<close>

subsection \<open>Data\<close>

datatype BuilderNode =
  BuilderNode (bn_prefix: bytes) (bn_apiId: u32) (bn_children: "(u8 \<times> BuilderNode) list")

record RouteNode =
  prefixOff :: u32
  prefixLen :: u16
  maskLo :: u64
  maskHi :: u64
  childIdx :: u32
  numChildren :: u16
  rn_apiId :: u32

record routerSnapshot =
  arena :: "RouteNode list"
  table :: bytes

record RahRouter =
  builder :: BuilderNode
  snapshot :: routerSnapshot

definition NewBuilder :: BuilderNode where
  "NewBuilder = BuilderNode [] 0 []"

subsection \<open>Adding a path to the tree\<close>

text \<open>The loop that counts the equal leading bytes of \<open>path\<close> and the node's prefix.\<close>

fun common_len :: "bytes \<Rightarrow> bytes \<Rightarrow> nat" where
  "common_len (x # xs) (y # ys) = (if x = y then Suc (common_len xs ys) else 0)"
| "common_len _ _ = 0"

lemma common_len_le: "common_len xs ys \<le> length xs" "common_len xs ys \<le> length ys"
  by (induction xs ys rule: common_len.induct) auto

lemma common_len_take: "take (common_len xs ys) xs = take (common_len xs ys) ys"
  by (induction xs ys rule: common_len.induct) auto

lemma common_len_differ:
  "common_len xs ys < length xs \<Longrightarrow> common_len xs ys < length ys \<Longrightarrow>
     xs ! common_len xs ys \<noteq> ys ! common_len xs ys"
  by (induction xs ys rule: common_len.induct) auto

lemma size_map_of_child [termination_simp]:
  "map_of cs b = Some n \<Longrightarrow> size n < Suc (size_list (size_prod (\<lambda>_. 0) size) cs)"
  by (induction cs) (auto split: if_splits)

definition split_node :: "nat \<Rightarrow> BuilderNode \<Rightarrow> BuilderNode" where
  \<comment> \<open>Case 1 of \<open>Add\<close>: cut the prefix after \<open>i\<close> bytes, the rest moves to a new child.\<close>
  "split_node i bn =
     (if i < length (bn_prefix bn)
      then BuilderNode (take i (bn_prefix bn)) 0
             [(drop i (bn_prefix bn) ! 0,
               BuilderNode (drop i (bn_prefix bn)) (bn_apiId bn) (bn_children bn))]
      else bn)"

function Add :: "BuilderNode \<Rightarrow> bytes \<Rightarrow> u32 \<Rightarrow> BuilderNode" where
  "Add bn path apiName =
     (if bn_prefix bn = [] \<and> bn_children bn = []
      then BuilderNode path apiName (bn_children bn)
      else
        let i = common_len path (bn_prefix bn); bn' = split_node i bn in
        if i < length path then
          let remainingPath = drop i path in
          case map_of (bn_children bn') (remainingPath ! 0) of
            Some child \<Rightarrow>
              BuilderNode (bn_prefix bn') (bn_apiId bn')
                (AList.update (remainingPath ! 0) (Add child remainingPath apiName) (bn_children bn'))
          | None \<Rightarrow>
              BuilderNode (bn_prefix bn') (bn_apiId bn')
                (AList.update (remainingPath ! 0) (BuilderNode remainingPath apiName [])
                  (bn_children bn'))
        else BuilderNode (bn_prefix bn') apiName (bn_children bn'))"
  by pat_completeness auto

lemma split_node_child_size:
  assumes "i = common_len path (bn_prefix bn)" "i < length path"
    and "map_of (bn_children (split_node i bn)) (drop i path ! 0) = Some child"
  shows "0 < i \<or> size child < size bn"
proof (rule ccontr)
  assume neg: "\<not> (0 < i \<or> size child < size bn)"
  then have i0: "i = 0" by simp
  show False
  proof (cases "bn_prefix bn = []")
    case True
    then have "map_of (bn_children bn) (path ! 0) = Some child"
      using assms(3) i0 by (simp add: split_node_def)
    then have "size child < size bn"
      by (cases bn) (use size_map_of_child in fastforce)
    with neg show False by simp
  next
    case False
    then have "path ! 0 \<noteq> bn_prefix bn ! 0"
      using common_len_differ [of path "bn_prefix bn"] assms(1,2) i0 by auto
    then show False
      using assms(3) i0 False by (auto simp: split_node_def split: if_splits)
  qed
qed

termination Add
proof (relation "measures [\<lambda>(bn, path, _). length path, \<lambda>(bn, _, _). size bn]", goal_cases)
  case 1
  show ?case by simp
next
  case (2 bn path apiName i bn' rem child)
  then show ?case
    using split_node_child_size [of i path bn child] by auto
qed

declare Add.simps [simp del]

subsection \<open>Flattening the tree\<close>

definition child_bit :: "u8 \<Rightarrow> RouteNode \<Rightarrow> RouteNode" where
  \<comment> \<open>Set the mask bit of child byte \<open>b\<close>; \<open>1 << (b - 64)\<close> is 0 in Go for \<open>b \<ge> 128\<close>.\<close>
  "child_bit b n =
     (if b < 64 then n\<lparr>maskLo := maskLo n OR push_bit (unat b) 1\<rparr>
      else n\<lparr>maskHi := maskHi n OR push_bit (unat (b - 64)) 1\<rparr>)"

definition fresh_node :: "nat \<Rightarrow> BuilderNode \<Rightarrow> RouteNode" where
  "fresh_node off bn =
     \<lparr>prefixOff = word_of_nat off, prefixLen = word_of_nat (length (bn_prefix bn)),
      maskLo = 0, maskHi = 0, childIdx = 0, numChildren = 0, rn_apiId = bn_apiId bn\<rparr>"

type_synonym task = "BuilderNode \<times> nat"

fun bake_children ::
  "nat \<Rightarrow> (u8 \<times> BuilderNode) list \<Rightarrow> RouteNode list \<Rightarrow> bytes \<Rightarrow> task list
     \<Rightarrow> RouteNode list \<times> bytes \<times> task list" where
  "bake_children i [] nodes tab queue = (nodes, tab, queue)"
| "bake_children i ((b, child) # cs) nodes tab queue =
     (let nodes1 = nodes[i := child_bit b (nodes ! i)];
          nodes2 = nodes1 @ [fresh_node (length tab) child];
          tab2 = tab @ bn_prefix child
      in bake_children i cs nodes2 tab2 (queue @ [(child, length nodes2 - 1)]))"

definition sorted_children :: "BuilderNode \<Rightarrow> (u8 \<times> BuilderNode) list" where
  \<comment> \<open>The keys of the child map in ascending order, each with its child.\<close>
  "sorted_children bn =
     map (\<lambda>b. (b, the (map_of (bn_children bn) b))) (sort (remdups (map fst (bn_children bn))))"

fun nnodes :: "BuilderNode \<Rightarrow> nat" where
  "nnodes (BuilderNode p a cs) = Suc (sum_list (map (\<lambda>(b, n). nnodes n) cs))"

lemma nnodes_children_le:
  "(\<Sum>b\<in>fst ` set cs. f (the (map_of cs b))) \<le> sum_list (map (\<lambda>(b, n). f n) cs)" for f :: "'a \<Rightarrow> nat"
proof (induction cs)
  case Nil
  then show ?case by simp
next
  case (Cons c cs)
  obtain b n where c: "c = (b, n)" by (cases c)
  let ?K = "fst ` set cs"
  have "(\<Sum>k\<in>fst ` set (c # cs). f (the (map_of (c # cs) k))) =
      f n + (\<Sum>k\<in>?K - {b}. f (the (map_of (c # cs) k)))"
    by (simp add: c sum.insert_remove)
  also have "(\<Sum>k\<in>?K - {b}. f (the (map_of (c # cs) k))) = (\<Sum>k\<in>?K - {b}. f (the (map_of cs k)))"
    by (rule sum.cong) (auto simp: c)
  also have "\<dots> \<le> (\<Sum>k\<in>?K. f (the (map_of cs k)))"
    by (rule sum_mono2) auto
  finally show ?case using Cons.IH by (simp add: c)
qed

lemma nnodes_sorted_children:
  "sum_list (map (\<lambda>(b, n). nnodes n) (sorted_children bn)) < nnodes bn"
proof -
  let ?cs = "bn_children bn" and ?f = "\<lambda>b. nnodes (the (map_of (bn_children bn) b))"
  have "sum_list (map (\<lambda>(b, n). nnodes n) (sorted_children bn)) =
      sum_list (map ?f (sort (remdups (map fst ?cs))))"
    by (simp add: sorted_children_def comp_def)
  also have "\<dots> = sum ?f (fst ` set ?cs)"
    by (subst sum.distinct_set_conv_list [symmetric]) simp_all
  also have "\<dots> < nnodes bn"
    using nnodes_children_le [of nnodes ?cs] by (cases bn) simp
  finally show ?thesis .
qed

lemma bake_children_queue:
  "snd (snd (bake_children i cs nodes tab queue)) =
     queue @ zip (map snd cs) [length nodes..<length nodes + length cs]"
proof (induction cs arbitrary: nodes tab queue)
  case Nil
  then show ?case by simp
next
  case (Cons c cs)
  obtain b n where c: "c = (b, n)" by (cases c)
  show ?case
    by (simp add: c Let_def Cons.IH upt_conv_Cons del: upt_Suc)
qed

function bake_loop :: "RouteNode list \<Rightarrow> bytes \<Rightarrow> task list \<Rightarrow> RouteNode list \<times> bytes" where
  "bake_loop nodes tab [] = (nodes, tab)"
| "bake_loop nodes tab ((bn, i) # queue) =
     (if bn_children bn = [] then bake_loop nodes tab queue
      else
        let nodes1 = nodes[i := (nodes ! i)\<lparr>childIdx := word_of_nat (length nodes),
              numChildren := word_of_nat (length (remdups (map fst (bn_children bn))))\<rparr>];
            (nodes2, tab2, queue2) = bake_children i (sorted_children bn) nodes1 tab queue
        in bake_loop nodes2 tab2 queue2)"
  by pat_completeness auto
termination
proof (relation "measure (\<lambda>(_, _, queue). sum_list (map (\<lambda>(bn, i). nnodes bn) queue))", goal_cases)
  case 1
  show ?case by simp
next
  case (2 nodes tab bn i queue)
  then show ?case by (cases bn) simp
next
  case (3 nodes tab bn i queue nodes1 r nodes2 r' tab2 queue2)
  have "bake_children i (sorted_children bn) nodes1 tab queue = (nodes2, tab2, queue2)"
    and "length nodes1 = length nodes"
    using 3 by simp_all
  then have "queue2 = queue @ zip (map snd (sorted_children bn))
      [length nodes..<length nodes + length (sorted_children bn)]"
    using bake_children_queue [of i "sorted_children bn" nodes1 tab queue] by simp
  then have "sum_list (map (\<lambda>(bn, i). nnodes bn) queue2) =
      sum_list (map (\<lambda>(bn, i). nnodes bn) queue) + sum_list (map (\<lambda>(b, n). nnodes n) (sorted_children bn))"
    by (simp add: map_fst_zip_upt comp_def) (simp add: case_prod_unfold)
  then show ?case using nnodes_sorted_children [of bn] by simp
qed

definition BakeToArena :: "BuilderNode \<Rightarrow> RouteNode list \<times> bytes" where
  "BakeToArena bn = bake_loop [fresh_node 0 bn] (bn_prefix bn) [(bn, 0)]"

subsection \<open>Looking a path up\<close>

definition OnesCount64 :: "u64 \<Rightarrow> nat" where
  "OnesCount64 w = length (filter (bit w) [0..<64])"

definition findChildIdx :: "RouteNode \<Rightarrow> u8 \<Rightarrow> RouteNode list \<Rightarrow> RouteNode option go" where
  "findChildIdx n b nodes =
     (let isHi = (ucast (drop_bit 6 b) :: u64);
          bitIdx = unat (b AND 63);
          bt = (push_bit bitIdx 1 :: u64);
          targetMask = (maskLo n AND NOT (isHi * 0xFFFFFFFFFFFFFFFF)) OR
                       (maskHi n AND (isHi * 0xFFFFFFFFFFFFFFFF))
      in if targetMask AND bt = 0 then Inr None
         else
           let loCount = (word_of_nat (OnesCount64 (maskLo n)) :: u32);
               k = loCount * ucast isHi + word_of_nat (OnesCount64 (targetMask AND (bt - 1)))
           in andThen (idx nodes (uint (childIdx n + k))) (\<lambda>c. Inr (Some c)))"

partial_function (option) lookup_loop ::
  "RouteNode list \<Rightarrow> bytes \<Rightarrow> RouteNode \<Rightarrow> bytes \<Rightarrow> u32 \<Rightarrow> u32 go option" where
  "lookup_loop nodes tab cur input longestMatch =
     (case slice tab (uint (prefixOff cur)) (uint (prefixOff cur + ucast (prefixLen cur))) of
        Inl p \<Rightarrow> Some (Inl p)
      | Inr pre \<Rightarrow>
          if length input < length pre \<or> take (length pre) input \<noteq> pre
          then Some (Inr longestMatch)
          else
            let input' = drop (length pre) input;
                longest' =
                  (if rn_apiId cur \<noteq> 0 \<and> (length input' = 0 \<or> input' ! 0 = 0x2F)
                   then rn_apiId cur else longestMatch)
            in if length input' = 0 then Some (Inr (rn_apiId cur))
               else (case findChildIdx cur (input' ! 0) nodes of
                       Inl p \<Rightarrow> Some (Inl p)
                     | Inr None \<Rightarrow> Some (Inr longest')
                     | Inr (Some nxt) \<Rightarrow> lookup_loop nodes tab nxt input' longest'))"

declare lookup_loop.simps [code]

subsection \<open>The router\<close>

definition New :: RahRouter where
  "New = \<lparr>builder = NewBuilder, snapshot = \<lparr>arena = [], table = []\<rparr>\<rparr>"

definition publish :: "BuilderNode \<Rightarrow> RahRouter" where
  \<comment> \<open>Bake and store the new snapshot.\<close>
  "publish b =
     (let (nodes, tab) = BakeToArena b in \<lparr>builder = b, snapshot = \<lparr>arena = nodes, table = tab\<rparr>\<rparr>)"

definition router_Add :: "RahRouter \<Rightarrow> bytes \<Rightarrow> u32 \<Rightarrow> RahRouter" where
  "router_Add r path apiId = publish (Add (builder r) path apiId)"

definition AddMany :: "RahRouter \<Rightarrow> (bytes \<times> u32) list \<Rightarrow> RahRouter" where
  \<comment> \<open>\<open>routes\<close> is the Go map in the order in which it happens to be iterated.\<close>
  "AddMany r routes = publish (foldl (\<lambda>b (path, name). Add b path name) (builder r) routes)"

definition Lookup :: "RahRouter \<Rightarrow> bytes \<Rightarrow> u32 go option" where
  "Lookup r path =
     (if length (arena (snapshot r)) = 0 then Some (Inr 0)
      else lookup_loop (arena (snapshot r)) (table (snapshot r)) (arena (snapshot r) ! 0) path 0)"

end
