(* ===== verification/Rah_Router_Tree.thy ===== *)
theory Rah_Router_Tree
  imports Rah_Router
begin

section \<open>The radix tree of the router and what it stores\<close>

text \<open>
  The tree as a map from paths to identifiers (\<open>exact\<close>), its well-formedness invariant
  (\<open>wf_node\<close>, \<open>wf_root\<close>), the cases of \<open>Add\<close> with an induction rule over them, and the proof that
  \<open>Add\<close> keeps the invariant and updates the map at exactly one path. \<open>tlookup\<close> is the search of
  \<open>Lookup\<close> carried out on the tree; \<open>tlookup_root\<close> shows that it answers \<open>route_spec\<close>, which mentions
  only the map.
\<close>

lemma size_map_of_child' [termination_simp]:
  "map_of cs b = Some n \<Longrightarrow> size n < Suc (size_list (\<lambda>x. Suc (size (snd x))) cs)"
  by (induction cs) (auto split: if_splits)

lemma size_set_child [termination_simp]:
  "(b, n) \<in> set cs \<Longrightarrow> size n < Suc (size_list (\<lambda>x. Suc (size (snd x))) cs)"
  by (induction cs) auto

fun exact :: "BuilderNode \<Rightarrow> bytes \<Rightarrow> u32" where
  "exact (BuilderNode p a cs) q =
     (if \<not> prefix p q then 0
      else case drop (length p) q of
             [] \<Rightarrow> a
           | c # r \<Rightarrow> (case map_of cs c of None \<Rightarrow> 0 | Some n \<Rightarrow> exact n (c # r)))"

fun wf_node :: "BuilderNode \<Rightarrow> bool" where
  "wf_node (BuilderNode p a cs) \<longleftrightarrow>
     distinct (map fst cs) \<and> (a \<noteq> 0 \<or> 2 \<le> length cs) \<and>
     (\<forall>(b, n) \<in> set cs. wf_node n \<and> bn_prefix n \<noteq> [] \<and> hd (bn_prefix n) = b)"

definition wf_root :: "BuilderNode \<Rightarrow> bool" where
  "wf_root t \<longleftrightarrow> t = NewBuilder \<or> wf_node t \<and> (bn_prefix t = [] \<longrightarrow> bn_children t \<noteq> [])"

declare exact.simps [simp del] wf_node.simps [simp del]

lemma exact_append:
  "exact (BuilderNode p a cs) (p @ r) =
     (case r of [] \<Rightarrow> a | c # r' \<Rightarrow> (case map_of cs c of None \<Rightarrow> 0 | Some n \<Rightarrow> exact n (c # r')))"
  by (simp add: exact.simps split: list.split)

lemma exact_self [simp]: "exact (BuilderNode p a cs) p = a"
  using exact_append [of p a cs "[]"] by simp

lemma exact_below [simp]:
  "exact (BuilderNode p a cs) (p @ c # r) =
     (case map_of cs c of None \<Rightarrow> 0 | Some n \<Rightarrow> exact n (c # r))"
  by (simp add: exact_append)

lemma exact_not_prefix: "\<not> prefix p q \<Longrightarrow> exact (BuilderNode p a cs) q = 0"
  by (simp add: exact.simps)

lemma exact_leaf: "exact (BuilderNode p a []) q = (if q = p then a else 0)"
  by (auto simp: exact.simps elim!: prefixE split: list.split)

subsection \<open>The cases of \<open>Add\<close>\<close>

lemma common_len_append [simp]: "common_len (p @ x) (p @ y) = length p + common_len x y"
  by (induction p) auto

lemma common_len_same [simp]:
  "common_len p p = length p" "common_len (p @ x) p = length p" "common_len p (p @ x) = length p"
  using common_len_append [of p "[]" "[]"] common_len_append [of p x "[]"]
    common_len_append [of p "[]" x] by (simp_all del: common_len_append)

lemma Add_root: "Add (BuilderNode [] a []) path api = BuilderNode path api []"
  by (simp add: Add.simps)

lemma Add_same:
  "p \<noteq> [] \<or> cs \<noteq> [] \<Longrightarrow> Add (BuilderNode p a cs) p api = BuilderNode p api cs"
  by (subst Add.simps) (auto simp: split_node_def Let_def)

lemma Add_up:
  "Add (BuilderNode (path @ b # r) a cs) path api =
     BuilderNode path api [(b, BuilderNode (b # r) a cs)]"
  by (subst Add.simps) (auto simp: split_node_def Let_def)

lemma Add_down:
  "p \<noteq> [] \<or> cs \<noteq> [] \<Longrightarrow> Add (BuilderNode p a cs) (p @ c # r) api =
     BuilderNode p a
       (AList.update c
         (case map_of cs c of None \<Rightarrow> BuilderNode (c # r) api [] | Some n \<Rightarrow> Add n (c # r) api) cs)"
  by (subst Add.simps) (auto simp: split_node_def Let_def split: option.split)

lemma Add_fork:
  "b \<noteq> c \<Longrightarrow> Add (BuilderNode (pre @ b # r) a cs) (pre @ c # s) api =
     BuilderNode pre 0 [(b, BuilderNode (b # r) a cs), (c, BuilderNode (c # s) api [])]"
  by (subst Add.simps) (auto simp: split_node_def Let_def)

lemmas Add_rules = Add_root Add_same Add_up Add_down Add_fork

lemma prefix_cases:
  obtains (same) "path = p"
    | (up) b r where "p = path @ b # r"
    | (down) c r where "path = p @ c # r"
    | (fork) pre b r c s where "p = pre @ b # r" "path = pre @ c # s" "b \<noteq> c"
proof -
  let ?pre = "longest_common_prefix p path"
  obtain x y where *: "p = ?pre @ x" "path = ?pre @ y"
    by (meson longest_common_prefix_prefix1 longest_common_prefix_prefix2 prefixE)
  have "x = [] \<or> y = [] \<or> hd x \<noteq> hd y"
    using * longest_common_prefix_max_prefix [of "?pre @ [hd x]" p path]
    by (metis append_is_Nil_conv hd_Cons_tl prefix_order.eq_iff prefix_def append.assoc append_Cons
        append_Nil not_Cons_self2 prefix_length_le length_append_singleton not_less_eq_eq order_refl)
  then show ?thesis
    using * that by (cases x; cases y) (metis append_Nil2 list.sel(1))+
qed

lemma Add_induct [case_names root same up leaf down fork]:
  fixes P :: "BuilderNode \<Rightarrow> bytes \<Rightarrow> u32 \<Rightarrow> bool"
  assumes "\<And>a path api. P (BuilderNode [] a []) path api"
    and "\<And>p a cs api. p \<noteq> [] \<or> cs \<noteq> [] \<Longrightarrow> P (BuilderNode p a cs) p api"
    and "\<And>path b r a cs api. P (BuilderNode (path @ b # r) a cs) path api"
    and "\<And>p a cs c r api. p \<noteq> [] \<or> cs \<noteq> [] \<Longrightarrow> map_of cs c = None \<Longrightarrow>
       P (BuilderNode p a cs) (p @ c # r) api"
    and "\<And>p a cs c r n api. p \<noteq> [] \<or> cs \<noteq> [] \<Longrightarrow> map_of cs c = Some n \<Longrightarrow> P n (c # r) api \<Longrightarrow>
       P (BuilderNode p a cs) (p @ c # r) api"
    and "\<And>pre b r c s a cs api. b \<noteq> c \<Longrightarrow> P (BuilderNode (pre @ b # r) a cs) (pre @ c # s) api"
  shows "P t path api"
proof (induction t path api rule: Add.induct)
  case (1 t path api)
  obtain p a cs where t: "t = BuilderNode p a cs" by (cases t)
  show ?case
  proof (cases "p = [] \<and> cs = []")
    case True
    then show ?thesis using t assms(1) by simp
  next
    case ne: False
    show ?thesis
    proof (cases path p rule: prefix_cases)
      case same
      then show ?thesis using t ne assms(2) by simp
    next
      case (up b r)
      then show ?thesis using t assms(3) by simp
    next
      case (down c r)
      show ?thesis
      proof (cases "map_of cs c")
        case None
        then show ?thesis using t ne down assms(4) by simp
      next
        case (Some n)
        then have "P n (c # r) api"
          using 1 [OF _ refl refl _ refl, of n] ne down t by (simp add: split_node_def)
        then show ?thesis using t ne down Some assms(5) by simp
      qed
    next
      case (fork pre b r c s)
      then show ?thesis using t assms(6) by simp
    qed
  qed
qed

lemma map_of_update: "map_of (AList.update k v cs) c = (if c = k then Some v else map_of cs c)"
  by (auto simp: update_conv')

lemma child_wf:
  "wf_node (BuilderNode p a cs) \<Longrightarrow> map_of cs c = Some n \<Longrightarrow>
     wf_node n \<and> bn_prefix n \<noteq> [] \<and> hd (bn_prefix n) = c"
  by (auto simp: wf_node.simps dest!: map_of_SomeD)

lemma exact_Add:
  assumes "bn_prefix t \<noteq> [] \<or> bn_children t \<noteq> []" "path \<noteq> []" "wf_node t"
  shows "exact (Add t path api) q = (if q = path then api else exact t q)"
  using assms
proof (induction t path api arbitrary: q rule: Add_induct)
  case (root a path api)
  then show ?case by simp
next
  case (same p a cs api)
  then show ?case by (auto simp: Add_same exact.simps prefix_def split: list.split)
next
  case (up path b r a cs api)
  then show ?case 
    by (auto simp: Add_up exact.simps prefix_def split: list.split)
next
  case (leaf p a cs c r api)
  then show ?case by (auto simp: Add_down exact.simps map_of_update prefix_def split: list.split)
next
  case (down p a cs c r n api)
  then have "exact (Add n (c # r) api) q = (if q = c # r then api else exact n q)" for q
    using child_wf [of p a cs c n] by auto
  then show ?case
    using down by (auto simp: Add_down exact.simps map_of_update prefix_def split: list.split)
next
  case (fork pre b r c s a cs api)
  then show ?case
    by (auto simp: Add_fork exact.simps prefix_def split: list.split)
qed

lemma bn_prefix_Add:
  assumes "bn_prefix t \<noteq> []" "path \<noteq> []" "hd path = hd (bn_prefix t)"
  shows "bn_prefix (Add t path api) \<noteq> [] \<and> hd (bn_prefix (Add t path api)) = hd path"
  using assms
  by (induction t path api rule: Add_induct)
     (auto simp: Add_rules hd_append split: if_splits option.split)

lemma wf_node_update:
  assumes "wf_node (BuilderNode p a cs)" "wf_node n" "bn_prefix n \<noteq> []" "hd (bn_prefix n) = c"
  shows "wf_node (BuilderNode p a (AList.update c n cs))"
proof -
  have "length cs \<le> length (AList.update c n cs)"
    by (induction cs) auto
  moreover have "set (AList.update c n cs) \<subseteq> insert (c, n) (set cs)"
    by (induction cs) auto
  moreover have "distinct (map fst (AList.update c n cs))"
    using assms(1) by (simp add: distinct_update wf_node.simps)
  ultimately show ?thesis
    using assms by (fastforce simp: wf_node.simps)
qed

lemma wf_node_Add:
  assumes "bn_prefix t \<noteq> [] \<or> bn_children t \<noteq> []" "path \<noteq> []" "wf_node t" "api \<noteq> 0"
  shows "wf_node (Add t path api)"
  using assms
proof (induction t path api rule: Add_induct)
  case (down p a cs c r n api)
  note n = child_wf [OF down.prems(3) down.hyps(2)]
  then have "wf_node (Add n (c # r) api)" using down by simp
  moreover have "bn_prefix (Add n (c # r) api) \<noteq> [] \<and> hd (bn_prefix (Add n (c # r) api)) = c"
    using bn_prefix_Add [of n "c # r" api] n by simp
  ultimately show ?case using down by (simp add: Add_down wf_node_update)
next
  case (leaf p a cs c r api)
  moreover have "wf_node (BuilderNode (c # r) api [])" using leaf by (simp add: wf_node.simps)
  ultimately show ?case by (simp add: Add_down wf_node_update)
qed (auto simp: Add_rules wf_node.simps)

lemma wf_root_Add:
  assumes "wf_root t" "path \<noteq> []" "api \<noteq> 0"
  shows "wf_root (Add t path api)"
    and "exact (Add t path api) q = (if q = path then api else exact t q)"
proof -
  have "wf_root (Add t path api) \<and> exact (Add t path api) q = (if q = path then api else exact t q)"
  proof (cases "t = NewBuilder")
    case True
    then show ?thesis
      using assms by (simp add: NewBuilder_def Add_root wf_root_def wf_node.simps exact_leaf)
  next
    case False
    then have ne: "bn_prefix t \<noteq> [] \<or> bn_children t \<noteq> []" and wf: "wf_node t"
      using assms(1) by (auto simp: wf_root_def)
    have "bn_children (Add t path api) \<noteq> [] \<or> bn_prefix (Add t path api) \<noteq> []"
      using ne assms(2) by (induction t path api rule: Add_induct) (auto simp: Add_rules update_nonempty)
    then show ?thesis
      using wf_node_Add [OF ne assms(2) wf assms(3)] exact_Add [OF ne assms(2) wf]
      by (auto simp: wf_root_def)
  qed
  then show "wf_root (Add t path api)" "exact (Add t path api) q = (if q = path then api else exact t q)"
    by simp_all
qed

subsection \<open>Lookup on the tree\<close>

fun tlookup :: "BuilderNode \<Rightarrow> bytes \<Rightarrow> u32 \<Rightarrow> u32" where
  "tlookup (BuilderNode p a cs) q lm =
     (if \<not> prefix p q then lm
      else case drop (length p) q of
             [] \<Rightarrow> a
           | c # r \<Rightarrow>
               let lm' = (if a \<noteq> 0 \<and> c = 0x2F then a else lm) in
               (case map_of cs c of None \<Rightarrow> lm' | Some n \<Rightarrow> tlookup n (c # r) lm'))"

declare tlookup.simps [simp del]

text \<open>The identifier of the longest registered path that ends before a slash of \<open>q\<close>.\<close>

definition boundary_match :: "(bytes \<Rightarrow> u32) \<Rightarrow> bytes \<Rightarrow> u32 \<Rightarrow> u32" where
  "boundary_match R q d =
     foldl (\<lambda>m k. if R (take k q) \<noteq> 0 \<and> q ! k = 0x2F then R (take k q) else m) d [0..<length q]"

definition branch_point :: "(bytes \<Rightarrow> u32) \<Rightarrow> bytes \<Rightarrow> bool" where
  "branch_point R q \<longleftrightarrow> (\<exists>b c r s. b \<noteq> c \<and> R (q @ b # r) \<noteq> 0 \<and> R (q @ c # s) \<noteq> 0)"

definition route_spec :: "(bytes \<Rightarrow> u32) \<Rightarrow> bytes \<Rightarrow> u32" where
  "route_spec R q =
     (if R q \<noteq> 0 then R q else if branch_point R q then 0 else boundary_match R q 0)"

lemma boundary_match_append:
  "boundary_match R (p @ r) d = boundary_match (\<lambda>s. R (p @ s)) r (boundary_match R p d)"
proof -
  let ?f = "\<lambda>q m k. if R (take k q) \<noteq> 0 \<and> q ! k = 0x2F then R (take k q) else m"
  have "[0..<length (p @ r)] = [0..<length p] @ map (\<lambda>k. k + length p) [0..<length r]"
    using upt_add_eq_append [of 0 "length p" "length r"] by (simp add: map_add_upt add.commute)
  then have "boundary_match R (p @ r) d =
      foldl (\<lambda>m k. ?f (p @ r) m (k + length p)) (foldl (?f (p @ r)) d [0..<length p]) [0..<length r]"
    by (simp add: boundary_match_def foldl_map)
  moreover have "foldl (?f (p @ r)) d [0..<length p] = boundary_match R p d"
    unfolding boundary_match_def by (rule foldl_cong) (auto simp: nth_append)
  moreover have "foldl (\<lambda>m k. ?f (p @ r) m (k + length p)) e [0..<length r] =
      boundary_match (\<lambda>s. R (p @ s)) r e" for e
    unfolding boundary_match_def by (rule foldl_cong) (auto simp: nth_append)
  ultimately show ?thesis by simp
qed

lemma boundary_match_zero:
  "(\<And>k. k < length q \<Longrightarrow> R (take k q) = 0) \<Longrightarrow> boundary_match R q d = d"
proof -
  assume *: "\<And>k. k < length q \<Longrightarrow> R (take k q) = 0"
  have "foldl (\<lambda>m k. if R (take k q) \<noteq> 0 \<and> q ! k = 0x2F then R (take k q) else m) d ks = d"
    if "set ks \<subseteq> {..<length q}" for ks
    using that by (induction ks) (auto simp: *)
  then show ?thesis by (simp add: boundary_match_def atLeast0LessThan)
qed

lemma boundary_match_Cons:
  "boundary_match R (c # r) d =
     boundary_match (\<lambda>s. R (c # s)) r (if R [] \<noteq> 0 \<and> c = 0x2F then R [] else d)"
  using boundary_match_append [of R "[c]" r d] by (simp add: boundary_match_def)

lemma wf_node_has_route: "wf_node t \<Longrightarrow> \<exists>s. exact t (bn_prefix t @ s) \<noteq> 0"
proof (induction t)
  case (BuilderNode p a cs)
  show ?case
  proof (cases "a = 0")
    case False
    then show ?thesis by (auto intro!: exI [of _ "[]"])
  next
    case True
    then obtain c n cs' where cs: "cs = (c, n) # cs'"
      using BuilderNode.prems by (cases cs) (auto simp: wf_node.simps)
    then have n: "wf_node n" "bn_prefix n \<noteq> []" "hd (bn_prefix n) = c"
      using BuilderNode.prems by (auto simp: wf_node.simps)
    then obtain s where "exact n (bn_prefix n @ s) \<noteq> 0"
      using BuilderNode.IH [of "(c, n)" n] cs by auto
    then show ?thesis
      using cs n by (cases "bn_prefix n") (auto intro!: exI [of _ "bn_prefix n @ s"])
  qed
qed

lemma branch_point_below:
  "branch_point (exact (BuilderNode p a cs)) (p @ c # r) \<longleftrightarrow>
     (case map_of cs c of None \<Rightarrow> False | Some n \<Rightarrow> branch_point (exact n) (c # r))"
  by (simp add: branch_point_def split: option.split)

lemma branch_point_self:
  assumes "wf_node (BuilderNode p 0 cs)"
  shows "branch_point (exact (BuilderNode p 0 cs)) p"
proof -
  obtain b n c m cs' where cs: "cs = (b, n) # (c, m) # cs'"
    using assms by (cases cs rule: remdups_adj.cases) (auto simp: wf_node.simps)
  then have "b \<noteq> c" "map_of cs b = Some n" "map_of cs c = Some m"
    using assms by (auto simp: wf_node.simps)
  moreover from this have "wf_node n" "bn_prefix n \<noteq> []" "hd (bn_prefix n) = b"
      "wf_node m" "bn_prefix m \<noteq> []" "hd (bn_prefix m) = c"
    using child_wf [OF assms] by auto
  moreover from this obtain r s where "exact n (bn_prefix n @ r) \<noteq> 0" "exact m (bn_prefix m @ s) \<noteq> 0"
    using wf_node_has_route by meson
  ultimately show ?thesis
    unfolding branch_point_def
    by (intro exI [of _ b] exI [of _ c] exI [of _ "tl (bn_prefix n) @ r"] exI [of _ "tl (bn_prefix m) @ s"])
       (cases "bn_prefix n"; cases "bn_prefix m"; simp)
qed

lemma branch_point_not_prefix: "\<not> prefix p q \<Longrightarrow> \<not> branch_point (exact (BuilderNode p a cs)) q"
proof
  assume np: "\<not> prefix p q" and "branch_point (exact (BuilderNode p a cs)) q"
  then obtain b c r s where "b \<noteq> c" "prefix p (q @ b # r)" "prefix p (q @ c # s)"
    unfolding branch_point_def using exact_not_prefix by metis
  with np show False by (auto simp: prefix_append prefix_Cons)
qed

lemma boundary_match_above:
  "boundary_match (exact (BuilderNode p a cs)) p d = d"
  by (rule boundary_match_zero) (auto intro!: exact_not_prefix dest: prefix_length_le)

lemma boundary_match_not_prefix:
  "\<not> prefix p q \<Longrightarrow> boundary_match (exact (BuilderNode p a cs)) q d = d"
  by (rule boundary_match_zero)
     (metis exact_not_prefix prefix_order.trans take_is_prefix)

lemma boundary_match_below:
  assumes "wf_node (BuilderNode p a cs)"
  shows "boundary_match (exact (BuilderNode p a cs)) (p @ c # r) d =
    (let d' = (if a \<noteq> 0 \<and> c = 0x2F then a else d) in
     case map_of cs c of None \<Rightarrow> d' | Some n \<Rightarrow> boundary_match (exact n) (c # r) d')"
proof (cases "map_of cs c")
  case None
  then show ?thesis
    by (simp add: boundary_match_append boundary_match_above boundary_match_Cons boundary_match_zero)
next
  case (Some n)
  then have "exact n [] = 0"
    using child_wf [OF assms Some] by (cases n) (auto intro: exact_not_prefix)
  then show ?thesis
    using Some by (simp add: boundary_match_append boundary_match_above boundary_match_Cons)
qed

lemma tlookup_spec:
  "wf_node t \<Longrightarrow> tlookup t q d =
     (if exact t q \<noteq> 0 then exact t q
      else if branch_point (exact t) q then 0 else boundary_match (exact t) q d)"
proof (induction t q d rule: tlookup.induct)
  case (1 p a cs q d)
  show ?case
  proof (cases "prefix p q")
    case False
    then show ?thesis
      by (simp add: tlookup.simps exact_not_prefix branch_point_not_prefix boundary_match_not_prefix)
  next
    case True
    then obtain s where q: "q = p @ s" by (auto elim: prefixE)
    show ?thesis
    proof (cases s)
      case Nil
      then show ?thesis using q "1.prems" branch_point_self [of p cs]
        by (auto simp: tlookup.simps)
    next
      case (Cons c r)
      show ?thesis
      proof (cases "map_of cs c")
        case None
        then show ?thesis
          using q Cons "1.prems" by (simp add: tlookup.simps boundary_match_below branch_point_below)
      next
        case (Some n)
        then have "wf_node n" using child_wf [OF "1.prems"] by simp
        then show ?thesis
          using q Cons Some "1.prems" "1.IH" [OF _ _ refl Some]
          by (simp add: tlookup.simps boundary_match_below branch_point_below)
      qed
    qed
  qed
qed

lemma tlookup_root:
  assumes "wf_root t"
  shows "tlookup t q 0 = route_spec (exact t) q"
proof (cases "t = NewBuilder")
  case True
  then show ?thesis
    by (auto simp: NewBuilder_def tlookup.simps exact_leaf route_spec_def branch_point_def
        boundary_match_zero split: list.split)
next
  case False
  then show ?thesis using assms tlookup_spec [of t q 0] by (auto simp: wf_root_def route_spec_def)
qed

end
