(* ===== verification/Rah_Router_Arena.thy ===== *)
theory Rah_Router_Arena
  imports Rah_Router_Tree
begin

section \<open>The flattened tree represents the tree\<close>

text \<open>
  \<open>rep nodes tab Q t i\<close> says that the arena holds the tree \<open>t\<close> at index \<open>i\<close>, up to the nodes whose
  children the breadth-first queue \<open>Q\<close> has still to emit. Each iteration of \<open>bake_loop\<close> keeps it
  (\<open>rep_step_leaf\<close>, \<open>rep_step_inner\<close>), so \<open>BakeToArena\<close> establishes it with the empty queue.
  \<open>findChildIdx_eq\<close> shows that the two popcounts give the rank of a byte among the child keys, for
  bytes below 128, and \<open>lookup_loop_rep\<close> that the arena walk is \<open>tlookup\<close>. The last part bounds the
  number of nodes and table bytes, so that the 32-bit offsets and 16-bit lengths do not wrap.
\<close>

unbundle bit_operations_syntax

definition masks_ok :: "RouteNode \<Rightarrow> u8 set \<Rightarrow> bool" where
  "masks_ok n K \<longleftrightarrow>
     (\<forall>k < 64. bit (maskLo n) k = (word_of_nat k \<in> K) \<and> bit (maskHi n) k = (word_of_nat (64 + k) \<in> K))"

definition node_ok :: "RouteNode list \<Rightarrow> bytes \<Rightarrow> BuilderNode \<Rightarrow> nat \<Rightarrow> bool" where
  "node_ok nodes tab t i \<longleftrightarrow>
     i < length nodes \<and> rn_apiId (nodes ! i) = bn_apiId t \<and>
     prefixLen (nodes ! i) = word_of_nat (length (bn_prefix t)) \<and>
     (\<exists>off. prefixOff (nodes ! i) = word_of_nat off \<and> off + length (bn_prefix t) \<le> length tab \<and>
        take (length (bn_prefix t)) (drop off tab) = bn_prefix t)"

lemma child_bit_fields [simp]:
  "prefixOff (child_bit b n) = prefixOff n" "prefixLen (child_bit b n) = prefixLen n"
  "childIdx (child_bit b n) = childIdx n" "numChildren (child_bit b n) = numChildren n"
  "rn_apiId (child_bit b n) = rn_apiId n"
  by (simp_all add: child_bit_def)

lemma word_of_nat_u8_eq: "k < 256 \<Longrightarrow> word_of_nat k = (b :: u8) \<longleftrightarrow> k = unat b"
  by (auto simp: unsigned_of_nat take_bit_eq_mod)

lemma masks_ok_child_bit:
  assumes "masks_ok n K"
  shows "masks_ok (child_bit b n) (insert b K)"
proof (cases "b < 64")
  case True
  then have b: "unat b < 64" by (simp add: word_less_nat_alt)
  then have "word_of_nat k = b \<longleftrightarrow> k = unat b" "word_of_nat (64 + k) = b \<longleftrightarrow> False" if "k < 64" for k
    using that word_of_nat_u8_eq [of k b] word_of_nat_u8_eq [of "64 + k" b] by simp_all
  then show ?thesis
    using assms True by (auto simp: masks_ok_def child_bit_def bit_simps)
next
  case False
  then have b: "64 \<le> unat b" "unat b < 256" "unat (b - 64) = unat b - 64"
    using unsigned_less [of b, where ?'a = nat]
    by (simp_all add: word_less_nat_alt unat_sub word_le_nat_alt)
  then have "word_of_nat k = b \<longleftrightarrow> False" "word_of_nat (64 + k) = b \<longleftrightarrow> k = unat b - 64" if "k < 64" for k
    using that word_of_nat_u8_eq [of k b] word_of_nat_u8_eq [of "64 + k" b] by auto
  then show ?thesis
    using assms False b by (auto simp: masks_ok_def child_bit_def bit_simps)
qed

lemma masks_ok_fold: "masks_ok n K \<Longrightarrow> masks_ok (fold child_bit bs n) (set bs \<union> K)"
proof (induction bs arbitrary: n K)
  case Nil
  then show ?case by simp
next
  case (Cons b bs)
  then show ?case using Cons.IH [OF masks_ok_child_bit [OF Cons.prems, of b]] by simp
qed

lemma fold_child_bit_fields [simp]:
  "prefixOff (fold child_bit bs n) = prefixOff n" "prefixLen (fold child_bit bs n) = prefixLen n"
  "childIdx (fold child_bit bs n) = childIdx n" "rn_apiId (fold child_bit bs n) = rn_apiId n"
  by (induction bs arbitrary: n) simp_all

fun fresh_nodes :: "nat \<Rightarrow> BuilderNode list \<Rightarrow> RouteNode list" where
  "fresh_nodes off [] = []"
| "fresh_nodes off (c # cs) = fresh_node off c # fresh_nodes (off + length (bn_prefix c)) cs"

lemma length_fresh_nodes [simp]: "length (fresh_nodes off cs) = length cs"
  by (induction cs arbitrary: off) auto

lemma nth_fresh_nodes:
  "j < length cs \<Longrightarrow> fresh_nodes off cs ! j =
     fresh_node (off + length (concat (map bn_prefix (take j cs)))) (cs ! j)"
  by (induction cs arbitrary: off j) (auto simp: nth_Cons add.assoc split: nat.split)

lemma bake_children_closed:
  "i < length nodes \<Longrightarrow> bake_children i cs nodes tab queue =
     (nodes[i := fold child_bit (map fst cs) (nodes ! i)] @ fresh_nodes (length tab) (map snd cs),
      tab @ concat (map (bn_prefix \<circ> snd) cs),
      queue @ zip (map snd cs) [length nodes..<length nodes + length cs])"
proof (induction cs arbitrary: nodes tab queue)
  case Nil
  then show ?case by simp
next
  case (Cons c cs)
  obtain b n where c: "c = (b, n)" by (cases c)
  show ?case
    using Cons.prems
    by (simp add: c Let_def Cons.IH nth_append list_update_append upt_conv_Cons del: upt_Suc)
qed

lemma node_ok_fresh:
  assumes "j < length cs" "length nodes0 = m"
  shows "node_ok (nodes0 @ fresh_nodes (length tab) cs) (tab @ concat (map bn_prefix cs)) (cs ! j) (m + j)"
proof -
  let ?pre = "concat (map bn_prefix (take j cs))" and ?rest = "concat (map bn_prefix (drop (Suc j) cs))"
  have "cs = take j cs @ cs ! j # drop (Suc j) cs"
    using assms(1) by (rule id_take_nth_drop)
  then have "concat (map bn_prefix cs) = ?pre @ bn_prefix (cs ! j) @ ?rest"
    by (metis concat.simps(2) concat_append list.simps(9) map_append)
  then show ?thesis
    using assms by (auto simp: node_ok_def nth_fresh_nodes fresh_node_def nth_append
        intro!: exI [of _ "length tab + length ?pre"])
qed

inductive rep :: "RouteNode list \<Rightarrow> bytes \<Rightarrow> task list \<Rightarrow> BuilderNode \<Rightarrow> nat \<Rightarrow> bool"
  for nodes :: "RouteNode list" and tab :: bytes and Q :: "task list" where
  pending: "(t, i) \<in> set Q \<Longrightarrow> node_ok nodes tab t i \<Longrightarrow> masks_ok (nodes ! i) {} \<Longrightarrow> rep nodes tab Q t i"
| expanded: "i \<notin> snd ` set Q \<Longrightarrow> node_ok nodes tab t i \<Longrightarrow>
     masks_ok (nodes ! i) (fst ` set (bn_children t)) \<Longrightarrow>
     (bn_children t \<noteq> [] \<longrightarrow> childIdx (nodes ! i) = word_of_nat ci) \<Longrightarrow>
     (\<And>j. j < length (sorted_children t) \<Longrightarrow> rep nodes tab Q (snd (sorted_children t ! j)) (ci + j)) \<Longrightarrow>
     rep nodes tab Q t i"

inductive_cases rep_done: "rep nodes tab [] t i"

lemma rep_node_ok: "rep nodes tab Q t i \<Longrightarrow> node_ok nodes tab t i"
  by (auto elim: rep.cases)

lemma node_ok_mono:
  assumes "node_ok nodes tab t i" "i < length nodes'" "prefixOff (nodes' ! i) = prefixOff (nodes ! i)"
    "prefixLen (nodes' ! i) = prefixLen (nodes ! i)" "rn_apiId (nodes' ! i) = rn_apiId (nodes ! i)"
  shows "node_ok nodes' (tab @ ext) t i"
  using assms by (fastforce simp: node_ok_def)

lemma sorted_children_fst [simp]:
  "map fst (sorted_children t) = sort (remdups (map fst (bn_children t)))"
  by (simp add: sorted_children_def comp_def)

lemma fst_set_sorted_children [simp]:
  "fst ` set (sorted_children t) = fst ` set (bn_children t)"
  by (simp add: sorted_children_def image_image)

definition bake_inv :: "RouteNode list \<Rightarrow> task list \<Rightarrow> bool" where
  "bake_inv nodes Q \<longleftrightarrow> distinct (map snd Q) \<and> (\<forall>(t, i) \<in> set Q. i < length nodes)"

lemma rep_step_leaf:
  assumes "rep nodes tab ((bn, i) # Q) t k" "bake_inv nodes ((bn, i) # Q)" "bn_children bn = []"
  shows "rep nodes tab Q t k"
  using assms
proof (induction rule: rep.induct)
  case (pending t k)
  show ?case
  proof (cases "(t, k) \<in> set Q")
    case True
    then show ?thesis using pending rep.pending by blast
  next
    case False
    then have "t = bn" "k = i" using pending by auto
    then show ?thesis
      using pending by - (rule rep.expanded, auto simp: bake_inv_def sorted_children_def)
  qed
next
  case (expanded k t ci)
  then show ?case by - (rule rep.expanded [where ci = ci], auto)
qed

lemma rep_step_inner:
  fixes nodes tab bn i Q
  defines "nodes1 \<equiv> nodes[i := (nodes ! i)\<lparr>childIdx := word_of_nat (length nodes),
              numChildren := word_of_nat (length (remdups (map fst (bn_children bn))))\<rparr>]"
  assumes "rep nodes tab ((bn, i) # Q) t k" "bake_inv nodes ((bn, i) # Q)"
    and "bake_children i (sorted_children bn) nodes1 tab Q = (nodes2, tab2, Q2)"
  shows "rep nodes2 tab2 Q2 t k"
proof -
  let ?cs = "sorted_children bn" and ?m = "length nodes"
  let ?n = "(nodes ! i)\<lparr>childIdx := word_of_nat (length nodes),
              numChildren := word_of_nat (length (remdups (map fst (bn_children bn))))\<rparr>"
  have i: "i < length nodes" "i \<notin> snd ` set Q" using assms(3) by (auto simp: bake_inv_def)
  have n1: "length nodes1 = ?m" "nodes1 ! i = ?n" using i by (simp_all add: nodes1_def)
  have n2: "nodes2 = nodes1[i := fold child_bit (map fst ?cs) ?n] @ fresh_nodes (length tab) (map snd ?cs)"
    and tab2: "tab2 = tab @ concat (map bn_prefix (map snd ?cs))"
    and Q2: "Q2 = Q @ zip (map snd ?cs) [?m..<?m + length ?cs]"
    using bake_children_closed [of i nodes1 ?cs tab Q] assms(4) i n1 by auto
  have same: "nodes2 ! k = nodes ! k" if "k < ?m" "k \<noteq> i" for k
    using that n1 n2 by (simp add: nth_append nodes1_def)
  have at_i: "nodes2 ! i = fold child_bit (map fst ?cs) ?n"
    using i n1 n2 by (simp add: nth_append)
  have child: "rep nodes2 tab2 Q2 (snd (?cs ! j)) (?m + j)" if "j < length ?cs" for j
  proof (rule rep.pending)
    show "(snd (?cs ! j), ?m + j) \<in> set Q2"
      using that by (auto simp: Q2 set_zip intro!: exI [of _ j])
    show "node_ok nodes2 tab2 (snd (?cs ! j)) (?m + j)"
      using node_ok_fresh [of j "map snd ?cs" _ ?m tab] that n1 unfolding n2 tab2 by simp
    show "masks_ok (nodes2 ! (?m + j)) {}"
      using that n1 by (simp add: n2 nth_append nth_fresh_nodes fresh_node_def masks_ok_def)
  qed
  have ok: "node_ok nodes2 tab2 t k" if "node_ok nodes tab t k" for t k
  proof -
    have "k < ?m" using that by (simp add: node_ok_def)
    then have "k < length nodes2" by (simp add: n2 n1)
    then show ?thesis
      using node_ok_mono [OF that, of nodes2 "concat (map bn_prefix (map snd ?cs))"] same [of k] at_i
        \<open>k < ?m\<close> by (cases "k = i") (simp_all add: tab2)
  qed
  show ?thesis
    using assms(2)
  proof (induction rule: rep.induct)
    case (pending t k)
    have "k < ?m" using pending by (simp add: node_ok_def)
    show ?case
    proof (cases "k = i")
      case True
      then have t: "t = bn" using pending(1) i by (auto simp: image_iff)
      have "masks_ok ?n {}" using pending True by (simp add: masks_ok_def)
      then have "masks_ok (nodes2 ! i) (fst ` set (bn_children bn))"
        using masks_ok_fold [of ?n "{}" "map fst ?cs"] by (simp add: at_i)
      moreover have "k \<notin> snd ` set Q2"
        using i True \<open>k < ?m\<close> by (auto simp: Q2 set_zip)
      ultimately show ?thesis
        using ok [OF pending(2)] True t child
        by - (rule rep.expanded [where ci = ?m], simp_all add: at_i)
    next
      case False
      then have "(t, k) \<in> set Q2" using pending by (auto simp: Q2)
      then show ?thesis
        using ok [OF pending(2)] pending(3) False \<open>k < ?m\<close> by (intro rep.pending) (simp_all add: same)
    qed
  next
    case (expanded k t ci)
    have k: "k < ?m" "k \<noteq> i" using expanded by (auto simp: node_ok_def)
    then have "k \<notin> snd ` set Q2"
      using expanded(1) by (auto simp: Q2 set_zip)
    then show ?case
      using expanded(3,4,6) ok [OF expanded(2)] k
      by - (rule rep.expanded [where ci = ci], simp_all add: same)
  qed
qed

lemma bake_inv_step:
  assumes "bake_inv nodes ((bn, i) # Q)" "length nodes1 = length nodes"
    and "bake_children i cs nodes1 tab Q = (nodes2, tab2, Q2)"
  shows "bake_inv nodes2 Q2"
proof -
  have "i < length nodes1" using assms by (simp add: bake_inv_def)
  then have Q2: "Q2 = Q @ zip (map snd cs) [length nodes..<length nodes + length cs]"
    and len: "length nodes2 = length nodes + length cs"
    using assms(2,3) bake_children_closed [of i nodes1 cs tab Q] by auto
  have "map snd Q2 = map snd Q @ [length nodes..<length nodes + length cs]"
    by (simp add: Q2)
  moreover have "\<forall>k \<in> set (map snd Q). k < length nodes"
    using assms(1) by (auto simp: bake_inv_def)
  ultimately have "distinct (map snd Q2) \<and> (\<forall>k \<in> set (map snd Q2). k < length nodes2)"
    using assms(1) by (auto simp: bake_inv_def len)
  then show ?thesis by (auto simp: bake_inv_def)
qed

lemma rep_bake_loop:
  "bake_inv nodes Q \<Longrightarrow> rep nodes tab Q t k \<Longrightarrow>
     (let (nodes', tab') = bake_loop nodes tab Q in rep nodes' tab' [] t k)"
proof (induction nodes tab Q rule: bake_loop.induct)
  case (1 nodes tab)
  then show ?case by simp
next
  case (2 nodes tab bn i Q)
  show ?case
  proof (cases "bn_children bn = []")
    case True
    have "bake_inv nodes Q" using 2 by (simp add: bake_inv_def)
    then show ?thesis using 2 True rep_step_leaf by simp
  next
    case False
    obtain nodes2 tab2 Q2 where b: "bake_children i (sorted_children bn)
       (nodes[i := (nodes ! i)\<lparr>childIdx := word_of_nat (length nodes),
              numChildren := word_of_nat (length (remdups (map fst (bn_children bn))))\<rparr>]) tab Q =
       (nodes2, tab2, Q2)" by (metis prod_cases3)
    have "rep nodes2 tab2 Q2 t k" using rep_step_inner [OF "2.prems"(2,1) b] .
    moreover have "bake_inv nodes2 Q2" using bake_inv_step [OF "2.prems"(1) _ b] by simp
    ultimately show ?thesis
      using "2.IH"(2) [OF False refl b [symmetric] refl] False b by simp
  qed
qed

lemma rep_BakeToArena:
  assumes "BakeToArena t = (nodes, tab)"
  shows "rep nodes tab [] t 0"
proof -
  have "rep [fresh_node 0 t] (bn_prefix t) [(t, 0)] t 0"
    by (rule rep.pending) (auto simp: node_ok_def masks_ok_def fresh_node_def intro!: exI [of _ 0])
  then show ?thesis
    using rep_bake_loop [of "[fresh_node 0 t]" "[(t, 0)]" "bn_prefix t" t 0] assms
    by (simp add: BakeToArena_def bake_inv_def)
qed

lemma OnesCount64_card: "OnesCount64 w = card {j. j < 64 \<and> bit w j}"
proof -
  have "OnesCount64 w = card (set (filter (bit w) [0..<64]))"
    unfolding OnesCount64_def by (rule distinct_card [symmetric]) simp
  also have "set (filter (bit w) [0..<64]) = {j. j < 64 \<and> bit w j}" by auto
  finally show ?thesis .
qed

lemma OnesCount64_below:
  "k < 64 \<Longrightarrow> OnesCount64 (w AND (push_bit k 1 - 1)) = card {j. j < k \<and> bit w j}"
proof -
  assume k: "k < 64"
  have "push_bit k 1 - 1 = (mask k :: u64)" by (simp add: mask_eq_exp_minus_1)
  then have "{j. j < 64 \<and> bit (w AND (push_bit k 1 - 1)) j} = {j. j < k \<and> bit w j}"
    using k by (auto simp: bit_simps)
  then show ?thesis by (simp add: OnesCount64_card)
qed

lemma card_byte_range:
  fixes K :: "u8 set"
  assumes "m + l \<le> 256"
  shows "card {j. j < l \<and> word_of_nat (m + j) \<in> K} = card {x \<in> K. m \<le> unat x \<and> unat x < m + l}"
proof (rule bij_betw_same_card [where f = "\<lambda>j. word_of_nat (m + j)"], rule bij_betw_byWitness [where f' = "\<lambda>x. unat x - m"])
  have u: "unat (word_of_nat (m + j) :: u8) = m + j" if "j < l" for j
    using that assms by (simp add: unsigned_of_nat take_bit_eq_mod del: of_nat_add)
  show "\<forall>j \<in> {j. j < l \<and> word_of_nat (m + j) \<in> K}. unat (word_of_nat (m + j) :: u8) - m = j"
    using u by auto
  show "(\<lambda>j. word_of_nat (m + j)) ` {j. j < l \<and> word_of_nat (m + j) \<in> K}
      \<subseteq> {x \<in> K. m \<le> unat x \<and> unat x < m + l}"
    using u by (auto simp del: of_nat_add)
  show "\<forall>x \<in> {x \<in> K. m \<le> unat x \<and> unat x < m + l}. word_of_nat (m + (unat x - m)) = x"
    by (auto simp del: of_nat_add)
  show "(\<lambda>x. unat x - m) ` {x \<in> K. m \<le> unat x \<and> unat x < m + l}
      \<subseteq> {j. j < l \<and> word_of_nat (m + j) \<in> K}"
    by (auto simp del: of_nat_add)
qed

lemma byte_split:
  fixes b :: u8
  shows "b < 64 \<Longrightarrow> drop_bit 6 b = 0" "64 \<le> b \<Longrightarrow> b < 128 \<Longrightarrow> drop_bit 6 b = 1"
    "unat (b AND 63) = unat b mod 64"
proof -
  have u: "unat (drop_bit 6 b) = unat b div 64"
    by (simp only: unat_drop_bit_eq) (simp add: drop_bit_eq_div)
  show "drop_bit 6 b = 0" if "b < 64"
    using that u by (simp only: word_eq_iff_unsigned [where ?'a = nat]) (simp add: word_less_nat_alt)
  show "drop_bit 6 b = 1" if "64 \<le> b" "b < 128"
    using that u by (simp only: word_eq_iff_unsigned [where ?'a = nat])
       (simp add: word_less_nat_alt word_le_nat_alt)
  have "b AND 63 = take_bit 6 b"
    by (simp add: take_bit_eq_mask mask_eq_exp_minus_1)
  then show "unat (b AND 63) = unat b mod 64"
    by (simp only: unsigned_take_bit_eq) (simp add: take_bit_eq_mod)
qed

lemma all_ones_u64: "(0xFFFFFFFFFFFFFFFF :: u64) = - 1"
  by simp

lemma select_mask:
  fixes lo hi :: u64
  shows "(lo AND NOT (0 * 0xFFFFFFFFFFFFFFFF)) OR (hi AND (0 * 0xFFFFFFFFFFFFFFFF)) = lo"
    "(lo AND NOT (1 * 0xFFFFFFFFFFFFFFFF)) OR (hi AND (1 * 0xFFFFFFFFFFFFFFFF)) = hi"
  by (simp_all only: all_ones_u64 mult_zero_left mult_1_left bit.compl_zero bit.compl_one
      and.right_neutral and_zero_eq bit.disj_zero_right or.left_neutral bit.conj_zero_right)

lemma findChildIdx_lo:
  "b < 64 \<Longrightarrow> findChildIdx n b nodes =
     (if maskLo n AND push_bit (unat b) 1 = 0 then Inr None
      else andThen (idx nodes (uint (childIdx n +
             word_of_nat (OnesCount64 (maskLo n AND (push_bit (unat b) 1 - 1)))))) (\<lambda>c. Inr (Some c)))"
  by (simp only: findChildIdx_def Let_def byte_split ucast_0 select_mask)
     (simp add: word_less_nat_alt del: push_bit_of_1)

lemma findChildIdx_hi:
  "64 \<le> b \<Longrightarrow> b < 128 \<Longrightarrow> findChildIdx n b nodes =
     (if maskHi n AND push_bit (unat b - 64) 1 = 0 then Inr None
      else andThen (idx nodes (uint (childIdx n + word_of_nat (OnesCount64 (maskLo n) +
             OnesCount64 (maskHi n AND (push_bit (unat b - 64) 1 - 1)))))) (\<lambda>c. Inr (Some c)))"
  by (simp only: findChildIdx_def Let_def byte_split ucast_1 select_mask)
     (simp add: word_less_nat_alt word_le_nat_alt le_mod_geq del: push_bit_of_1)

lemma findChildIdx_eq:
  assumes "masks_ok n K" "b < 128"
  shows "findChildIdx n b nodes =
    (if b \<notin> K then Inr None
     else andThen (idx nodes (uint (childIdx n + word_of_nat (card {x \<in> K. x < b})))) (\<lambda>c. Inr (Some c)))"
proof (cases "b < 64")
  case True
  then have b: "unat b < 64" by (simp add: word_less_nat_alt)
  have bit: "bit (maskLo n) j = (word_of_nat j \<in> K)" if "j < 64" for j
    using assms that by (simp add: masks_ok_def)
  have "card {j. j < unat b \<and> bit (maskLo n) j} = card {j. j < unat b \<and> word_of_nat (0 + j) \<in> K}"
    using b bit by (intro arg_cong [where f = card] Collect_cong) auto
  also have "\<dots> = card {x \<in> K. x < b}"
    using b by (subst card_byte_range) (simp_all add: word_less_nat_alt)
  finally have "OnesCount64 (maskLo n AND (push_bit (unat b) 1 - 1)) = card {x \<in> K. x < b}"
    using b by (simp only: OnesCount64_below)
  moreover have "maskLo n AND push_bit (unat b) 1 = 0 \<longleftrightarrow> b \<notin> K"
    using bit [of "unat b"] b by (auto simp: bit_iff_and_push_bit_not_eq_0)
  ultimately show ?thesis
    using True by (simp add: findChildIdx_lo del: push_bit_of_1)
next
  case False
  then have b: "64 \<le> unat b" "unat b < 128" "unat b mod 64 = unat b - 64" and b64: "64 \<le> b"
    using assms(2) by (simp_all add: word_less_nat_alt word_le_nat_alt le_mod_geq)
  let ?k = "unat b - 64"
  have k: "?k < 64" "64 + ?k = unat b" using b by simp_all
  have bits: "bit (maskLo n) j = (word_of_nat j \<in> K)" "bit (maskHi n) j = (word_of_nat (64 + j) \<in> K)"
    if "j < 64" for j
    using assms that by (simp_all add: masks_ok_def)
  have "card {j. j < ?k \<and> bit (maskHi n) j} = card {j. j < ?k \<and> word_of_nat (64 + j) \<in> K}"
    using k bits(2) by (intro arg_cong [where f = card] Collect_cong) auto
  also have "\<dots> = card {x \<in> K. 64 \<le> unat x \<and> x < b}"
    using b by (subst card_byte_range) (simp_all add: word_less_nat_alt)
  finally have hi: "OnesCount64 (maskHi n AND (push_bit ?k 1 - 1)) = card {x \<in> K. 64 \<le> unat x \<and> x < b}"
    using k by (simp only: OnesCount64_below)
  have "OnesCount64 (maskLo n) = card {j. j < 64 \<and> word_of_nat (0 + j) \<in> K}"
    using bits(1) unfolding OnesCount64_card by (intro arg_cong [where f = card] Collect_cong) auto
  also have "\<dots> = card {x \<in> K. unat x < 64}"
    by (subst card_byte_range) simp_all
  finally have lo: "OnesCount64 (maskLo n) = card {x \<in> K. unat x < 64}" .
  let ?A = "{x \<in> K. unat x < 64}" and ?B = "{x \<in> K. 64 \<le> unat x \<and> x < b}"
  have "{x \<in> K. x < b} = ?A \<union> ?B"
    using b(1) by (auto simp: word_less_nat_alt)
  moreover have "card (?A \<union> ?B) = card ?A + card ?B"
    by (rule card_Un_disjoint) auto
  ultimately have sum: "card {x \<in> K. x < b} =
      OnesCount64 (maskLo n) + OnesCount64 (maskHi n AND (push_bit ?k 1 - 1))"
    by (simp only: hi lo)
  have "maskHi n AND push_bit ?k 1 = 0 \<longleftrightarrow> b \<notin> K"
    using bits(2) [of ?k] k by (auto simp: bit_iff_and_push_bit_not_eq_0 simp del: of_nat_add)
  then show ?thesis
    using b64 assms(2) sum by (simp add: findChildIdx_hi del: push_bit_of_1 of_nat_add)
qed

lemma sorted_children_nth:
  assumes "j < length (sorted_children t)"
  shows "card {x \<in> fst ` set (bn_children t). x < fst (sorted_children t ! j)} = j"
    and "map_of (bn_children t) (fst (sorted_children t ! j)) = Some (snd (sorted_children t ! j))"
proof -
  let ?ks = "sort (remdups (map fst (bn_children t)))"
  have j: "j < length ?ks" and nth: "sorted_children t ! j = (?ks ! j, the (map_of (bn_children t) (?ks ! j)))"
    using assms by (simp_all add: sorted_children_def)
  show "card {x \<in> fst ` set (bn_children t). x < fst (sorted_children t ! j)} = j"
    using strict_sorted_index [OF _ _ j] nth by simp
  have "?ks ! j \<in> fst ` set (bn_children t)" using nth_mem [OF j] by simp
  then show "map_of (bn_children t) (fst (sorted_children t ! j)) = Some (snd (sorted_children t ! j))"
    by (simp add: nth) (metis map_of_eq_None_iff option.exhaust_sel)
qed

lemma sorted_children_map_of:
  assumes "map_of (bn_children t) b = Some n"
  obtains j where "j < length (sorted_children t)" "sorted_children t ! j = (b, n)"
proof -
  have "b \<in> fst ` set (bn_children t)" using assms by (metis map_of_eq_None_iff option.distinct(1))
  then have "(b, n) \<in> set (sorted_children t)"
    using assms by (auto simp: sorted_children_def image_iff intro!: bexI [of _ b])
  then show ?thesis using that by (auto simp: in_set_conv_nth)
qed

fun small_prefixes :: "BuilderNode \<Rightarrow> bool" where
  "small_prefixes (BuilderNode p a cs) \<longleftrightarrow> length p < 2 ^ 16 \<and> (\<forall>(b, n) \<in> set cs. small_prefixes n)"

lemma node_ok_slice:
  assumes "node_ok nodes tab t i" "length tab < 2 ^ 32" "length (bn_prefix t) < 2 ^ 16"
  shows "slice tab (uint (prefixOff (nodes ! i))) (uint (prefixOff (nodes ! i) + ucast (prefixLen (nodes ! i))))
    = Inr (bn_prefix t)"
proof -
  let ?l = "length (bn_prefix t)"
  obtain off where off: "prefixOff (nodes ! i) = word_of_nat off" "off + ?l \<le> length tab"
    "take ?l (drop off tab) = bn_prefix t"
    using assms(1) by (auto simp: node_ok_def)
  have "uint (prefixOff (nodes ! i)) = int off"
    using off assms(2) by (simp add: unsigned_of_nat take_bit_eq_mod)
  moreover have "ucast (prefixLen (nodes ! i)) = (word_of_nat ?l :: u32)"
    using assms(1,3) by (simp add: node_ok_def unsigned_ucast_eq word_eq_iff_unsigned [where ?'a = nat] unsigned_of_nat take_bit_eq_mod)
  then have "prefixOff (nodes ! i) + ucast (prefixLen (nodes ! i)) = (word_of_nat (off + ?l) :: u32)"
    using off by simp
  then have "uint (prefixOff (nodes ! i) + ucast (prefixLen (nodes ! i))) = int (off + ?l)"
    using off assms(2) by (simp add: unsigned_of_nat take_bit_eq_mod del: of_nat_add)
  ultimately show ?thesis
    using off slice_in [of off "off + ?l" tab] by simp
qed

lemma lookup_loop_node:
  assumes "node_ok nodes tab (BuilderNode p a cs) i" "length tab < 2 ^ 32" "length p < 2 ^ 16"
  shows "lookup_loop nodes tab (nodes ! i) q d =
    (if \<not> prefix p q then Some (Inr d)
     else case drop (length p) q of
            [] \<Rightarrow> Some (Inr a)
          | c # r \<Rightarrow>
              let d' = (if a \<noteq> 0 \<and> c = 0x2F then a else d) in
              (case findChildIdx (nodes ! i) c nodes of
                 Inl x \<Rightarrow> Some (Inl x)
               | Inr None \<Rightarrow> Some (Inr d')
               | Inr (Some nxt) \<Rightarrow> lookup_loop nodes tab nxt (c # r) d'))"
proof -
  have slice: "slice tab (uint (prefixOff (nodes ! i)))
      (uint (prefixOff (nodes ! i) + ucast (prefixLen (nodes ! i)))) = Inr p"
    using node_ok_slice [OF assms(1,2)] assms(3) by simp
  have a: "rn_apiId (nodes ! i) = a" using assms(1) by (simp add: node_ok_def)
  show ?thesis
  proof (cases "prefix p q")
    case False
    then have "length q < length p \<or> take (length p) q \<noteq> p" by (metis take_is_prefix)
    then show ?thesis using False slice by (subst lookup_loop.simps) simp
  next
    case True
    then obtain s where "q = p @ s" by (auto elim: prefixE)
    then show ?thesis
      using slice a
      by (subst lookup_loop.simps) (cases s; auto simp: Let_def split: sum.split option.split)
  qed
qed

lemma findChildIdx_expanded:
  assumes "masks_ok (nodes ! i) (fst ` set cs)" "childIdx (nodes ! i) = word_of_nat ci" "c < 128"
    and "j < length (sorted_children (BuilderNode p a cs))" "sorted_children (BuilderNode p a cs) ! j = (c, n)"
    and "ci + j < length nodes" "length nodes < 2 ^ 32"
  shows "findChildIdx (nodes ! i) c nodes = Inr (Some (nodes ! (ci + j)))"
proof -
  have rank: "card {x \<in> fst ` set cs. x < c} = j" and "map_of cs c = Some n"
    using sorted_children_nth [OF assms(4)] assms(5) by simp_all
  then have c: "c \<in> fst ` set cs" by (metis map_of_eq_None_iff option.distinct(1))
  have "childIdx (nodes ! i) + word_of_nat j = word_of_nat (ci + j)"
    using assms(2) by simp
  then have "uint (childIdx (nodes ! i) + word_of_nat j) = int (ci + j)"
    using assms(6,7) by (simp add: unsigned_of_nat take_bit_eq_mod del: of_nat_add)
  then show ?thesis
    unfolding findChildIdx_eq [OF assms(1,3)] rank using c assms(6)
    by (simp del: of_nat_add)
qed

lemma lookup_loop_rep:
  assumes "rep nodes tab [] t i" "length nodes < 2 ^ 32" "length tab < 2 ^ 32"
    and "small_prefixes t" "\<forall>b \<in> set q. b < 128"
  shows "lookup_loop nodes tab (nodes ! i) q d = Some (Inr (tlookup t q d))"
  using assms
proof (induction arbitrary: q d rule: rep.induct)
  case (pending t i)
  then show ?case by simp
next
  case (expanded i t ci)
  obtain p a cs where t: "t = BuilderNode p a cs" by (cases t)
  have node: "node_ok nodes tab (BuilderNode p a cs) i" "length p < 2 ^ 16"
    using expanded(2) expanded.prems t by simp_all
  note step = lookup_loop_node [OF node(1) expanded.prems(2) node(2), of q d]
  show ?case
  proof (cases "\<exists>c r. q = p @ c # r")
    case False
    then have "\<not> prefix p q \<or> q = p" by (metis append_Nil2 list.exhaust prefixE)
    then show ?thesis using step t by (auto simp: tlookup.simps)
  next
    case True
    then obtain c r where q: "q = p @ c # r" by blast
    let ?d = "if a \<noteq> 0 \<and> c = 0x2F then a else d"
    have c: "c < 128" using expanded.prems(4) q by simp
    show ?thesis
    proof (cases "map_of cs c")
      case None
      then have "c \<notin> fst ` set cs" by (simp add: map_of_eq_None_iff)
      then show ?thesis
        using step q t None findChildIdx_eq [OF expanded(3) c] by (simp add: tlookup.simps Let_def)
    next
      case (Some n)
      then obtain j where j: "j < length (sorted_children t)" "sorted_children t ! j = (c, n)"
        using sorted_children_map_of [of t c n] t by auto
      have "ci + j < length nodes"
        using rep_node_ok [OF expanded(5) [OF j(1)]] by (simp add: node_ok_def)
      then have find: "findChildIdx (nodes ! i) c nodes = Inr (Some (nodes ! (ci + j)))"
        using findChildIdx_expanded [of nodes i cs ci c j p a n] expanded(3,4) expanded.prems(1) c j t Some
        by auto
      have "lookup_loop nodes tab (nodes ! (ci + j)) (c # r) ?d = Some (Inr (tlookup n (c # r) ?d))"
        using expanded(6) [OF j(1), of "c # r" ?d] expanded.prems j(2) q Some t
        by (auto dest!: map_of_SomeD)
      then show ?thesis using step q t Some find by (simp add: tlookup.simps Let_def)
    qed
  qed
qed

subsection \<open>Sizes\<close>

fun pbytes :: "BuilderNode \<Rightarrow> nat" where
  "pbytes (BuilderNode p a cs) = length p + sum_list (map (\<lambda>(b, n). pbytes n) cs)"

lemma sorted_children_sum_le:
  fixes f :: "BuilderNode \<Rightarrow> nat"
  shows "sum_list (map (\<lambda>c. f (snd c)) (sorted_children t)) \<le> sum_list (map (\<lambda>(b, n). f n) (bn_children t))"
proof -
  let ?ks = "sort (remdups (map fst (bn_children t)))"
  have "sum_list (map (\<lambda>c. f (snd c)) (sorted_children t)) = sum_list (map (\<lambda>b. f (the (map_of (bn_children t) b))) ?ks)"
    by (simp add: sorted_children_def comp_def)
  also have "\<dots> = (\<Sum>b\<in>fst ` set (bn_children t). f (the (map_of (bn_children t) b)))"
    by (subst sum.distinct_set_conv_list [symmetric]) simp_all
  finally show ?thesis using nnodes_children_le [of f "bn_children t"] by simp
qed

lemma bake_children_lengths:
  assumes "i < length nodes" "bake_children i (sorted_children bn) nodes tab Q = (nodes2, tab2, Q2)"
  shows "length nodes2 + sum_list (map (\<lambda>(t, i). nnodes t) Q2) + length Q + 1 \<le>
      length nodes + sum_list (map (\<lambda>(t, i). nnodes t) Q) + nnodes bn + length Q2"
    and "length tab2 + sum_list (map (\<lambda>(t, i). pbytes t) Q2) +
        sum_list (map (\<lambda>(t, i). length (bn_prefix t)) Q) + length (bn_prefix bn) \<le>
      length tab + sum_list (map (\<lambda>(t, i). pbytes t) Q) + pbytes bn +
        sum_list (map (\<lambda>(t, i). length (bn_prefix t)) Q2)"
proof -
  let ?cs = "map snd (sorted_children bn)" and ?m = "length nodes"
  have n: "length nodes2 = ?m + length ?cs"
    and t: "tab2 = tab @ concat (map bn_prefix ?cs)"
    and Q: "Q2 = Q @ zip ?cs [?m..<?m + length ?cs]"
    using bake_children_closed [OF assms(1), of "sorted_children bn" tab Q] assms(2) by auto
  have sum: "sum_list (map (\<lambda>(t, i). f t) Q2) = sum_list (map (\<lambda>(t, i). f t) Q) + sum_list (map f ?cs)"
    for f :: "BuilderNode \<Rightarrow> nat"
    by (simp add: Q map_fst_zip_upt del: map_map)
  have "sum_list (map nnodes ?cs) + 1 \<le> nnodes bn"
    using sorted_children_sum_le [of nnodes bn] by (cases bn) (simp add: comp_def)
  then show "length nodes2 + sum_list (map (\<lambda>(t, i). nnodes t) Q2) + length Q + 1 \<le>
      length nodes + sum_list (map (\<lambda>(t, i). nnodes t) Q) + nnodes bn + length Q2"
    unfolding sum n by (simp add: Q)
  have "sum_list (map pbytes ?cs) + length (bn_prefix bn) \<le> pbytes bn"
    using sorted_children_sum_le [of pbytes bn] by (cases bn) (simp add: comp_def)
  moreover have "length tab2 = length tab + sum_list (map (\<lambda>t. length (bn_prefix t)) ?cs)"
    by (simp add: t length_concat comp_def)
  ultimately show "length tab2 + sum_list (map (\<lambda>(t, i). pbytes t) Q2) +
        sum_list (map (\<lambda>(t, i). length (bn_prefix t)) Q) + length (bn_prefix bn) \<le>
      length tab + sum_list (map (\<lambda>(t, i). pbytes t) Q) + pbytes bn +
        sum_list (map (\<lambda>(t, i). length (bn_prefix t)) Q2)"
    unfolding sum by simp
qed

lemma pbytes_ge: "length (bn_prefix t) \<le> pbytes t" and nnodes_ge: "1 \<le> nnodes t"
  by (cases t; simp)+

lemma length_bake_loop:
  assumes "bake_inv nodes Q"
  shows "length (fst (bake_loop nodes tab Q)) + length Q
      \<le> length nodes + sum_list (map (\<lambda>(t, i). nnodes t) Q) \<and>
    length (snd (bake_loop nodes tab Q)) + sum_list (map (\<lambda>(t, i). length (bn_prefix t)) Q)
      \<le> length tab + sum_list (map (\<lambda>(t, i). pbytes t) Q)"
  using assms
proof (induction nodes tab Q rule: bake_loop.induct)
  case (1 nodes tab)
  then show ?case by simp
next
  case (2 nodes tab bn i Q)
  let ?nodes1 = "nodes[i := (nodes ! i)\<lparr>childIdx := word_of_nat (length nodes),
              numChildren := word_of_nat (length (remdups (map fst (bn_children bn))))\<rparr>]"
  show ?case
  proof (cases "bn_children bn = []")
    case True
    have "bake_inv nodes Q" using "2.prems" by (simp add: bake_inv_def)
    then show ?thesis
      using "2.IH"(1) [OF True] True pbytes_ge [of bn] nnodes_ge [of bn] by simp
  next
    case False
    obtain nodes2 tab2 Q2 where b:
      "bake_children i (sorted_children bn) ?nodes1 tab Q = (nodes2, tab2, Q2)" by (metis prod_cases3)
    have i: "i < length ?nodes1" using "2.prems" by (simp add: bake_inv_def)
    have "bake_inv nodes2 Q2" using bake_inv_step [OF "2.prems" _ b] by simp
    then show ?thesis
      using "2.IH"(2) [OF False refl b [symmetric] refl] False b bake_children_lengths [OF i b] by simp
  qed
qed

lemma length_BakeToArena:
  assumes "BakeToArena t = (nodes, tab)"
  shows "length nodes \<le> nnodes t" "length tab \<le> pbytes t"
  using length_bake_loop [of "[fresh_node 0 t]" "[(t, 0)]" "bn_prefix t"] assms
  by (simp_all add: BakeToArena_def bake_inv_def)

lemma sum_list_update:
  fixes f :: "BuilderNode \<Rightarrow> nat"
  shows "map_of cs c = None \<Longrightarrow>
      sum_list (map (\<lambda>(b, n). f n) (AList.update c m cs)) = sum_list (map (\<lambda>(b, n). f n) cs) + f m"
    and "map_of cs c = Some n \<Longrightarrow>
      sum_list (map (\<lambda>(b, n). f n) (AList.update c m cs)) + f n = sum_list (map (\<lambda>(b, n). f n) cs) + f m"
  by (induction cs) (auto split: if_splits)

lemma Add_size:
  "nnodes (Add t path api) \<le> nnodes t + 2"
  "pbytes (Add t path api) \<le> pbytes t + length path"
proof (induction t path api rule: Add_induct)
  case (down p a cs c r n api)
  { case 1 then show ?case using down sum_list_update(2) [OF down(2), of nnodes "Add n (c # r) api"] by (simp add: Add_down)
  next case 2 then show ?case using down sum_list_update(2) [OF down(2), of pbytes "Add n (c # r) api"] by (simp add: Add_down) }
qed (auto simp: Add_rules sum_list_update)

lemma small_prefixes_Add:
  "small_prefixes t \<Longrightarrow> length path < 2 ^ 16 \<Longrightarrow> small_prefixes (Add t path api)"
proof (induction t path api rule: Add_induct)
  case (down p a cs c r n api)
  have "set (AList.update c m cs) \<subseteq> insert (c, m) (set cs)" for m
    by (induction cs) auto
  then show ?case using down by (fastforce simp: Add_down dest: map_of_SomeD)
next
  case (leaf p a cs c r api)
  have "set (AList.update c m cs) \<subseteq> insert (c, m) (set cs)" for m
    by (induction cs) auto
  then show ?case using leaf by (fastforce simp: Add_down)
qed (auto simp: Add_rules)

end
