(* ===== verification/Rah_Router_Correct.thy ===== *)
theory Rah_Router_Correct
  imports Rah_Router_Arena
begin

section \<open>Correctness of the base-path router\<close>

text \<open>
  The router as its users see it: whatever sequence of \<open>Add\<close> and \<open>AddMany\<close> calls built it, the lookup of
  an ASCII path is determined by the registered routes alone, provided they are valid (\<open>valid_routes\<close>: fewer than 2^15 of
  them, none with an empty path, with identifier 0, or with a path of 2^16 bytes or more). The locale states that contract and derives
  its consequences for a client; the interpretation discharges it for the model of the code.
\<close>

inductive router_reach :: "RahRouter \<Rightarrow> (bytes \<times> u32) list \<Rightarrow> bool" where
  router_new: "router_reach New []"
| router_add: "router_reach r rs \<Longrightarrow> router_reach (router_Add r p i) (rs @ [(p, i)])"
| router_add_many: "router_reach r rs \<Longrightarrow> router_reach (AddMany r ms) (rs @ ms)"

definition valid_routes :: "(bytes \<times> u32) list \<Rightarrow> bool" where
  "valid_routes rs \<longleftrightarrow>
     length rs < 2 ^ 15 \<and> (\<forall>(p, i) \<in> set rs. p \<noteq> [] \<and> i \<noteq> 0 \<and> length p < 2 ^ 16)"

definition routes_map :: "(bytes \<times> u32) list \<Rightarrow> bytes \<Rightarrow> u32" where
  \<comment> \<open>the identifier registered last for a path, 0 where there is none\<close>
  "routes_map rs p = (case map_of (rev rs) p of None \<Rightarrow> 0 | Some i \<Rightarrow> i)"

definition ascii :: "bytes \<Rightarrow> bool" where
  "ascii q \<longleftrightarrow> (\<forall>b \<in> set q. b < 128)"

definition built :: "(bytes \<times> u32) list \<Rightarrow> BuilderNode" where
  "built rs = foldl (\<lambda>b (path, name). Add b path name) NewBuilder rs"

lemma built_append: "built (rs @ ms) = foldl (\<lambda>b (path, name). Add b path name) (built rs) ms"
  by (simp add: built_def)

lemma router_reach_state:
  "router_reach r rs \<Longrightarrow> r = New \<and> rs = [] \<or> r = publish (built rs)"
proof (induction rule: router_reach.induct)
  case (router_add r rs p i)
  then have "builder r = built rs"
    by (auto simp: New_def built_def publish_def split_beta)
  then show ?case by (simp add: router_Add_def built_append)
next
  case (router_add_many r rs ms)
  then have "builder r = built rs"
    by (auto simp: New_def built_def publish_def split_beta)
  then show ?case by (simp add: AddMany_def built_append)
qed simp

lemma built_inv:
  assumes "\<forall>(p, i) \<in> set rs. p \<noteq> [] \<and> i \<noteq> 0 \<and> length p < 2 ^ 16"
  shows "wf_root (built rs) \<and> exact (built rs) = routes_map rs \<and> small_prefixes (built rs) \<and>
    nnodes (built rs) \<le> 2 * length rs + 1 \<and> pbytes (built rs) \<le> 2 ^ 16 * length rs"
  using assms
proof (induction rs rule: rev_induct)
  case Nil
  then show ?case by (auto simp: built_def NewBuilder_def wf_root_def routes_map_def exact_leaf)
next
  case (snoc x rs)
  obtain p i where x: "x = (p, i)" by (cases x)
  have "p \<noteq> []" "i \<noteq> 0" "length p < 2 ^ 16" using snoc.prems x by auto
  moreover have "built (rs @ [x]) = Add (built rs) p i" by (simp add: built_append x)
  ultimately show ?case
    using snoc wf_root_Add [of "built rs" p i] Add_size [of "built rs" p i]
      small_prefixes_Add [of "built rs" p i]
    by (auto simp: routes_map_def x fun_eq_iff)
qed

lemma Lookup_publish:
  assumes "valid_routes rs" "ascii q"
  shows "Lookup (publish (built rs)) q = Some (Inr (route_spec (routes_map rs) q))"
proof -
  obtain nodes tab where bake: "BakeToArena (built rs) = (nodes, tab)" by (cases "BakeToArena (built rs)")
  have inv: "wf_root (built rs)" "exact (built rs) = routes_map rs" "small_prefixes (built rs)"
    and size: "nnodes (built rs) \<le> 2 * length rs + 1" "pbytes (built rs) \<le> 2 ^ 16 * length rs"
    using built_inv [of rs] assms(1) by (auto simp: valid_routes_def)
  have len: "length nodes < 2 ^ 32" "length tab < 2 ^ 32"
    using length_BakeToArena [OF bake] size assms(1) by (simp_all add: valid_routes_def)
  have rep: "rep nodes tab [] (built rs) 0" using rep_BakeToArena [OF bake] .
  then have "nodes \<noteq> []" using rep_node_ok by (fastforce simp: node_ok_def)
  then show ?thesis
    using lookup_loop_rep [OF rep len inv(3), of q 0] assms(2) bake tlookup_root [OF inv(1)] inv(2)
    by (simp add: Lookup_def publish_def ascii_def)
qed

lemma route_spec_empty: "route_spec (\<lambda>_. 0) q = 0"
  by (simp add: route_spec_def branch_point_def boundary_match_zero)

lemma Lookup_reach:
  assumes "router_reach r rs" "valid_routes rs" "ascii q"
  shows "Lookup r q = Some (Inr (route_spec (routes_map rs) q))"
proof -
  have "Lookup New q = Some (Inr (route_spec (routes_map []) q))"
    using route_spec_empty [of q] by (simp add: Lookup_def New_def routes_map_def [abs_def])
  then show ?thesis
    using router_reach_state [OF assms(1)] Lookup_publish [OF assms(2,3)] by auto
qed

lemma boundary_match_cases:
  "boundary_match R q d = d \<or>
     (\<exists>p s. q = p @ 0x2F # s \<and> R p \<noteq> 0 \<and> boundary_match R q d = R p)"
proof (induction q arbitrary: R d)
  case Nil
  then show ?case by (simp add: boundary_match_def)
next
  case (Cons c q)
  show ?case
    using Cons [of "\<lambda>s. R (c # s)" "if R [] \<noteq> 0 \<and> c = 0x2F then R [] else d"]
    by (auto simp: boundary_match_Cons split: if_splits) (metis append_Cons append_Nil)+
qed

subsection \<open>The contract\<close>

locale route_table =
  fixes inv :: "'r \<Rightarrow> bool"
    and add :: "'r \<Rightarrow> bytes \<Rightarrow> u32 \<Rightarrow> 'r"
    and lookup :: "'r \<Rightarrow> bytes \<Rightarrow> u32 go option"
    and routes :: "'r \<Rightarrow> bytes \<Rightarrow> u32"
  assumes routes_add: "inv r \<Longrightarrow> p \<noteq> [] \<Longrightarrow> i \<noteq> 0 \<Longrightarrow> routes (add r p i) = (routes r)(p := i)"
    and lookup_spec: "inv r \<Longrightarrow> ascii q \<Longrightarrow> lookup r q = Some (Inr (route_spec (routes r) q))"
begin

lemma lookup_registered:
  "inv r \<Longrightarrow> ascii q \<Longrightarrow> routes r q \<noteq> 0 \<Longrightarrow> lookup r q = Some (Inr (routes r q))"
  by (simp add: lookup_spec route_spec_def)

lemma add_then_lookup:
  "inv r \<Longrightarrow> inv (add r p i) \<Longrightarrow> p \<noteq> [] \<Longrightarrow> i \<noteq> 0 \<Longrightarrow> ascii p \<Longrightarrow> lookup (add r p i) p = Some (Inr i)"
  using lookup_registered [of "add r p i" p] by (simp add: routes_add)

lemma add_keeps_registered:
  "inv r \<Longrightarrow> inv (add r p i) \<Longrightarrow> p \<noteq> [] \<Longrightarrow> i \<noteq> 0 \<Longrightarrow> ascii q \<Longrightarrow> q \<noteq> p \<Longrightarrow> routes r q \<noteq> 0 \<Longrightarrow>
     lookup (add r p i) q = lookup r q"
  using lookup_registered [of "add r p i" q] by (simp add: routes_add lookup_registered)

lemma lookup_sound:
  assumes "inv r" "ascii q" "lookup r q = Some (Inr i)" "i \<noteq> 0"
  shows "\<exists>p s. q = p @ s \<and> (s = [] \<or> hd s = 0x2F) \<and> routes r p = i"
proof -
  have "i = route_spec (routes r) q" using assms lookup_spec by simp
  then show ?thesis
    using assms(4) boundary_match_cases [of "routes r" q 0]
    by (auto simp: route_spec_def split: if_splits) (metis append_Nil2 list.sel(1))+
qed

end

definition router_inv :: "RahRouter \<Rightarrow> bool" where
  "router_inv r \<longleftrightarrow> (\<exists>rs. router_reach r rs \<and> valid_routes rs)"

definition router_routes :: "RahRouter \<Rightarrow> bytes \<Rightarrow> u32" where
  "router_routes r = exact (builder r)"

lemma router_routes_reach:
  assumes "router_reach r rs" "valid_routes rs"
  shows "router_routes r = routes_map rs" and "wf_root (builder r)"
proof -
  have "builder r = built rs"
    using router_reach_state [OF assms(1)] by (auto simp: New_def built_def publish_def split_beta)
  then show "router_routes r = routes_map rs" and "wf_root (builder r)"
    using built_inv [of rs] assms(2) by (simp_all add: router_routes_def valid_routes_def)
qed

interpretation rt: route_table router_inv router_Add Lookup router_routes
proof
  fix r and p :: bytes and i :: u32
  assume "router_inv r" "p \<noteq> []" "i \<noteq> 0"
  then show "router_routes (router_Add r p i) = (router_routes r)(p := i)"
    using router_routes_reach(2) wf_root_Add(2) [of "builder r" p i]
    by (auto simp: router_inv_def router_routes_def router_Add_def publish_def split_beta fun_eq_iff)
next
  fix r q
  assume "router_inv r" "ascii q"
  then show "Lookup r q = Some (Inr (route_spec (router_routes r) q))"
    by (auto simp: router_inv_def Lookup_reach router_routes_reach)
qed


subsection \<open>Properties\<close>

definition api_routes :: "(bytes \<times> u32) list" where
  \<comment> \<open>three routes sharing a prefix, for the concrete instances\<close>
  "api_routes = [(bytes_of ''/api'', 1), (bytes_of ''/api/v1'', 2), (bytes_of ''/api/v2'', 3)]"

text \<open>C1. Let a sequence of \<open>Add\<close> and \<open>AddMany\<close> calls from \<open>New\<close> register fewer than 2^15 routes, each with a
  non-empty path of fewer than 2^16 bytes and an identifier other than 0. Then looking up an
  ASCII path ends without a panic and returns what the registered routes prescribe: the identifier
  registered last for exactly that path; 0 if the path is not registered and is a point where two registered routes
  part; otherwise the identifier of the longest registered path that ends before a slash of it, or 0 where there is none.\<close>

theorem router_lookup_spec:
  assumes "router_reach r rs" "valid_routes rs" "ascii q"
  shows "Lookup r q = Some (Inr (route_spec (routes_map rs) q))"
  by (rule Lookup_reach [OF assms])

theorem router_lookup_spec_witness:
  "Lookup (router_Add (AddMany New api_routes) (bytes_of ''/x'') 9) (bytes_of ''/api/v3'') =
     Some (Inr (route_spec (routes_map (api_routes @ [(bytes_of ''/x'', 9)])) (bytes_of ''/api/v3'')))"
proof -
  have "router_reach (router_Add (AddMany New api_routes) (bytes_of ''/x'') 9)
      (([] @ api_routes) @ [(bytes_of ''/x'', 9)])"
    by (intro router_reach.intros)
  moreover have "valid_routes (api_routes @ [(bytes_of ''/x'', 9)])"
    by (simp add: valid_routes_def api_routes_def bytes_of_def)
  moreover have "ascii (bytes_of ''/api/v3'')" by code_simp
  ultimately show ?thesis
    using router_lookup_spec
      [of _ "api_routes @ [(bytes_of ''/x'', 9)]" "bytes_of ''/api/v3''"]
    by (simp only: append_Nil)
qed


text \<open>C14. In a router that \<open>Add\<close> and \<open>AddMany\<close> calls from \<open>New\<close> built out of valid routes (fewer than 2^15, each with
  a non-empty path of fewer than 2^16 bytes and an identifier other than 0), every identifier other than 0 that the lookup of
  an ASCII path answers is that of a registered route which is the looked-up path
  itself or a prefix of it that ends at a segment boundary: a route never matches in the middle of
  a path segment.\<close>

theorem router_lookup_sound:
  assumes "router_inv r" "ascii q" "Lookup r q = Some (Inr i)" "i \<noteq> 0"
  shows "\<exists>p s. q = p @ s \<and> (s = [] \<or> hd s = 0x2F) \<and> router_routes r p = i"
  by (rule rt.lookup_sound [OF assms])

lemma api_router_inv: "router_inv (AddMany New api_routes)"
    "router_inv (router_Add (AddMany New api_routes) (bytes_of ''/x'') 9)"
proof -
  have "router_reach (AddMany New api_routes) ([] @ api_routes)"
    "router_reach (router_Add (AddMany New api_routes) (bytes_of ''/x'') 9)
      (([] @ api_routes) @ [(bytes_of ''/x'', 9)])"
    by (intro router_reach.intros)+
  moreover have "valid_routes ([] @ api_routes)" "valid_routes (([] @ api_routes) @ [(bytes_of ''/x'', 9)])"
    by (simp_all add: valid_routes_def api_routes_def bytes_of_def)
  ultimately show "router_inv (AddMany New api_routes)"
    "router_inv (router_Add (AddMany New api_routes) (bytes_of ''/x'') 9)"
    unfolding router_inv_def by blast+
qed

theorem router_lookup_sound_witness:
  "\<exists>p s. bytes_of ''/api/users'' = p @ s \<and> (s = [] \<or> hd s = 0x2F) \<and>
     router_routes (AddMany New api_routes) p = 1"
proof (rule router_lookup_sound [OF api_router_inv(1)])
  show "ascii (bytes_of ''/api/users'')" by code_simp
  show "Lookup (AddMany New api_routes) (bytes_of ''/api/users'') = Some (Inr 1)" by code_simp
  show "(1 :: u32) \<noteq> 0" by simp
qed

text \<open>C15. In a router built by \<open>Add\<close> and \<open>AddMany\<close> calls from \<open>New\<close>, both before and after one more \<open>Add\<close> out of valid
  routes (fewer than 2^15, each with a non-empty path of fewer than 2^16 bytes and an identifier other than 0), an ASCII path
  that has just been registered is found, and the answer for every other registered ASCII path is as it was.\<close>

theorem router_add_lookup:
  assumes "router_inv r" "router_inv (router_Add r p i)" "p \<noteq> []" "i \<noteq> 0" "ascii p" "ascii q"
    and "q \<noteq> p" "router_routes r q \<noteq> 0"
  shows "Lookup (router_Add r p i) p = Some (Inr i) \<and> Lookup (router_Add r p i) q = Lookup r q"
  using assms by (simp add: rt.add_then_lookup rt.add_keeps_registered)

theorem router_add_lookup_witness:
  "Lookup (router_Add (AddMany New api_routes) (bytes_of ''/x'') 9) (bytes_of ''/x'') = Some (Inr 9) \<and>
   Lookup (router_Add (AddMany New api_routes) (bytes_of ''/x'') 9) (bytes_of ''/api/v1'') =
     Lookup (AddMany New api_routes) (bytes_of ''/api/v1'')"
proof (rule router_add_lookup [OF api_router_inv])
  show "bytes_of ''/x'' \<noteq> []" "(9 :: u32) \<noteq> 0" "ascii (bytes_of ''/x'')" "ascii (bytes_of ''/api/v1'')"
    "bytes_of ''/api/v1'' \<noteq> bytes_of ''/x''"
    by code_simp+
  show "router_routes (AddMany New api_routes) (bytes_of ''/api/v1'') \<noteq> 0"
    by code_simp
qed

text \<open>C16. When \<open>AddMany\<close> registers a map of valid routes (fewer than 2^15, each with a non-empty path of fewer than 2^16
  bytes and an identifier other than 0) in a new router, the answers for ASCII paths do not depend on the order in which the Go
  run time iterates over the map, nor on whether its routes are added one by one.\<close>

theorem AddMany_order_irrelevant:
  assumes "valid_routes rs" "valid_routes ms" "set ms = set rs" "distinct (map fst rs)"
    and "distinct (map fst ms)" "ascii q"
  shows "Lookup (AddMany New ms) q = Lookup (AddMany New rs) q \<and>
    Lookup (foldl (\<lambda>r (p, i). router_Add r p i) New ms) q = Lookup (AddMany New rs) q"
proof -
  have same: "routes_map ms = routes_map rs"
    using assms map_of_eqI [of "rev ms" "rev rs"] map_of_inject_set [of "rev ms" "rev rs"]
    by (simp add: routes_map_def fun_eq_iff rev_map [symmetric])
  have "router_reach (AddMany New xs) ([] @ xs)" for xs
    by (intro router_reach.intros)
  moreover have "router_reach (foldl (\<lambda>r (p, i). router_Add r p i) New xs) xs" for xs
    by (induction xs rule: rev_induct) (auto intro: router_reach.intros)
  ultimately show ?thesis
    using Lookup_reach assms(1,2,6) same by (metis append_Nil)
qed

theorem AddMany_order_irrelevant_witness:
  "Lookup (AddMany New (rev api_routes)) (bytes_of ''/api/v2/x'') =
     Lookup (AddMany New api_routes) (bytes_of ''/api/v2/x'')"
proof -
  have "valid_routes api_routes" "valid_routes (rev api_routes)"
    by (simp_all add: valid_routes_def api_routes_def bytes_of_def)
  moreover have "distinct (map fst api_routes)" "distinct (map fst (rev api_routes))"
    "ascii (bytes_of ''/api/v2/x'')"
    by code_simp+
  ultimately show ?thesis
    using AddMany_order_irrelevant [of api_routes "rev api_routes" "bytes_of ''/api/v2/x''"] by simp
qed

lemma routes_map_registered: "valid_routes rs \<Longrightarrow> p \<in> fst ` set rs \<Longrightarrow> routes_map rs p \<noteq> 0"
proof -
  assume v: "valid_routes rs" and "p \<in> fst ` set rs"
  then obtain i where i: "map_of (rev rs) p = Some i" by (metis map_of_eq_None_iff not_None_eq set_rev)
  then have "(p, i) \<in> set rs" by (metis map_of_SomeD set_rev)
  then show "routes_map rs p \<noteq> 0" using v i by (auto simp: valid_routes_def routes_map_def)
qed

text \<open>C17. An ASCII path that is not registered and at which two registered routes part, in that they continue it with
  different bytes, is answered with 0, also where a shorter registered route covers it; the routes are valid as in
  \<open>valid_routes\<close> and registered by any \<open>Add\<close> and \<open>AddMany\<close> calls from \<open>New\<close>. With routes \<open>/api\<close>, \<open>/api/v1\<close> and
  \<open>/api/v2\<close>, the path \<open>/api/v\<close> reaches nothing although \<open>/api/x\<close> reaches \<open>/api\<close>.\<close>

theorem router_branch_point_unrouted:
  assumes "router_reach r rs" "valid_routes rs" "ascii q" "q \<notin> fst ` set rs"
    and "q @ b # s \<in> fst ` set rs" "q @ c # s' \<in> fst ` set rs" "b \<noteq> c"
  shows "Lookup r q = Some (Inr 0)"
proof -
  have "routes_map rs q = 0"
    using assms(4) map_of_eq_None_iff [of "rev rs" q] by (simp add: routes_map_def)
  moreover have "branch_point (routes_map rs) q"
    unfolding branch_point_def using routes_map_registered [OF assms(2)] assms(5-7) by blast
  ultimately show ?thesis using Lookup_reach [OF assms(1-3)] by (simp add: route_spec_def)
qed

theorem router_branch_point_unrouted_witness:
  "Lookup (AddMany New api_routes) (bytes_of ''/api/v'') = Some (Inr 0) \<and>
   Lookup (AddMany New api_routes) (bytes_of ''/api/x'') = Some (Inr 1)"
proof -
  have reach: "router_reach (AddMany New api_routes) api_routes" "valid_routes api_routes"
    using router_add_many [OF router_new, of api_routes] by (simp_all add: valid_routes_def api_routes_def bytes_of_def)
  have "Lookup (AddMany New api_routes) (bytes_of ''/api/v'') = Some (Inr 0)"
  proof (rule router_branch_point_unrouted [OF reach])
    show "ascii (bytes_of ''/api/v'')" by code_simp
    show "bytes_of ''/api/v'' \<notin> fst ` set api_routes" by code_simp
    show "bytes_of ''/api/v'' @ 49 # [] \<in> fst ` set api_routes" "bytes_of ''/api/v'' @ 50 # [] \<in> fst ` set api_routes"
      by code_simp+
    show "(49 :: u8) \<noteq> 50" by simp
  qed
  moreover have "Lookup (AddMany New api_routes) (bytes_of ''/api/x'') = Some (Inr 1)" by code_simp
  ultimately show ?thesis by blast
qed

text \<open>A path byte of 128 or more can drive the child index past the arena: with routes \<open>/1\<close>, \<open>/2\<close>,
  \<open>/3\<close> and \<open>/C\<close>, looking up a slash followed by the byte 0xC3 panics.\<close>

theorem router_high_byte_panics:
  "Lookup (AddMany New [(bytes_of ''/1'', 1), (bytes_of ''/2'', 2), (bytes_of ''/3'', 3), (bytes_of ''/C'', 4)])
     [0x2F, 0xC3] = Some (Inl IndexOutOfRange)"
  by code_simp

end
