(* ===== verification/Rah_Context.thy ===== *)
theory Rah_Context
  imports Rah_Prelude
begin

section \<open>The request context (\<open>internal/rctx\<close>)\<close>

text \<open>
  One \<open>Context\<close> serves one request at a time and is reused from a pool. The Go struct is flat; the
  model groups its fields by the part of the code that maintains them, one record per group:
  \<^item> \<open>RequestTiming\<close>: the time stamps and byte counts;
  \<^item> \<open>Response\<close>: status, header mutations, buffering and what has gone to the client;
  \<^item> \<open>Slots\<close>: the typed variables of a flow;
  \<^item> \<open>ArenaState\<close>: the bump allocator behind the slot values;
  \<^item> \<open>InstrLog\<close>: the per-instruction timing record with its overflow chain;
  \<^item> \<open>CancelState\<close>: deadline, cancellation and the generation counter;
  \<^item> \<open>OpBuffer\<close>: the buffered storage operations;
  \<^item> \<open>Identity\<close>: tenant, caller and routing identity, failure flags and the transaction depth.
  A byte slice is the list of its bytes, nil being the empty list. The response writer is the trace of
  calls made on it; what its \<open>Write\<close> returns and the clock are arguments, one reading of the clock
  standing for all readings of a call.
\<close>

subsection \<open>Timing and response\<close>

record RequestTiming =
  StartNs :: int
  FirstByteSentNs :: int
  LastByteSentNs :: int
  UpstreamTimeNs :: int
  UpstreamCalls :: int
  ClientBytesSent :: int
  UpstreamBytesTx :: int
  UpstreamBytesRx :: int

definition zero_timing :: RequestTiming where
  "zero_timing = \<lparr>StartNs = 0, FirstByteSentNs = 0, LastByteSentNs = 0, UpstreamTimeNs = 0,
     UpstreamCalls = 0, ClientBytesSent = 0, UpstreamBytesTx = 0, UpstreamBytesRx = 0\<rparr>"

record HeaderMutation =
  hm_Key :: bytes
  hm_Value :: bytes
  hm_Op :: u8

text \<open>The calls made on the underlying response writer, oldest first.\<close>

datatype wire_event =
    WSet bytes bytes
  | WDel bytes
  | WriteHeader int
  | WBody bytes

record Response =
  wire :: "wire_event list"
  ResponseStatus :: int
  ResponseBuffer :: bytes
  headerSent :: bool
  ResponseHeaders :: "HeaderMutation list"
  ResHeaderCount :: nat
  IsBuffered :: bool
  StreamResponseBody :: bool
  Timing :: RequestTiming

definition mutation_event :: "HeaderMutation \<Rightarrow> wire_event" where
  "mutation_event m = (if hm_Op m = 1 then WDel (hm_Key m) else WSet (hm_Key m) (hm_Value m))"

definition flushResponseHeaders :: "Response \<Rightarrow> Response" where
  "flushResponseHeaders r =
     (if ResHeaderCount r = 0 then r
      else r\<lparr>wire := wire r @ map mutation_event (take (ResHeaderCount r) (ResponseHeaders r))\<rparr>)"

definition stamp_first_byte :: "int \<Rightarrow> Response \<Rightarrow> Response" where
  "stamp_first_byte now r =
     (if FirstByteSentNs (Timing r) = 0 then r\<lparr>Timing := (Timing r)\<lparr>FirstByteSentNs := now\<rparr>\<rparr> else r)"

definition Write :: "int \<Rightarrow> (bytes \<Rightarrow> int \<times> bool) \<Rightarrow> bytes \<Rightarrow> Response \<Rightarrow> (int \<times> bool) \<times> Response" where
  \<comment> \<open>\<open>accept\<close> is what the writer's \<open>Write\<close> returns: the count and whether there was an error.\<close>
  "Write now accept p r =
     (if IsBuffered r then ((int (length p), False), r\<lparr>ResponseBuffer := ResponseBuffer r @ p\<rparr>)
      else
        let r1 = (if \<not> headerSent r then
                    let r2 = flushResponseHeaders (stamp_first_byte now r)
                    in r2\<lparr>wire := wire r2 @ [WriteHeader (ResponseStatus r2)], headerSent := True\<rparr>
                  else r);
            (n, err) = accept p;
            r3 = r1\<lparr>wire := wire r1 @ [WBody p]\<rparr>
        in ((n, err),
            if n > 0 then
              r3\<lparr>Timing := (Timing r3)\<lparr>ClientBytesSent := ClientBytesSent (Timing r3) + n,
                                        LastByteSentNs := now\<rparr>\<rparr>
            else r3))"

definition Finalize :: "int \<Rightarrow> (bytes \<Rightarrow> int \<times> bool) \<Rightarrow> Response \<Rightarrow> Response" where
  "Finalize now accept r =
     (if headerSent r then r
      else
        let r1 = flushResponseHeaders (stamp_first_byte now r);
            r2 = r1\<lparr>wire := wire r1 @ [WriteHeader (ResponseStatus r1)]\<rparr>;
            r3 = (if IsBuffered r2 \<and> length (ResponseBuffer r2) > 0 then
                    let n = fst (accept (ResponseBuffer r2));
                        r4 = r2\<lparr>wire := wire r2 @ [WBody (ResponseBuffer r2)]\<rparr>
                    in if n > 0 then
                         r4\<lparr>Timing := (Timing r4)\<lparr>ClientBytesSent := ClientBytesSent (Timing r4) + n\<rparr>\<rparr>
                       else r4
                  else r2)
        in r3\<lparr>headerSent := True, Timing := (Timing r3)\<lparr>LastByteSentNs := now\<rparr>\<rparr>)"

definition SetResponseHeader :: "bytes \<Rightarrow> bytes \<Rightarrow> Response \<Rightarrow> Response" where
  "SetResponseHeader key val r =
     (if ResHeaderCount r < length (ResponseHeaders r) then
        r\<lparr>ResponseHeaders := (ResponseHeaders r)[ResHeaderCount r := \<lparr>hm_Key = key, hm_Value = val, hm_Op = 0\<rparr>],
          ResHeaderCount := ResHeaderCount r + 1\<rparr>
      else r)"

definition RemoveResponseHeader :: "bytes \<Rightarrow> Response \<Rightarrow> Response" where
  \<comment> \<open>The body of \<open>RemoveResponseHeaderStep\<close>.\<close>
  "RemoveResponseHeader key r =
     (if ResHeaderCount r < length (ResponseHeaders r) then
        r\<lparr>ResponseHeaders := (ResponseHeaders r)[ResHeaderCount r := \<lparr>hm_Key = key, hm_Value = [], hm_Op = 1\<rparr>],
          ResHeaderCount := ResHeaderCount r + 1\<rparr>
      else r)"

definition FinalizeHeaders :: "Response \<Rightarrow> Response" where
  "FinalizeHeaders r =
     (if headerSent r then r
      else r\<lparr>wire := wire r @ map (\<lambda>m. WSet (hm_Key m) (hm_Value m)) (take (ResHeaderCount r) (ResponseHeaders r))
               @ [WriteHeader (ResponseStatus r)],
             headerSent := True\<rparr>)"

subsection \<open>Slots\<close>

record Slots =
  ByteSlots :: "bytes list"
  intSlotBase :: "int list"
  intSlotExt :: "int list option"
  BoolSlots :: "bool list"

definition BaseByteSlots :: nat where "BaseByteSlots = 48"
definition BaseIntSlots :: nat where "BaseIntSlots = 16"
definition BaseBoolSlots :: nat where "BaseBoolSlots = 8"
definition ExtIntSlots :: nat where "ExtIntSlots = 16"

definition SetSlot :: "int \<Rightarrow> bytes \<Rightarrow> Slots \<Rightarrow> Slots go" where
  "SetSlot i v s =
     (if i < int (length (ByteSlots s))
      then andThen (set_idx (ByteSlots s) i v) (\<lambda>bs. Inr (s\<lparr>ByteSlots := bs\<rparr>))
      else Inr s)"

definition SetInt :: "int \<Rightarrow> int \<Rightarrow> Slots \<Rightarrow> Slots go" where
  "SetInt i v s =
     (if i < int BaseIntSlots
      then andThen (set_idx (intSlotBase s) i v) (\<lambda>xs. Inr (s\<lparr>intSlotBase := xs\<rparr>))
      else
        let ext = (case intSlotExt s of None \<Rightarrow> replicate ExtIntSlots 0 | Some b \<Rightarrow> b)
        in andThen (set_idx ext (i - int BaseIntSlots) v) (\<lambda>xs. Inr (s\<lparr>intSlotExt := Some xs\<rparr>)))"

definition GetInt :: "int \<Rightarrow> Slots \<Rightarrow> int go" where
  "GetInt i s =
     (if i < int BaseIntSlots then idx (intSlotBase s) i
      else case intSlotExt s of
             Some b \<Rightarrow> idx b (i - int BaseIntSlots)
           | None \<Rightarrow> Inr 0)"

definition zero_slots :: Slots where
  "zero_slots = \<lparr>ByteSlots = replicate BaseByteSlots [], intSlotBase = replicate BaseIntSlots 0,
     intSlotExt = None, BoolSlots = replicate BaseBoolSlots False\<rparr>"

subsection \<open>Arena\<close>

text \<open>
  Where the bytes of an allocation live: an interval of the inline array, an interval of the borrowed
  block (blocks are numbered by the order in which they are borrowed), or a heap object of its own.
\<close>

datatype region = Inline int int | Ext nat int int | Heap nat int

record ArenaState =
  arenaUsed :: int
  arenaExt :: "(nat \<times> int) option"
  ArenaOverflowed :: bool
  borrowed :: nat
  heaped :: nat

definition ArenaInlineSize :: int where "ArenaInlineSize = 1024"
definition ArenaBlockSize :: int where "ArenaBlockSize = 4096"

definition carve :: "int \<Rightarrow> int \<Rightarrow> 'a \<Rightarrow> 'a go" where
  \<comment> \<open>the slice expression \<open>buf[used:end:end]\<close>, whose bounds are checked\<close>
  "carve used e x = (if 0 \<le> used \<and> used \<le> e then Inr x else Inl SliceOutOfRange)"

definition maxAlloc :: int where
  \<comment> \<open>the largest object of the Go run time on 64-bit platforms\<close>
  "maxAlloc = 2 ^ 48"

definition make_bytes :: "int \<Rightarrow> 'a \<Rightarrow> 'a go" where
  \<comment> \<open>\<open>make([]byte, n)\<close>, which panics when the length is negative or beyond the address space\<close>
  "make_bytes n x = (if 0 \<le> n \<and> n \<le> maxAlloc then Inr x else Inl (Explicit ''makeslice: len out of range''))"

definition Alloc :: "int \<Rightarrow> ArenaState \<Rightarrow> (region \<times> ArenaState) go" where
  "Alloc n a =
     (let e = i64 (arenaUsed a + n) in
      if e \<le> ArenaInlineSize then carve (arenaUsed a) e (Inline (arenaUsed a) e, a\<lparr>arenaUsed := e\<rparr>)
      else
        let a1 = (case arenaExt a of
                    None \<Rightarrow> a\<lparr>arenaExt := Some (borrowed a, 0), ArenaOverflowed := True, borrowed := borrowed a + 1\<rparr>
                  | Some _ \<Rightarrow> a);
            (b, used) = the (arenaExt a1);
            e2 = i64 (used + n)
        in if e2 \<le> ArenaBlockSize then carve used e2 (Ext b used e2, a1\<lparr>arenaExt := Some (b, e2)\<rparr>)
           else make_bytes n (Heap (heaped a1) n, a1\<lparr>ArenaOverflowed := True, heaped := heaped a1 + 1\<rparr>))"

definition ReleaseArena :: "ArenaState \<Rightarrow> ArenaState" where
  \<comment> \<open>the part of \<open>ReleaseOverflow\<close> that returns the borrowed block\<close>
  "ReleaseArena a = a\<lparr>arenaExt := None\<rparr>"

subsection \<open>Instruction log\<close>

record InstrBlock =
  ib_PCs :: "int list"
  ib_Durs :: "int list"
  ib_N :: u8

record InstrLog =
  InstrPC :: "int list"
  InstrDurNs :: "int list"
  InstrCount :: u8
  InstrOverflow :: "InstrBlock list"

definition empty_block :: InstrBlock where
  "empty_block = \<lparr>ib_PCs = replicate 64 0, ib_Durs = replicate 64 0, ib_N = 0\<rparr>"

definition block_put :: "int \<Rightarrow> int \<Rightarrow> InstrBlock \<Rightarrow> InstrBlock" where
  "block_put pc dur b =
     b\<lparr>ib_PCs := (ib_PCs b)[unat (ib_N b) := pc], ib_Durs := (ib_Durs b)[unat (ib_N b) := dur],
       ib_N := ib_N b + 1\<rparr>"

definition chain_append :: "int \<Rightarrow> int \<Rightarrow> InstrBlock list \<Rightarrow> InstrBlock list" where
  \<comment> \<open>the walk to the last block of the chain and what follows it\<close>
  "chain_append pc dur blocks =
     (let bs = (if blocks = [] then [empty_block] else blocks); b = last bs in
      if unat (ib_N b) < length (ib_PCs b) then butlast bs @ [block_put pc dur b]
      else bs @ [block_put pc dur empty_block])"

definition AppendInstr :: "int \<Rightarrow> int \<Rightarrow> InstrLog \<Rightarrow> InstrLog" where
  "AppendInstr pc dur l =
     (if InstrCount l < 64 then
        l\<lparr>InstrPC := (InstrPC l)[unat (InstrCount l) := pc],
          InstrDurNs := (InstrDurNs l)[unat (InstrCount l) := dur],
          InstrCount := InstrCount l + 1\<rparr>
      else l\<lparr>InstrOverflow := chain_append pc dur (InstrOverflow l)\<rparr>)"

definition block_entries :: "InstrBlock \<Rightarrow> (int \<times> int) list" where
  "block_entries b = zip (take (unat (ib_N b)) (ib_PCs b)) (take (unat (ib_N b)) (ib_Durs b))"

definition IterInstructions :: "InstrLog \<Rightarrow> (int \<times> int) list" where
  \<comment> \<open>the arguments of the successive calls of \<open>fn\<close>\<close>
  "IterInstructions l =
     zip (take (unat (InstrCount l)) (InstrPC l)) (take (unat (InstrCount l)) (InstrDurNs l)) @
     concat (map block_entries (InstrOverflow l))"

definition TotalInstrCount :: "InstrLog \<Rightarrow> nat" where
  "TotalInstrCount l = foldl (\<lambda>total b. total + unat (ib_N b)) (unat (InstrCount l)) (InstrOverflow l)"

subsection \<open>Deadline and cancellation\<close>

text \<open>\<open>requestDeadline\<close> is None for the zero time; \<open>doneChan\<close> is None for the nil channel and otherwise
  says whether the channel is closed; \<open>cancelOnce\<close> says whether the \<open>sync.Once\<close> has run.\<close>

datatype ctx_err = DeadlineExceeded | Canceled | OtherErr string

record CancelState =
  requestDeadline :: "int option"
  doneChan :: "bool option"
  cancelOnce :: bool
  cancelState :: int
  timedOut :: int
  generation :: u64
  hadUpstreamTimeout :: bool

definition Done_chan :: "CancelState \<Rightarrow> bool option" where
  "Done_chan c = (case requestDeadline c of None \<Rightarrow> None | Some _ \<Rightarrow> doneChan c)"

definition Err :: "CancelState \<Rightarrow> ctx_err option" where
  "Err c = (if cancelState c = 1 then Some DeadlineExceeded
            else if cancelState c = 2 then Some Canceled else None)"

definition SetUpstreamTimeout :: "int \<Rightarrow> int \<Rightarrow> CancelState \<Rightarrow> u64 \<times> CancelState" where
  "SetUpstreamTimeout now d c =
     (generation c,
      c\<lparr>hadUpstreamTimeout := True, requestDeadline := Some (now + d),
        doneChan := (case doneChan c of None \<Rightarrow> Some False | Some b \<Rightarrow> Some b)\<rparr>)"

definition ClearUpstreamTimeout :: "CancelState \<Rightarrow> CancelState" where
  "ClearUpstreamTimeout c = c\<lparr>requestDeadline := None\<rparr>"

definition Cancel :: "ctx_err \<Rightarrow> CancelState \<Rightarrow> CancelState go" where
  "Cancel err c =
     (if cancelOnce c then Inr c
      else
        let c1 = c\<lparr>cancelOnce := True, cancelState := (if err = DeadlineExceeded then 1 else 2)\<rparr>;
            c2 = (if err = DeadlineExceeded then c1\<lparr>timedOut := 1\<rparr> else c1)
        in case doneChan c2 of
             None \<Rightarrow> Inr c2
           | Some False \<Rightarrow> Inr (c2\<lparr>doneChan := Some True\<rparr>)
           | Some True \<Rightarrow> Inl (Explicit ''close of closed channel''))"

datatype timer_pc = TimerFired | TimerPassed | TimerDone

fun CancelIfGeneration :: "u64 \<Rightarrow> ctx_err \<Rightarrow> timer_pc \<Rightarrow> CancelState \<Rightarrow> (timer_pc \<times> CancelState) go" where
  \<comment> \<open>one access of the goroutine that runs it: the load and comparison of the generation, then the call of \<open>Cancel\<close>\<close>
  "CancelIfGeneration capturedGen err TimerFired c =
     Inr (if generation c \<noteq> capturedGen then TimerDone else TimerPassed, c)"
| "CancelIfGeneration capturedGen err TimerPassed c = andThen (Cancel err c) (\<lambda>c'. Inr (TimerDone, c'))"
| "CancelIfGeneration capturedGen err TimerDone c = Inr (TimerDone, c)"

definition TimedOut :: "CancelState \<Rightarrow> bool" where
  "TimedOut c \<longleftrightarrow> timedOut c \<noteq> 0"

definition reset_cancel :: "CancelState \<Rightarrow> CancelState" where
  \<comment> \<open>the timeout block of \<open>Reset\<close>\<close>
  "reset_cancel c =
     (if hadUpstreamTimeout c then
        let needNewChan = (doneChan c = None \<or> cancelState c \<noteq> 0 \<or> timedOut c \<noteq> 0)
        in c\<lparr>hadUpstreamTimeout := False, generation := generation c + 1, requestDeadline := None,
             cancelOnce := False, cancelState := 0, timedOut := 0,
             doneChan := (if needNewChan then Some False else doneChan c)\<rparr>
      else c)"

subsection \<open>The rest of the context\<close>

datatype OpType = OpPut | OpGet

datatype OpTarget = TargetCache | TargetRegistryURL | TargetRegistryID | TargetRegistryMeta

record StorageOp =
  op_Type :: OpType
  op_Target :: OpTarget
  op_Async :: bool
  op_TenantID :: u16
  op_TTL :: u32
  op_Key :: bytes
  op_Value :: "bytes option"
  op_DestSlot :: int
  op_Result :: "bytes option"

definition DefaultMaxOps :: nat where "DefaultMaxOps = 64"

record OpBuffer =
  opsBase :: "StorageOp list"
  OpCount :: nat
  MaxOps :: nat
  opKeysUsed :: int

record Identity =
  ApiId :: u32
  TenantID :: u16
  TenantKey :: bytes
  CallerID :: u32
  CallerKey :: bytes
  AppName :: bytes
  TestMode :: bool
  TestRunID :: bytes
  APIRateLimitId :: u16
  EndpointRateLimitId :: u16
  EndpointId :: u8
  QuotaGroupID :: u8
  InternalTxID :: "u64 \<times> u64"

record RequestMeta =
  Method :: bytes
  Path :: bytes
  RemainingPath :: bytes
  RawQuery :: bytes
  metadataBuffer :: bytes
  overflowBuffer :: bytes
  ParamCount :: nat
  Params :: "(u32 \<times> u32) list"
  RequestBuffer :: bytes
  MaxBodySize :: int
  MutationLog :: "HeaderMutation list"
  MutationCount :: nat
  ExtraLogFields :: "(string \<times> int) list"
  ExtraLogCount :: nat
  StagedRequestBody :: bytes
  StagedContentType :: bytes
  MutationFences :: "int list"

datatype tx_event = TxBegin | TxExec string | TxCommit | TxRollback

record Outcome =
  Failed :: bool
  Cancelled :: int
  ErrorCode :: int
  ErrorMsg :: bytes
  parallelForkActive :: bool
  detachedFromPool :: bool
  ActiveTx :: bool
  TxDepth :: int
  txLog :: "tx_event list"

record Context =
  resp :: Response
  slots :: Slots
  arenas :: ArenaState
  ilog :: InstrLog
  cancel :: CancelState
  opbuf :: OpBuffer
  ident :: Identity
  meta :: RequestMeta
  outcome :: Outcome

definition go_copy :: "bytes \<Rightarrow> bytes \<Rightarrow> bytes" where
  \<comment> \<open>the contents of \<open>dst\<close> after \<open>copy(dst, src)\<close>\<close>
  "go_copy dst src = take (length dst) src @ drop (length src) dst"

definition SnapshotMetadata :: "bytes \<Rightarrow> bytes \<Rightarrow> bytes \<Rightarrow> RequestMeta \<Rightarrow> RequestMeta" where
  "SnapshotMetadata method path query m =
     (let methodLen = length method; pathLen = length path; totalNeeded = methodLen + pathLen;
          inline = (totalNeeded \<le> length (metadataBuffer m));
          ovf = (if \<not> inline \<and> length (overflowBuffer m) < totalNeeded
                 then replicate totalNeeded 0 else overflowBuffer m);
          storage = (if inline then metadataBuffer m else take totalNeeded ovf);
          storage1 = go_copy storage method;
          storage2 = take methodLen storage1 @ go_copy (drop methodLen storage1) path
      in m\<lparr>metadataBuffer := (if inline then storage2 else metadataBuffer m),
           overflowBuffer := (if inline then overflowBuffer m else storage2 @ drop totalNeeded ovf),
           Method := take methodLen storage2,
           Path := take pathLen (drop methodLen storage2),
           RawQuery := (if length query > 0 then query else [])\<rparr>)"

definition ReleaseOverflow :: "Context \<Rightarrow> Context" where
  "ReleaseOverflow c =
     c\<lparr>arenas := ReleaseArena (arenas c), slots := (slots c)\<lparr>intSlotExt := None\<rparr>\<rparr>"

definition ResetOps :: "OpBuffer \<Rightarrow> OpBuffer" where
  "ResetOps b = b\<lparr>OpCount := 0, opKeysUsed := 0\<rparr>"

definition Ops :: "OpBuffer \<Rightarrow> StorageOp list" where
  "Ops b = take (OpCount b) (opsBase b)"

definition reset_response :: "Response \<Rightarrow> Response" where
  "reset_response r =
     r\<lparr>wire := [], ResHeaderCount := 0, ResponseStatus := 200, headerSent := False, IsBuffered := False,
       StreamResponseBody := False, Timing := zero_timing, ResponseBuffer := []\<rparr>"

definition zero_identity :: Identity where
  "zero_identity =
     \<lparr>ApiId = 0, TenantID = 0, TenantKey = [], CallerID = 0, CallerKey = [], AppName = [], TestMode = False,
      TestRunID = [], APIRateLimitId = 0, EndpointRateLimitId = 0, EndpointId = 0, QuotaGroupID = 0,
      InternalTxID = (0, 0)\<rparr>"

definition reset_meta :: "RequestMeta \<Rightarrow> RequestMeta" where
  "reset_meta m =
     m\<lparr>ParamCount := 0, MutationCount := 0, ExtraLogCount := 0, StagedRequestBody := [],
       StagedContentType := [], MutationFences := replicate 8 0, RequestBuffer := [], Method := [],
       Path := [], RemainingPath := [], RawQuery := []\<rparr>"

definition reset_outcome :: "Outcome \<Rightarrow> Outcome" where
  "reset_outcome out =
     (let out1 = (if ActiveTx out
                  then out\<lparr>txLog := txLog out @ [TxRollback], ActiveTx := False, TxDepth := 0\<rparr> else out)
      in out1\<lparr>Failed := False, Cancelled := 0, parallelForkActive := False, ErrorCode := 0,
              ErrorMsg := [], detachedFromPool := False\<rparr>)"

definition reset_slots :: "Slots \<Rightarrow> Slots" where
  "reset_slots s =
     s\<lparr>ByteSlots := replicate BaseByteSlots [], intSlotBase := replicate BaseIntSlots 0,
       BoolSlots := replicate BaseBoolSlots False\<rparr>"

definition Reset :: "Context \<Rightarrow> Context" where
  \<comment> \<open>\<open>Reset(w)\<close>: the trace starts empty with the new writer \<open>w\<close>.\<close>
  "Reset c =
     c\<lparr>resp := reset_response (resp c),
       ident := zero_identity,
       meta := reset_meta (meta c),
       outcome := reset_outcome (outcome c),
       ilog := (ilog c)\<lparr>InstrCount := 0, InstrOverflow := []\<rparr>,
       cancel := reset_cancel (cancel c),
       arenas := (arenas c)\<lparr>ArenaOverflowed := False, arenaUsed := 0\<rparr>,
       slots := reset_slots (slots c),
       opbuf := ResetOps ((opbuf c)\<lparr>opKeysUsed := 0\<rparr>)\<rparr>"

subsection \<open>Storage operations\<close>

definition flush_if_full :: "(Context \<Rightarrow> Context) option \<Rightarrow> Context \<Rightarrow> Context" where
  \<comment> \<open>the first lines of \<open>EmitPut\<close> and \<open>EmitGet\<close>; \<open>None\<close> is the nil \<open>OnFlush\<close>\<close>
  "flush_if_full OnFlush c =
     (if MaxOps (opbuf c) > 0 \<and> OpCount (opbuf c) \<ge> MaxOps (opbuf c)
      then case OnFlush of Some f \<Rightarrow> f c | None \<Rightarrow> c
      else c)"

definition emit :: "StorageOp \<Rightarrow> Context \<Rightarrow> Context go" where
  \<comment> \<open>\<open>opsBase[OpCount] = op; OpCount++\<close>\<close>
  "emit op c =
     andThen (set_idx (opsBase (opbuf c)) (int (OpCount (opbuf c))) op)
       (\<lambda>ops. Inr (c\<lparr>opbuf := (opbuf c)\<lparr>opsBase := ops, OpCount := OpCount (opbuf c) + 1\<rparr>\<rparr>))"

definition EmitPut ::
  "(Context \<Rightarrow> Context) option \<Rightarrow> bytes \<Rightarrow> bytes \<Rightarrow> OpTarget \<Rightarrow> bool \<Rightarrow> u32 \<Rightarrow> Context \<Rightarrow> Context go" where
  "EmitPut OnFlush key val target async ttl c =
     (let c1 = flush_if_full OnFlush c in
      emit \<lparr>op_Type = OpPut, op_Target = target, op_Async = async, op_TenantID = TenantID (ident c1),
            op_TTL = ttl, op_Key = key, op_Value = Some val, op_DestSlot = 0, op_Result = None\<rparr> c1)"

definition EmitGet ::
  "(Context \<Rightarrow> Context) option \<Rightarrow> bytes \<Rightarrow> OpTarget \<Rightarrow> int \<Rightarrow> Context \<Rightarrow> Context go" where
  "EmitGet OnFlush key target destSlot c =
     (let c1 = flush_if_full OnFlush c in
      emit \<lparr>op_Type = OpGet, op_Target = target, op_Async = False, op_TenantID = TenantID (ident c1),
            op_TTL = 0, op_Key = key, op_Value = None, op_DestSlot = destSlot, op_Result = None\<rparr> c1)"

definition opKeysSize :: int where "opKeysSize = 512"

definition AllocOpKey :: "int \<Rightarrow> Context \<Rightarrow> ((int \<times> int) + region) go \<times> Context" where
  \<comment> \<open>an interval of \<open>opKeysBuf\<close>, or what \<open>Alloc\<close> returns when it is exhausted\<close>
  "AllocOpKey n c =
     (let e = i64 (opKeysUsed (opbuf c) + n) in
      if e \<le> opKeysSize
      then (carve (opKeysUsed (opbuf c)) e (Inl (opKeysUsed (opbuf c), e)),
            c\<lparr>opbuf := (opbuf c)\<lparr>opKeysUsed := e\<rparr>\<rparr>)
      else case Alloc n (arenas c) of
             Inl p \<Rightarrow> (Inl p, c)
           | Inr (r, a) \<Rightarrow> (Inr (Inr r), c\<lparr>arenas := a\<rparr>))"

definition fresh_context :: "nat \<Rightarrow> Context" where
  \<comment> \<open>what \<open>Pool.New\<close> of the flow manager builds: the zero struct, 32 header mutations, \<open>InitSlots\<close>\<close>
  "fresh_context maxOps =
     \<lparr>resp = \<lparr>wire = [], ResponseStatus = 0, ResponseBuffer = [], headerSent = False,
              ResponseHeaders = replicate 32 \<lparr>hm_Key = [], hm_Value = [], hm_Op = 0\<rparr>, ResHeaderCount = 0,
              IsBuffered = False, StreamResponseBody = False, Timing = zero_timing\<rparr>,
      slots = zero_slots,
      arenas = \<lparr>arenaUsed = 0, arenaExt = None, ArenaOverflowed = False, borrowed = 0, heaped = 0\<rparr>,
      ilog = \<lparr>InstrPC = replicate 64 0, InstrDurNs = replicate 64 0, InstrCount = 0, InstrOverflow = []\<rparr>,
      cancel = \<lparr>requestDeadline = None, doneChan = Some False, cancelOnce = False, cancelState = 0,
                timedOut = 0, generation = 0, hadUpstreamTimeout = False\<rparr>,
      opbuf = \<lparr>opsBase = replicate DefaultMaxOps
                  \<lparr>op_Type = OpPut, op_Target = TargetCache, op_Async = False, op_TenantID = 0, op_TTL = 0,
                   op_Key = [], op_Value = None, op_DestSlot = 0, op_Result = None\<rparr>,
               OpCount = 0, MaxOps = maxOps, opKeysUsed = 0\<rparr>,
      ident = zero_identity,
      meta = \<lparr>Method = [], Path = [], RemainingPath = [], RawQuery = [], metadataBuffer = replicate 1024 0,
              overflowBuffer = [], ParamCount = 0, Params = replicate 10 (0, 0), RequestBuffer = [],
              MaxBodySize = 0, MutationLog = [], MutationCount = 0, ExtraLogFields = replicate 8 ('''', 0),
              ExtraLogCount = 0, StagedRequestBody = [],
              StagedContentType = [], MutationFences = replicate 8 0\<rparr>,
      outcome = \<lparr>Failed = False, Cancelled = 0, ErrorCode = 0, ErrorMsg = [], parallelForkActive = False,
                 detachedFromPool = False, ActiveTx = False, TxDepth = 0, txLog = []\<rparr>\<rparr>"

end
