(* ===== verification/Rah_Context_Laws.thy ===== *)
theory Rah_Context_Laws
  imports Rah_Context
begin

section \<open>Laws of the request context\<close>

text \<open>
  The response reaches the client in order (\<open>resp_reach\<close> is any sequence of the context's own
  operations on it); the slots are an indexed store (locale \<open>indexed_store\<close>, interpreted for the integer
  slots with their overflow block and for the byte slots); the arena hands out disjoint memory; the
  instruction log with its overflow chain is a list; timers of earlier requests are harmless
  unless they have already compared the generation when the context is reset (\<open>timer_reach\<close>); and a reset context shows nothing of the request before.
\<close>

subsection \<open>The response reaches the client in order\<close>

fun is_header :: "wire_event \<Rightarrow> bool" where
  "is_header (WSet k v) = True"
| "is_header (WDel k) = True"
| "is_header _ = False"

fun is_body :: "wire_event \<Rightarrow> bool" where
  "is_body (WBody b) = True"
| "is_body _ = False"

definition wire_ok :: "wire_event list \<Rightarrow> bool" where
  \<comment> \<open>nothing yet, or header changes, one status line, and then only body\<close>
  "wire_ok w \<longleftrightarrow> w = [] \<or>
     (case dropWhile is_header w of WriteHeader st # bs \<Rightarrow> list_all is_body bs | _ \<Rightarrow> False)"

inductive resp_reach :: "Response \<Rightarrow> Response \<Rightarrow> bool" for r0 where
  resp_start: "resp_reach r0 r0"
| resp_write: "resp_reach r0 r \<Longrightarrow> resp_reach r0 (snd (Write now acc p r))"
| resp_finalize: "resp_reach r0 r \<Longrightarrow> resp_reach r0 (Finalize now acc r)"
| resp_finalize_headers: "resp_reach r0 r \<Longrightarrow> resp_reach r0 (FinalizeHeaders r)"
| resp_set_header: "resp_reach r0 r \<Longrightarrow> resp_reach r0 (SetResponseHeader k v r)"
| resp_remove_header: "resp_reach r0 r \<Longrightarrow> resp_reach r0 (RemoveResponseHeader k r)"
| resp_status: "resp_reach r0 r \<Longrightarrow> resp_reach r0 (r\<lparr>ResponseStatus := st\<rparr>)"
| resp_buffer: "resp_reach r0 r \<Longrightarrow> resp_reach r0 (r\<lparr>IsBuffered := b, ResponseBuffer := buf\<rparr>)"

definition resp_inv :: "Response \<Rightarrow> bool" where
  "resp_inv r \<longleftrightarrow> wire_ok (wire r) \<and> (wire r = [] \<longleftrightarrow> \<not> headerSent r)"

lemma is_header_mutation [simp]: "is_header (mutation_event m)"
  by (simp add: mutation_event_def)

lemma wire_ok_start:
  "list_all is_header hs \<Longrightarrow> list_all is_body bs \<Longrightarrow> wire_ok (hs @ WriteHeader st # bs)"
  by (simp add: wire_ok_def dropWhile_append list_all_iff)

lemma wire_ok_body: "wire_ok w \<Longrightarrow> w \<noteq> [] \<Longrightarrow> wire_ok (w @ [WBody b])"
  using dropWhile_eq_Nil_conv [of is_header w]
  by (cases "dropWhile is_header w")
     (auto simp: wire_ok_def dropWhile_append split: wire_event.splits)

lemma flush_stamp_simps [simp]:
  "wire (flushResponseHeaders r) = wire r @ map mutation_event (take (ResHeaderCount r) (ResponseHeaders r))"
  "ResponseStatus (flushResponseHeaders r) = ResponseStatus r"
  "IsBuffered (flushResponseHeaders r) = IsBuffered r"
  "ResponseBuffer (flushResponseHeaders r) = ResponseBuffer r"
  "headerSent (flushResponseHeaders r) = headerSent r"
  "wire (stamp_first_byte now r) = wire r"
  "ResHeaderCount (stamp_first_byte now r) = ResHeaderCount r"
  "ResponseHeaders (stamp_first_byte now r) = ResponseHeaders r"
  "ResponseStatus (stamp_first_byte now r) = ResponseStatus r"
  "IsBuffered (stamp_first_byte now r) = IsBuffered r"
  "ResponseBuffer (stamp_first_byte now r) = ResponseBuffer r"
  "headerSent (stamp_first_byte now r) = headerSent r"
  by (simp_all add: flushResponseHeaders_def stamp_first_byte_def)

lemma resp_inv_Write: "resp_inv r \<Longrightarrow> resp_inv (snd (Write now acc p r))"
  using wire_ok_start [of "map mutation_event (take (ResHeaderCount r) (ResponseHeaders r))" "[WBody p]" "ResponseStatus r"]
  by (auto simp: resp_inv_def Write_def Let_def split_beta list_all_iff intro: wire_ok_body)

lemma resp_inv_Finalize: "resp_inv r \<Longrightarrow> resp_inv (Finalize now acc r)"
  using wire_ok_start [of "map mutation_event (take (ResHeaderCount r) (ResponseHeaders r))" "[WBody (ResponseBuffer r)]" "ResponseStatus r"]
   wire_ok_start [of "map mutation_event (take (ResHeaderCount r) (ResponseHeaders r))" "[]" "ResponseStatus r"]
  by (auto simp: resp_inv_def Finalize_def Let_def split_beta list_all_iff)

lemma resp_inv_reach: "resp_reach r0 r \<Longrightarrow> resp_inv r0 \<Longrightarrow> resp_inv r"
proof (induction rule: resp_reach.induct)
  case (resp_finalize_headers r)
  then show ?case
    by (auto simp: resp_inv_def FinalizeHeaders_def list_all_iff intro!: wire_ok_start)
qed (auto simp: resp_inv_Write resp_inv_Finalize, auto simp: resp_inv_def SetResponseHeader_def RemoveResponseHeader_def)

text \<open>C20. After \<open>Reset\<close>, whatever sequence of the context's own operations produces the response (\<open>Write\<close>,
  \<open>Finalize\<close>, \<open>FinalizeHeaders\<close>, setting and removing headers, setting the status, replacing the buffer), and as long as
  nothing writes to the underlying writer past them, the client has seen nothing, or header changes, then exactly one
  status line, then body bytes only.\<close>

theorem response_wire_order:
  assumes "resp_reach (reset_response r0) r"
  shows "wire_ok (wire r)"
proof -
  have "resp_inv (reset_response r0)" by (simp add: resp_inv_def reset_response_def wire_ok_def)
  then show ?thesis using resp_inv_reach [OF assms] by (simp add: resp_inv_def)
qed

definition all_sent :: "bytes \<Rightarrow> int \<times> bool" where
  "all_sent p = (int (length p), False)"

theorem response_wire_order_witness:
  "wire_ok (wire (Finalize 2 all_sent (snd (Write 1 all_sent (bytes_of ''ok'')
     (SetResponseHeader (bytes_of ''A'') (bytes_of ''b'') (reset_response (resp (fresh_context 64))))))))"
  by (rule response_wire_order [of "resp (fresh_context 64)"]) (intro resp_reach.intros)

lemma foldl_Write_buffered:
  "IsBuffered r \<Longrightarrow>
     foldl (\<lambda>r p. snd (Write now acc p r)) r ps = r\<lparr>ResponseBuffer := ResponseBuffer r @ concat ps\<rparr>"
  by (induction ps arbitrary: r) (simp_all add: Write_def)

text \<open>C21. In buffered mode the chunks written by any number of \<open>Write\<close> calls reach the client as one body,
  in order, after the headers and the status.\<close>

theorem buffered_response_delivered:
  assumes "IsBuffered r" "\<not> headerSent r"
  shows "wire (Finalize now acc (foldl (\<lambda>r p. snd (Write now acc p r)) r ps)) =
    wire r @ map mutation_event (take (ResHeaderCount r) (ResponseHeaders r)) @
    [WriteHeader (ResponseStatus r)] @
    (let body = ResponseBuffer r @ concat ps in if body = [] then [] else [WBody body])"
  using assms by (simp add: foldl_Write_buffered Finalize_def Let_def)

theorem buffered_response_delivered_witness:
  "wire (Finalize 1 all_sent (foldl (\<lambda>r p. snd (Write 1 all_sent p r))
      ((reset_response (resp (fresh_context 64)))\<lparr>IsBuffered := True\<rparr>) [[1, 2], [3]])) =
    [WriteHeader 200, WBody [1, 2, 3]]"
  using buffered_response_delivered [of "(reset_response (resp (fresh_context 64)))\<lparr>IsBuffered := True\<rparr>" 1 all_sent "[[1, 2], [3]]"]
  by (simp add: reset_response_def)

text \<open>\<open>FinalizeHeaders\<close>, unlike the other two ways of sending the headers, turns the removal of a
  header into setting it to the empty value.\<close>

theorem FinalizeHeaders_sets_removed:
  assumes "\<not> headerSent r" "ResHeaderCount r < length (ResponseHeaders r)"
  shows "WSet k [] \<in> set (wire (FinalizeHeaders (RemoveResponseHeader k r))) \<and>
    WDel k \<in> set (wire (Finalize now acc (RemoveResponseHeader k r)))"
  using assms by (auto simp: FinalizeHeaders_def RemoveResponseHeader_def Finalize_def Let_def mutation_event_def take_Suc_conv_app_nth)

theorem FinalizeHeaders_sets_removed_witness:
  "WSet [1] [] \<in> set (wire (FinalizeHeaders (RemoveResponseHeader [1] (resp (fresh_context 64)))))"
  using FinalizeHeaders_sets_removed [of "resp (fresh_context 64)" "[1]" 1 all_sent]
  by (simp add: fresh_context_def)

subsection \<open>Slots as an indexed store\<close>

text \<open>What the steps rely on when they use slots as variables.\<close>

locale indexed_store =
  fixes inv :: "'s \<Rightarrow> bool"
    and bound :: int
    and get :: "int \<Rightarrow> 's \<Rightarrow> 'v go"
    and put :: "int \<Rightarrow> 'v \<Rightarrow> 's \<Rightarrow> 's go"
  assumes set_ok: "inv s \<Longrightarrow> 0 \<le> i \<Longrightarrow> i < bound \<Longrightarrow> \<exists>s'. put i v s = Inr s' \<and> inv s'"
    and get_ok: "inv s \<Longrightarrow> 0 \<le> i \<Longrightarrow> i < bound \<Longrightarrow> \<exists>v. get i s = Inr v"
    and get_set: "inv s \<Longrightarrow> 0 \<le> i \<Longrightarrow> i < bound \<Longrightarrow> 0 \<le> j \<Longrightarrow> j < bound \<Longrightarrow>
       put i v s = Inr s' \<Longrightarrow> get j s' = (if j = i then Inr v else get j s)"
begin

fun sets :: "(int \<times> 'v) list \<Rightarrow> 's \<Rightarrow> 's go" where
  "sets [] s = Inr s"
| "sets ((i, v) # as) s = andThen (put i v s) (sets as)"

lemma sets_get:
  assumes "inv s" "\<forall>(i, v) \<in> set as. 0 \<le> i \<and> i < bound" "0 \<le> j" "j < bound"
  shows "\<exists>s'. sets as s = Inr s' \<and> inv s' \<and>
    get j s' = (case map_of (rev as) j of Some v \<Rightarrow> Inr v | None \<Rightarrow> get j s)"
  using assms
proof (induction as arbitrary: s)
  case Nil
  then show ?case by simp
next
  case (Cons a as)
  obtain i v where a: "a = (i, v)" by (cases a)
  obtain s1 where s1: "put i v s = Inr s1" "inv s1"
    using set_ok [of s i v] Cons.prems a by auto
  then obtain s' where "sets as s1 = Inr s'" "inv s'"
      "get j s' = (case map_of (rev as) j of Some v \<Rightarrow> Inr v | None \<Rightarrow> get j s1)"
    using Cons.IH [of s1] Cons.prems by auto
  then show ?case
    using s1 a get_set [of s i j v s1] Cons.prems by (auto simp: map_add_def split: option.splits)
qed

end

definition slots_ok :: "Slots \<Rightarrow> bool" where
  "slots_ok s \<longleftrightarrow> length (ByteSlots s) = BaseByteSlots \<and> length (intSlotBase s) = BaseIntSlots \<and>
     (\<forall>b. intSlotExt s = Some b \<longrightarrow> length b = ExtIntSlots) \<and> length (BoolSlots s) = BaseBoolSlots"

interpretation int_slots: indexed_store slots_ok 32 GetInt SetInt
proof
  fix s and i v :: int
  assume s: "slots_ok s" and i: "0 \<le> i" "i < 32"
  have ext: "length (case intSlotExt s of None \<Rightarrow> replicate ExtIntSlots 0 | Some b \<Rightarrow> b) = 16"
    using s by (auto simp: slots_ok_def ExtIntSlots_def split: option.split)
  show "\<exists>s'. SetInt i v s = Inr s' \<and> slots_ok s'"
    using s i ext by (auto simp: SetInt_def set_idx_def Let_def slots_ok_def BaseIntSlots_def ExtIntSlots_def)
  show "\<exists>v. GetInt i s = Inr v"
    using s i by (auto simp: GetInt_def idx_def slots_ok_def BaseIntSlots_def ExtIntSlots_def split: option.split)
next
  fix s s' and i j v :: int
  assume s: "slots_ok s" and i: "0 \<le> i" "i < 32" and j: "0 \<le> j" "j < 32" and eq: "SetInt i v s = Inr s'"
  have ext: "length (case intSlotExt s of None \<Rightarrow> replicate ExtIntSlots 0 | Some b \<Rightarrow> b) = 16"
    using s by (auto simp: slots_ok_def ExtIntSlots_def split: option.split)
  show "GetInt j s' = (if j = i then Inr v else GetInt j s)"
    using s i j eq ext
    by (auto simp: SetInt_def GetInt_def set_idx_def idx_def Let_def slots_ok_def BaseIntSlots_def ExtIntSlots_def
        nth_list_update nat_eq_iff split: option.splits if_splits)
qed

interpretation byte_slots: indexed_store slots_ok 48 "\<lambda>i s. idx (ByteSlots s) i" SetSlot
proof
  fix s and i :: int and v :: bytes
  assume s: "slots_ok s" and i: "0 \<le> i" "i < 48"
  show "\<exists>s'. SetSlot i v s = Inr s' \<and> slots_ok s'"
    using s i by (auto simp: SetSlot_def set_idx_def slots_ok_def BaseByteSlots_def)
  show "\<exists>v. idx (ByteSlots s) i = Inr v"
    using s i by (auto simp: idx_def slots_ok_def BaseByteSlots_def)
next
  fix s s' and i j :: int and v :: bytes
  assume s: "slots_ok s" and i: "0 \<le> i" "i < 48" and j: "0 \<le> j" "j < 48" and eq: "SetSlot i v s = Inr s'"
  show "idx (ByteSlots s') j = (if j = i then Inr v else idx (ByteSlots s) j)"
    using s i j eq
    by (auto simp: SetSlot_def set_idx_def idx_def slots_ok_def BaseByteSlots_def nat_eq_iff nth_list_update
        split: if_splits)
qed

text \<open>The integer slots behave as 32 independent variables although they are split over the inline array
  and a block borrowed on first use: storing into one never panics, is read back, and leaves the others alone.\<close>

theorem int_slots_independent:
  assumes "slots_ok s" "0 \<le> i" "i < 32" "0 \<le> j" "j < 32"
  shows "\<exists>s'. SetInt i v s = Inr s' \<and> slots_ok s' \<and> GetInt j s' = (if j = i then Inr v else GetInt j s)"
  using int_slots.set_ok [OF assms(1-3)] int_slots.get_set [OF assms] by blast

theorem int_slots_independent_witness:
  "\<exists>s'. SetInt 20 9 zero_slots = Inr s' \<and> slots_ok s' \<and> GetInt 3 s' = (if 3 = (20 :: int) then Inr 9 else GetInt 3 zero_slots)"
  by (rule int_slots_independent)
     (simp_all add: slots_ok_def zero_slots_def)

subsection \<open>The arena hands out disjoint memory\<close>

fun allocs :: "int list \<Rightarrow> ArenaState \<Rightarrow> (region list \<times> ArenaState) go" where
  "allocs [] a = Inr ([], a)"
| "allocs (n # ns) a =
     andThen (Alloc n a) (\<lambda>(r, a'). andThen (allocs ns a') (\<lambda>(rs, a''). Inr (r # rs, a'')))"

fun region_len :: "region \<Rightarrow> int" where
  "region_len (Inline lo hi) = hi - lo"
| "region_len (Ext b lo hi) = hi - lo"
| "region_len (Heap h n) = n"

fun region_ok :: "region \<Rightarrow> bool" where
  "region_ok (Inline lo hi) \<longleftrightarrow> 0 \<le> lo \<and> lo \<le> hi \<and> hi \<le> ArenaInlineSize"
| "region_ok (Ext b lo hi) \<longleftrightarrow> 0 \<le> lo \<and> lo \<le> hi \<and> hi \<le> ArenaBlockSize"
| "region_ok (Heap h n) \<longleftrightarrow> 0 \<le> n"

fun region_disjoint :: "region \<Rightarrow> region \<Rightarrow> bool" where
  "region_disjoint (Inline lo hi) (Inline lo' hi') \<longleftrightarrow> hi \<le> lo' \<or> hi' \<le> lo"
| "region_disjoint (Ext b lo hi) (Ext b' lo' hi') \<longleftrightarrow> b \<noteq> b' \<or> hi \<le> lo' \<or> hi' \<le> lo"
| "region_disjoint (Heap h n) (Heap h' n') \<longleftrightarrow> h \<noteq> h'"
| "region_disjoint _ _ \<longleftrightarrow> True"

definition arena_inv :: "ArenaState \<Rightarrow> bool" where
  "arena_inv a \<longleftrightarrow> 0 \<le> arenaUsed a \<and> arenaUsed a \<le> ArenaInlineSize \<and>
     (\<forall>b used. arenaExt a = Some (b, used) \<longrightarrow> b < borrowed a \<and> 0 \<le> used \<and> used \<le> ArenaBlockSize)"

text \<open>A region lies in the part of memory that is in use in arena state \<open>a\<close>.\<close>

fun in_use :: "ArenaState \<Rightarrow> region \<Rightarrow> bool" where
  "in_use a (Inline lo hi) \<longleftrightarrow> hi \<le> arenaUsed a"
| "in_use a (Ext b lo hi) \<longleftrightarrow> b < borrowed a \<and> (\<forall>used. arenaExt a = Some (b, used) \<longrightarrow> hi \<le> used)"
| "in_use a (Heap h n) \<longleftrightarrow> h < heaped a"

lemma Alloc_step:
  assumes "arena_inv a" "0 \<le> n" "n \<le> maxAlloc"
  obtains r a' where "Alloc n a = Inr (r, a')" "arena_inv a'" "region_len r = n" "region_ok r" "in_use a' r"
    and "\<And>q. region_ok q \<Longrightarrow> in_use a q \<Longrightarrow> region_disjoint q r \<and> in_use a' q"
proof -
  have i64: "i64 (x + n) = x + n" if "0 \<le> x" "x \<le> ArenaBlockSize" for x
    using that assms(2,3) by (intro i64_id) (simp add: in_i64_def maxAlloc_def ArenaBlockSize_def)
  then have i64_used: "i64 (arenaUsed a + n) = arenaUsed a + n"
    using assms(1) by (simp add: arena_inv_def ArenaInlineSize_def ArenaBlockSize_def)
  have "\<exists>r a'. Alloc n a = Inr (r, a') \<and> arena_inv a' \<and> region_len r = n \<and> region_ok r \<and> in_use a' r \<and>
      (\<forall>q. region_ok q \<longrightarrow> in_use a q \<longrightarrow> region_disjoint q r \<and> in_use a' q)"
  proof (cases "arenaUsed a + n \<le> ArenaInlineSize")
    case True
    then have "Alloc n a = Inr (Inline (arenaUsed a) (arenaUsed a + n), a\<lparr>arenaUsed := arenaUsed a + n\<rparr>)"
      using assms by (simp add: Alloc_def i64_used carve_def arena_inv_def Let_def)
    moreover have "region_disjoint q (Inline (arenaUsed a) (arenaUsed a + n)) \<and>
        in_use (a\<lparr>arenaUsed := arenaUsed a + n\<rparr>) q" if "in_use a q" for q
      using that assms(2) by (cases q) auto
    ultimately show ?thesis
      using True assms by (auto simp: arena_inv_def)
  next
    case False
    define a1 where "a1 = (case arenaExt a of
        None \<Rightarrow> a\<lparr>arenaExt := Some (borrowed a, 0), ArenaOverflowed := True, borrowed := borrowed a + 1\<rparr>
      | Some _ \<Rightarrow> a)"
    obtain b used where ext: "arenaExt a1 = Some (b, used)"
      by (cases "arenaExt a") (auto simp: a1_def)
    have inv1: "arena_inv a1" and keep: "\<And>q. in_use a q \<Longrightarrow> in_use a1 q"
    proof -
      show "arena_inv a1"
        using assms(1) by (auto simp: a1_def arena_inv_def ArenaBlockSize_def split: option.splits)
      show "in_use a1 q" if "in_use a q" for q
        using that by (cases q) (auto simp: a1_def split: option.splits)
    qed
    have used: "0 \<le> used" "b < borrowed a1" and i64_ext: "i64 (used + n) = used + n"
      using inv1 ext i64 by (auto simp: arena_inv_def)
    have alloc: "Alloc n a = (if used + n \<le> ArenaBlockSize
        then carve used (used + n) (Ext b used (used + n), a1\<lparr>arenaExt := Some (b, used + n)\<rparr>)
        else Inr (Heap (heaped a1) n, a1\<lparr>ArenaOverflowed := True, heaped := heaped a1 + 1\<rparr>))"
      using False ext assms(2,3) by (simp add: Alloc_def i64_used i64_ext make_bytes_def Let_def flip: a1_def)
    have "region_disjoint q (Ext b used (used + n)) \<and> in_use (a1\<lparr>arenaExt := Some (b, used + n)\<rparr>) q"
      if "in_use a q" for q
      using keep [OF that] ext assms(2) by (cases q) auto
    moreover have "region_disjoint q (Heap (heaped a1) n) \<and>
        in_use (a1\<lparr>ArenaOverflowed := True, heaped := heaped a1 + 1\<rparr>) q" if "in_use a q" for q
      using keep [OF that] by (cases q) auto
    ultimately show ?thesis
      using alloc used inv1 ext assms(2) by (auto simp: carve_def arena_inv_def)
  qed
  then show ?thesis using that by blast
qed

lemma allocs_keep_in_use:
  assumes "arena_inv a" "\<forall>n \<in> set ns. 0 \<le> n \<and> n \<le> maxAlloc"
  shows "\<exists>rs a'. allocs ns a = Inr (rs, a') \<and> map region_len rs = ns \<and> list_all region_ok rs \<and>
    sorted_wrt region_disjoint rs \<and>
    (\<forall>q. region_ok q \<longrightarrow> in_use a q \<longrightarrow> list_all (region_disjoint q) rs)"
  using assms
proof (induction ns arbitrary: a)
  case Nil
  then show ?case by simp
next
  case (Cons n ns)
  obtain r a1 where r: "Alloc n a = Inr (r, a1)" "arena_inv a1" "region_len r = n" "region_ok r" "in_use a1 r"
    and keep: "\<And>q. region_ok q \<Longrightarrow> in_use a q \<Longrightarrow> region_disjoint q r \<and> in_use a1 q"
    using Alloc_step [of a n] Cons.prems by auto
  obtain rs a' where "allocs ns a1 = Inr (rs, a')" "map region_len rs = ns" "list_all region_ok rs"
    "sorted_wrt region_disjoint rs"
    and rest: "\<And>q. region_ok q \<Longrightarrow> in_use a1 q \<Longrightarrow> list_all (region_disjoint q) rs"
    using Cons.IH [OF r(2)] Cons.prems by auto
  then show ?case
    using r keep rest [of r] by (auto simp: list_all_iff)
qed

text \<open>C8. Within one request the arena never panics on sizes that are not negative and not beyond the largest object
  the run time can make (2^48 bytes), every slice it hands out has the requested length and lies within its block,
  and no two of them overlap.\<close>

theorem arena_allocs_disjoint:
  assumes "\<forall>n \<in> set ns. 0 \<le> n \<and> n \<le> maxAlloc"
  shows "\<exists>rs a'. allocs ns (arenas (Reset (ReleaseOverflow c))) = Inr (rs, a') \<and> map region_len rs = ns \<and>
    list_all region_ok rs \<and> sorted_wrt region_disjoint rs"
proof -
  have "arena_inv (arenas (Reset (ReleaseOverflow c)))"
    by (simp add: Reset_def ReleaseOverflow_def ReleaseArena_def arena_inv_def ArenaInlineSize_def)
  then show ?thesis using allocs_keep_in_use assms by blast
qed

theorem arena_allocs_disjoint_witness:
  "\<exists>rs a'. allocs [1000, 100, 5000, 100] (arenas (Reset (ReleaseOverflow (fresh_context 64)))) = Inr (rs, a') \<and>
     map region_len rs = [1000, 100, 5000, 100] \<and> list_all region_ok rs \<and> sorted_wrt region_disjoint rs"
  by (rule arena_allocs_disjoint) (simp add: maxAlloc_def)

subsection \<open>The instruction log is a list\<close>

definition block_ok :: "InstrBlock \<Rightarrow> bool" where
  "block_ok b \<longleftrightarrow> length (ib_PCs b) = 64 \<and> length (ib_Durs b) = 64 \<and> ib_N b \<le> 64"

definition ilog_ok :: "InstrLog \<Rightarrow> bool" where
  "ilog_ok l \<longleftrightarrow> length (InstrPC l) = 64 \<and> length (InstrDurNs l) = 64 \<and> InstrCount l \<le> 64 \<and>
     list_all block_ok (InstrOverflow l) \<and> (InstrCount l < 64 \<longrightarrow> InstrOverflow l = [])"

lemma zip_take_snoc:
  "n < length xs \<Longrightarrow> length ys = length xs \<Longrightarrow>
     zip (take (Suc n) (xs[n := x])) (take (Suc n) (ys[n := y])) = zip (take n xs) (take n ys) @ [(x, y)]"
  by (simp add: take_Suc_conv_app_nth zip_append)

lemma unat_Suc_u8: "n < (64 :: u8) \<Longrightarrow> unat (n + 1) = Suc (unat n)"
  by (simp add: word_less_nat_alt unat_word_ariths)

lemma block_put_ok:
  assumes "block_ok b" "unat (ib_N b) < 64"
  shows "block_ok (block_put pc dur b)" "block_entries (block_put pc dur b) = block_entries b @ [(pc, dur)]"
    "unat (ib_N (block_put pc dur b)) = Suc (unat (ib_N b))"
proof -
  have n: "ib_N b < 64" using assms(2) by (simp add: word_less_nat_alt)
  show "unat (ib_N (block_put pc dur b)) = Suc (unat (ib_N b))"
    using unat_Suc_u8 [OF n] by (simp add: block_put_def)
  then show "block_ok (block_put pc dur b)"
    using assms by (simp add: block_ok_def block_put_def word_le_nat_alt)
  show "block_entries (block_put pc dur b) = block_entries b @ [(pc, dur)]"
    using assms zip_take_snoc [of "unat (ib_N b)" "ib_PCs b" "ib_Durs b" pc dur] unat_Suc_u8 [OF n]
    by (simp add: block_entries_def block_put_def block_ok_def)
qed

lemma block_ok_empty: "block_ok empty_block" "block_entries empty_block = []" "unat (ib_N empty_block) = 0"
  by (simp_all add: block_ok_def empty_block_def block_entries_def)

lemma chain_append_ok:
  assumes "list_all block_ok bs"
  shows "list_all block_ok (chain_append pc dur bs) \<and>
    concat (map block_entries (chain_append pc dur bs)) = concat (map block_entries bs) @ [(pc, dur)]"
proof -
  define bs' where "bs' = (if bs = [] then [empty_block] else bs)"
  have ne: "bs' \<noteq> []" and ok: "list_all block_ok bs'"
    and same: "concat (map block_entries bs') = concat (map block_entries bs)"
    using assms block_ok_empty by (simp_all add: bs'_def)
  obtain xs b where bs: "bs' = xs @ [b]" using ne by (metis rev_exhaust)
  then have b: "block_ok b" using ok by simp
  have app: "chain_append pc dur bs =
      (if unat (ib_N b) < 64 then xs @ [block_put pc dur b] else bs' @ [block_put pc dur empty_block])"
    using b bs by (simp add: chain_append_def Let_def block_ok_def flip: bs'_def)
  show ?thesis
    unfolding app same [symmetric]
    using ok b bs block_put_ok [of b] block_put_ok [of empty_block] block_ok_empty by simp
qed

lemma AppendInstr_ok:
  assumes "ilog_ok l"
  shows "ilog_ok (AppendInstr pc dur l)"
    "IterInstructions (AppendInstr pc dur l) = IterInstructions l @ [(pc, dur)]"
proof -
  have "ilog_ok (AppendInstr pc dur l) \<and> IterInstructions (AppendInstr pc dur l) = IterInstructions l @ [(pc, dur)]"
  proof (cases "InstrCount l < 64")
    case True
    then have "unat (InstrCount l) < 64" "InstrOverflow l = []"
      using assms by (simp_all add: word_less_nat_alt ilog_ok_def)
    then show ?thesis
      using True assms unat_Suc_u8 [OF True] zip_take_snoc [of "unat (InstrCount l)" "InstrPC l" "InstrDurNs l"]
      by (simp add: AppendInstr_def ilog_ok_def IterInstructions_def word_le_nat_alt)
  next
    case False
    then show ?thesis
      using assms chain_append_ok [of "InstrOverflow l" pc dur]
      by (simp add: AppendInstr_def ilog_ok_def IterInstructions_def)
  qed
  then show "ilog_ok (AppendInstr pc dur l)"
    "IterInstructions (AppendInstr pc dur l) = IterInstructions l @ [(pc, dur)]" by simp_all
qed

lemma foldl_AppendInstr:
  "ilog_ok l \<Longrightarrow> ilog_ok (foldl (\<lambda>l (pc, d). AppendInstr pc d l) l es) \<and>
     IterInstructions (foldl (\<lambda>l (pc, d). AppendInstr pc d l) l es) = IterInstructions l @ es"
  by (induction es arbitrary: l) (auto simp: AppendInstr_ok)

lemma foldl_count: "foldl (\<lambda>total b. total + f b) n bs = n + sum_list (map f bs)" for f :: "'a \<Rightarrow> nat"
  by (induction bs arbitrary: n) auto

lemma TotalInstrCount_length: "ilog_ok l \<Longrightarrow> TotalInstrCount l = length (IterInstructions l)"
proof -
  assume ok: "ilog_ok l"
  have "unat (InstrCount l) \<le> 64" using ok by (simp add: ilog_ok_def word_le_nat_alt)
  moreover have "sum_list (map (length \<circ> block_entries) (InstrOverflow l)) =
      sum_list (map (\<lambda>b. unat (ib_N b)) (InstrOverflow l))"
    using ok by (intro arg_cong [where f = sum_list] map_cong refl)
      (auto simp: ilog_ok_def block_ok_def block_entries_def list_all_iff word_le_nat_alt)
  ultimately show ?thesis
    using ok by (simp add: TotalInstrCount_def IterInstructions_def foldl_count length_concat ilog_ok_def)
qed

text \<open>C22. However many instructions a request executes, the log started by \<open>Reset\<close> hands back exactly the
  recorded pairs in their order, and its count is their number: the inline arrays and the chain of overflow
  blocks implement a list.\<close>

theorem instr_log_is_list:
  assumes "length (InstrPC (ilog c)) = 64" "length (InstrDurNs (ilog c)) = 64"
  shows "IterInstructions (foldl (\<lambda>l (pc, d). AppendInstr pc d l) (ilog (Reset c)) es) = es \<and>
    TotalInstrCount (foldl (\<lambda>l (pc, d). AppendInstr pc d l) (ilog (Reset c)) es) = length es"
proof -
  have "ilog_ok (ilog (Reset c))" "IterInstructions (ilog (Reset c)) = []"
    using assms by (simp_all add: Reset_def ilog_ok_def IterInstructions_def)
  then show ?thesis
    using foldl_AppendInstr [of "ilog (Reset c)" es] TotalInstrCount_length by simp
qed

theorem instr_log_is_list_witness:
  "IterInstructions (foldl (\<lambda>l (pc, d). AppendInstr pc d l) (ilog (Reset (fresh_context 64)))
     (map (\<lambda>i. (int i, 7)) [0..<200])) = map (\<lambda>i. (int i, 7)) [0..<200]"
  by (rule instr_log_is_list [THEN conjunct1]) (simp_all add: fresh_context_def)

subsection \<open>Deadlines and stale timers\<close>

text \<open>
  The life of a pooled context as far as cancellation goes: requests arm deadlines, which hands the
  current generation to a timer; any timer armed so far may take its next step at any moment, comparing the
  generation or, when the comparison has succeeded, cancelling; deadlines are cleared; and the context is reset
  for the next request. The components are the cancellation state, the generation and the next step of every
  timer, and the number of resets. A reset is taken while no timer is between its comparison and its
  cancellation; what a reset in that gap leads to is shown below.
\<close>

definition no_timer_passed :: "(u64 \<times> timer_pc) list \<Rightarrow> bool" where
  "no_timer_passed ts \<longleftrightarrow> (\<forall>(g, pc) \<in> set ts. pc \<noteq> TimerPassed)"

inductive timer_reach :: "CancelState \<Rightarrow> (u64 \<times> timer_pc) list \<Rightarrow> nat \<Rightarrow> bool" where
  timer_init: "timer_reach (cancel (fresh_context m)) [] 0"
| timer_arm: "timer_reach c ts k \<Longrightarrow> SetUpstreamTimeout now d c = (g, c') \<Longrightarrow> timer_reach c' (ts @ [(g, TimerFired)]) k"
| timer_clear: "timer_reach c ts k \<Longrightarrow> timer_reach (ClearUpstreamTimeout c) ts k"
| timer_step: "timer_reach c ts k \<Longrightarrow> i < length ts \<Longrightarrow> ts ! i = (g, pc) \<Longrightarrow>
     CancelIfGeneration g DeadlineExceeded pc c = Inr (pc', c') \<Longrightarrow> timer_reach c' (ts[i := (g, pc')]) k"
| timer_reset: "timer_reach c ts k \<Longrightarrow> no_timer_passed ts \<Longrightarrow> timer_reach (reset_cancel c) ts (Suc k)"

inductive_cases timer_reachE: "timer_reach c ts k"

definition cancel_inv :: "CancelState \<Rightarrow> bool" where
  "cancel_inv c \<longleftrightarrow>
     (cancelState c \<noteq> 0 \<longrightarrow> hadUpstreamTimeout c) \<and> (requestDeadline c \<noteq> None \<longrightarrow> hadUpstreamTimeout c) \<and>
     (cancelOnce c \<longleftrightarrow> cancelState c \<noteq> 0) \<and> (timedOut c \<noteq> 0 \<longrightarrow> cancelState c \<noteq> 0) \<and>
     doneChan c = Some (cancelState c \<noteq> 0)"

definition timer_ok :: "CancelState \<Rightarrow> u64 \<times> timer_pc \<Rightarrow> bool" where
  \<comment> \<open>no timer is ahead of the context, a timer of the current generation was armed since the last reset, and one
    that has passed its comparison is of the current generation\<close>
  "timer_ok c t \<longleftrightarrow> unat (fst t) \<le> unat (generation c) \<and> (fst t = generation c \<longrightarrow> hadUpstreamTimeout c) \<and>
     (snd t = TimerPassed \<longrightarrow> fst t = generation c)"

definition timer_inv :: "CancelState \<Rightarrow> (u64 \<times> timer_pc) list \<Rightarrow> nat \<Rightarrow> bool" where
  "timer_inv c ts k \<longleftrightarrow> unat (generation c) \<le> k \<and> (\<forall>t \<in> set ts. timer_ok c t) \<and> cancel_inv c"

lemma timer_inv_reset:
  assumes "timer_inv c ts k" "Suc k < 2 ^ 64"
  shows "no_timer_passed ts \<Longrightarrow> timer_inv (reset_cancel c) ts (Suc k)"
    and "cancelState (reset_cancel c) = 0 \<and> timedOut (reset_cancel c) = 0 \<and> doneChan (reset_cancel c) = Some False"
    and "(g, pc) \<in> set ts \<Longrightarrow> generation (reset_cancel c) \<noteq> g"
proof -
  have ok: "timer_ok c t" if "t \<in> set ts" for t using assms(1) that by (simp add: timer_inv_def)
  have gen: "unat (generation c + 1) = Suc (unat (generation c))"
    using assms by (simp add: timer_inv_def unat_word_ariths)
  then have ne: "generation c + 1 \<noteq> fst t" if "t \<in> set ts" for t
    using ok [OF that] by (auto simp: timer_ok_def)
  show "generation (reset_cancel c) \<noteq> g" if "(g, pc) \<in> set ts"
    using ne [OF that] ok [OF that] by (auto simp: timer_ok_def reset_cancel_def Let_def)
  show "cancelState (reset_cancel c) = 0 \<and> timedOut (reset_cancel c) = 0 \<and> doneChan (reset_cancel c) = Some False"
    using assms(1) by (auto simp: timer_inv_def cancel_inv_def reset_cancel_def Let_def)
  assume np: "no_timer_passed ts"
  have tok: "timer_ok (reset_cancel c) t" if "t \<in> set ts" for t
  proof -
    have "snd t \<noteq> TimerPassed" using np that by (auto simp: no_timer_passed_def)
    then show ?thesis using ok [OF that] ne [OF that] gen
      by (cases "hadUpstreamTimeout c") (auto simp: timer_ok_def reset_cancel_def Let_def)
  qed
  have "cancel_inv (reset_cancel c)" "unat (generation (reset_cancel c)) \<le> Suc k"
    using assms(1) gen by (cases "hadUpstreamTimeout c"; force simp: timer_inv_def cancel_inv_def reset_cancel_def Let_def)+
  then show "timer_inv (reset_cancel c) ts (Suc k)" using tok by (simp add: timer_inv_def)
qed

lemma Cancel_inv:
  assumes "cancel_inv c" "hadUpstreamTimeout c"
  shows "\<exists>c'. Cancel e c = Inr c' \<and> cancel_inv c' \<and> generation c' = generation c \<and> hadUpstreamTimeout c'"
  using assms by (auto simp: cancel_inv_def Cancel_def Let_def)

lemma timer_inv_step:
  assumes "timer_inv c ts k" "i < length ts" "ts ! i = (g, pc)"
  shows "\<exists>pc' c'. CancelIfGeneration g e pc c = Inr (pc', c') \<and> timer_inv c' (ts[i := (g, pc')]) k"
proof -
  have ok: "timer_ok c (g, pc)" using assms nth_mem by (metis timer_inv_def)
  have keep: "timer_inv c' (ts[i := (g, pc')]) k"
    if "cancel_inv c'" "generation c' = generation c" "hadUpstreamTimeout c' = hadUpstreamTimeout c"
      "pc' = TimerPassed \<longrightarrow> g = generation c" for c' pc'
    using assms(1) ok that set_update_subset_insert [of ts i "(g, pc')"] by (auto simp: timer_inv_def timer_ok_def)
  show ?thesis
  proof (cases pc)
    case TimerPassed
    then have "hadUpstreamTimeout c" "cancel_inv c" using ok assms(1) by (auto simp: timer_ok_def timer_inv_def)
    then show ?thesis using Cancel_inv [of c e] keep TimerPassed by fastforce
  qed (use keep assms(1) in \<open>auto simp: timer_inv_def\<close>)
qed

lemma timer_reach_inv: "timer_reach c ts k \<Longrightarrow> k < 2 ^ 64 \<Longrightarrow> timer_inv c ts k"
proof (induction rule: timer_reach.induct)
  case (timer_init m)
  then show ?case by (simp add: timer_inv_def cancel_inv_def fresh_context_def)
next
  case (timer_arm c ts k now d g c')
  then have inv: "timer_inv c ts k" by simp
  then have "g = generation c" "generation c' = generation c" "hadUpstreamTimeout c'" "cancel_inv c'"
    using timer_arm.hyps(2) by (auto simp: timer_inv_def cancel_inv_def SetUpstreamTimeout_def)
  then show ?case using inv by (simp add: timer_inv_def timer_ok_def)
next
  case (timer_clear c ts k)
  then show ?case by (simp add: timer_inv_def timer_ok_def cancel_inv_def ClearUpstreamTimeout_def)
next
  case (timer_step c ts k i g pc pc' c')
  then obtain pc1 c1 where "CancelIfGeneration g DeadlineExceeded pc c = Inr (pc1, c1)" "timer_inv c1 (ts[i := (g, pc1)]) k"
    using timer_inv_step [of c ts k i g pc DeadlineExceeded] by blast
  then show ?case using timer_step.hyps(4) by simp
next
  case (timer_reset c ts k)
  then show ?case using timer_inv_reset(1) by simp
qed

text \<open>C18. Over the life of a pooled context, in which requests arm and clear deadlines, timers compare the generation and
  cancel in steps of their own, and the context is reset (fewer than 2^64 times), always while no timer is between its
  comparison and its cancellation: no step of a timer closes the done channel twice, and after such a reset the next
  request starts uncancelled and every timer armed before finds another generation and leaves the context as it is.\<close>

theorem stale_timer_harmless:
  assumes "timer_reach c ts k" "Suc k < 2 ^ 64" "(g, pc) \<in> set ts"
  shows "(\<exists>pc' c'. CancelIfGeneration g e pc c = Inr (pc', c')) \<and>
    Err (reset_cancel c) = None \<and> \<not> TimedOut (reset_cancel c) \<and> doneChan (reset_cancel c) = Some False \<and>
    (pc \<noteq> TimerPassed \<longrightarrow> CancelIfGeneration g e pc (reset_cancel c) = Inr (TimerDone, reset_cancel c))"
proof -
  have inv: "timer_inv c ts k" using timer_reach_inv [OF assms(1)] assms(2) by simp
  obtain i where "i < length ts" "ts ! i = (g, pc)" using assms(3) by (auto simp: in_set_conv_nth)
  then show ?thesis
    using timer_inv_step [OF inv, of i g pc e] timer_inv_reset(2) [OF inv assms(2)] timer_inv_reset(3) [OF inv assms(2,3)]
    by (cases pc) (auto simp: Err_def TimedOut_def)
qed

definition armed :: "u64 \<times> CancelState" where
  "armed = SetUpstreamTimeout 5 200 (cancel (fresh_context 64))"

lemma armed_reach: "timer_reach (snd armed) [(0, TimerFired)] 0"
  using timer_arm [OF timer_init [of 64], of 5 200 0 "snd armed"]
  by (simp add: armed_def SetUpstreamTimeout_def fresh_context_def)

lemma armed_passed: "timer_reach (snd armed) [(0, TimerPassed)] 0"
  using timer_step [OF armed_reach, of 0 0 TimerFired TimerPassed "snd armed"]
  by (simp add: armed_def SetUpstreamTimeout_def fresh_context_def)

theorem stale_timer_harmless_witness:
  "CancelIfGeneration 0 DeadlineExceeded TimerFired (reset_cancel (snd armed)) = Inr (TimerDone, reset_cancel (snd armed)) \<and>
   CancelIfGeneration 0 DeadlineExceeded TimerFired (snd armed) = Inr (TimerPassed, snd armed)"
proof -
  have "CancelIfGeneration 0 DeadlineExceeded TimerFired (snd armed) = Inr (TimerPassed, snd armed)"
    by (simp add: armed_def SetUpstreamTimeout_def fresh_context_def)
  then show ?thesis using stale_timer_harmless [OF armed_reach, of 0 TimerFired DeadlineExceeded] by simp
qed

text \<open>C19. A timer that has compared the generation when the context is reset, but has not cancelled yet, cancels the next
  request: its \<open>Cancel\<close> marks the reset context as timed out. As the next request has armed no deadline, the following
  \<open>Reset\<close> does not clear the mark either, and later requests on the same pooled context start out cancelled too.\<close>

theorem passed_timer_cancels_next_request:
  assumes "timer_reach c ts k" "k < 2 ^ 64" "(g, TimerPassed) \<in> set ts"
  shows "\<exists>c'. CancelIfGeneration g DeadlineExceeded TimerPassed (reset_cancel c) = Inr (TimerDone, c') \<and>
    Err c' = Some DeadlineExceeded \<and> TimedOut c' \<and> reset_cancel c' = c'"
proof -
  have "timer_inv c ts k" by (rule timer_reach_inv [OF assms(1,2)])
  moreover from this have "timer_ok c (g, TimerPassed)" using assms(3) by (simp add: timer_inv_def)
  ultimately have "hadUpstreamTimeout c" "cancel_inv c" by (simp_all add: timer_inv_def timer_ok_def)
  then show ?thesis
    by (auto simp: cancel_inv_def reset_cancel_def Cancel_def Err_def TimedOut_def Let_def)
qed

theorem passed_timer_cancels_next_request_witness:
  "\<exists>c'. CancelIfGeneration 0 DeadlineExceeded TimerPassed (reset_cancel (snd armed)) = Inr (TimerDone, c') \<and>
     Err c' = Some DeadlineExceeded \<and> TimedOut c' \<and> reset_cancel c' = c'"
  by (rule passed_timer_cancels_next_request [OF armed_passed]) simp_all

subsection \<open>Metadata snapshot\<close>

lemma take_go_copy: "length src \<le> length dst \<Longrightarrow> take (length src) (go_copy dst src) = src"
  by (simp add: go_copy_def)

lemma copied_twice:
  assumes "length xs + length ys \<le> length buf"
  shows "take (length xs) (take (length xs) (go_copy buf xs) @ go_copy (drop (length xs) (go_copy buf xs)) ys) = xs"
    and "take (length ys) (drop (length xs) (take (length xs) (go_copy buf xs) @ go_copy (drop (length xs) (go_copy buf xs)) ys)) = ys"
proof -
  have l: "length (go_copy buf xs) = length buf" using assms by (simp add: go_copy_def)
  then have t: "take (length xs) (go_copy buf xs) = xs" using assms by (simp add: take_go_copy)
  then show "take (length xs) (take (length xs) (go_copy buf xs) @ go_copy (drop (length xs) (go_copy buf xs)) ys) = xs"
    by simp
  show "take (length ys) (drop (length xs) (take (length xs) (go_copy buf xs) @ go_copy (drop (length xs) (go_copy buf xs)) ys)) = ys"
    unfolding t using assms l by (simp add: take_go_copy)
qed

text \<open>The snapshot of a request's method and path in the context's own buffers is exact, whether they fit
  the inline buffer or need the overflow buffer, and whatever an earlier request left in those buffers.\<close>

theorem SnapshotMetadata_exact:
  "Method (SnapshotMetadata method path query m) = method \<and>
   Path (SnapshotMetadata method path query m) = path \<and>
   RawQuery (SnapshotMetadata method path query m) = query"
proof -
  let ?n = "length method + length path"
  let ?ovf = "if \<not> ?n \<le> length (metadataBuffer m) \<and> length (overflowBuffer m) < ?n
    then replicate ?n 0 else overflowBuffer m"
  define buf where "buf = (if ?n \<le> length (metadataBuffer m) then metadataBuffer m else take ?n ?ovf)"
  have "?n \<le> length buf" by (auto simp: buf_def)
  note copied_twice [OF this]
  then show ?thesis
    unfolding SnapshotMetadata_def Let_def buf_def [symmetric] RequestMeta.simps by simp
qed

subsection \<open>Nothing of a request survives into the next\<close>

text \<open>
  What a request can observe of its context: everything but the contents of buffers beyond their counts,
  the timers' generation, the configuration of the op buffer, the body limit (set anew for each request by
  \<open>Extract\<close>) and the record of database calls.
\<close>

definition visible :: "Context \<Rightarrow> Context" where
  "visible c =
     c\<lparr>resp := (resp c)\<lparr>ResponseHeaders := take (ResHeaderCount (resp c)) (ResponseHeaders (resp c))\<rparr>,
       arenas := (arenas c)\<lparr>borrowed := 0, heaped := 0\<rparr>,
       ilog := (ilog c)\<lparr>InstrPC := map fst (IterInstructions (ilog c)), InstrDurNs := map snd (IterInstructions (ilog c))\<rparr>,
       cancel := (cancel c)\<lparr>generation := 0\<rparr>,
       opbuf := (opbuf c)\<lparr>opsBase := Ops (opbuf c), MaxOps := 0\<rparr>,
       meta := (meta c)\<lparr>metadataBuffer := [], overflowBuffer := [], Params := take (ParamCount (meta c)) (Params (meta c)),
                        MutationLog := take (MutationCount (meta c)) (MutationLog (meta c)),
                        ExtraLogFields := take (ExtraLogCount (meta c)) (ExtraLogFields (meta c)), MaxBodySize := 0\<rparr>,
       outcome := (outcome c)\<lparr>txLog := []\<rparr>\<rparr>"

definition tx_ok :: "Outcome \<Rightarrow> bool" where
  "tx_ok out \<longleftrightarrow> (ActiveTx out \<longleftrightarrow> TxDepth out \<noteq> 0)"

lemma reset_cancel_fresh:
  assumes "timer_inv c ts k"
  shows "(reset_cancel c)\<lparr>generation := 0\<rparr> = cancel (fresh_context m)"
  using assms
  by (auto simp: timer_inv_def cancel_inv_def reset_cancel_def fresh_context_def Let_def intro!: CancelState.equality)

text \<open>C7. A context taken back from the pool and reset looks to the next request exactly like a newly
  built one: no slot, header, status, identity, failure flag, operation, log entry, deadline or transaction of
  the previous request is visible to it. The context is one whose cancellation state comes from requests, timers and
  resets as in \<open>timer_reach\<close>, and whose transaction depth is zero exactly without an open transaction.\<close>

theorem reset_isolates_requests:
  assumes "timer_reach (cancel c) ts k" "k < 2 ^ 64" "tx_ok (outcome c)"
  shows "visible (Reset (ReleaseOverflow c)) = visible (Reset (fresh_context m))"
proof -
  have "(reset_cancel (cancel c))\<lparr>generation := 0\<rparr> = cancel (fresh_context m)"
    "(reset_cancel (cancel (fresh_context m)))\<lparr>generation := 0\<rparr> = cancel (fresh_context m)"
    using reset_cancel_fresh timer_reach_inv [OF assms(1,2)] timer_reach_inv [OF timer_init]
    by (metis zero_less_numeral zero_less_power)+
  moreover have "(reset_outcome (outcome c))\<lparr>txLog := []\<rparr> = (reset_outcome (outcome (fresh_context m)))\<lparr>txLog := []\<rparr>"
    using assms(3) by (auto simp: tx_ok_def reset_outcome_def fresh_context_def Let_def intro!: Outcome.equality)
  moreover have "intSlotExt (slots (fresh_context m)) = None" "arenaExt (arenas (fresh_context m)) = None"
    by (simp_all add: fresh_context_def zero_slots_def)
  ultimately show ?thesis
    by (intro Context.equality)
      (simp_all add: visible_def Reset_def ReleaseOverflow_def ReleaseArena_def reset_response_def reset_meta_def
        reset_slots_def ResetOps_def Ops_def IterInstructions_def)
qed

theorem reset_isolates_requests_witness:
  "visible (Reset (ReleaseOverflow ((fresh_context 64)\<lparr>cancel := snd armed,
      ident := (ident (fresh_context 64))\<lparr>TenantID := 7\<rparr>,
      outcome := (outcome (fresh_context 64))\<lparr>Failed := True, ActiveTx := True, TxDepth := 2\<rparr>\<rparr>))) =
   visible (Reset (fresh_context 64))"
proof (rule reset_isolates_requests)
  show "timer_reach (cancel ((fresh_context 64)\<lparr>cancel := snd armed,
      ident := (ident (fresh_context 64))\<lparr>TenantID := 7\<rparr>,
      outcome := (outcome (fresh_context 64))\<lparr>Failed := True, ActiveTx := True, TxDepth := 2\<rparr>\<rparr>))
    [(0, TimerFired)] 0" using armed_reach by simp
qed (simp_all add: tx_ok_def)

end
