(* ===== verification/Rah_TxID.thy ===== *)
theory Rah_TxID
  imports Rah_Prelude
begin

unbundle bit_operations_syntax

section \<open>Transaction identifiers (\<open>internal/rctx/txid.go\<close>)\<close>

text \<open>
  The generator's state, one identifier per call, and the two formatters. \<open>crypto/rand\<close> only supplies the
  fingerprint, which is an arbitrary pair of words here.
\<close>

record TxIDGenerator =
  fingerprint :: "u64 \<times> u64"
  counter :: u64

definition Generate :: "int \<Rightarrow> TxIDGenerator \<Rightarrow> (u64 \<times> u64) \<times> TxIDGenerator" where
  "Generate requestStartNs g =
     (let epochMs = drop_bit 20 (word_of_int requestStartNs :: u64);
          c = counter g + 1;
          s = c AND 0xFFFFFFFF
      in ((fst (fingerprint g) XOR (push_bit 32 epochMs OR s), snd (fingerprint g)), g\<lparr>counter := c\<rparr>))"

fun generates :: "int list \<Rightarrow> TxIDGenerator \<Rightarrow> (u64 \<times> u64) list" where
  "generates [] g = []"
| "generates (t # ts) g = (let (i, g') = Generate t g in i # generates ts g')"

definition hx :: bytes where
  "hx = bytes_of ''0123456789abcdef''"

fun put_hex :: "nat \<Rightarrow> nat \<Rightarrow> u64 \<Rightarrow> bytes \<Rightarrow> bytes go" where
  \<comment> \<open>the loop that writes \<open>n\<close> digits from the last position of its range down to \<open>base\<close>\<close>
  "put_hex base 0 v dst = Inr dst"
| "put_hex base (Suc n) v dst =
     andThen (set_idx dst (int (base + n)) (hx ! unat (v AND 0xf))) (put_hex base n (drop_bit 4 v))"

definition FormatTxIDInto :: "bytes \<Rightarrow> u64 \<times> u64 \<Rightarrow> bytes go" where
  "FormatTxIDInto dst i = andThen (put_hex 0 16 (fst i) dst) (put_hex 16 16 (snd i))"

fun hex_digits :: "nat \<Rightarrow> u64 \<Rightarrow> bytes" where
  \<comment> \<open>what the verb \<open>%016x\<close> prints, for \<open>n = 16\<close>\<close>
  "hex_digits 0 v = []"
| "hex_digits (Suc n) v = hex_digits n (drop_bit 4 v) @ [hx ! unat (v AND 0xf)]"

definition FormatTxID :: "u64 \<times> u64 \<Rightarrow> bytes" where
  "FormatTxID i = hex_digits 16 (fst i) @ hex_digits 16 (snd i)"

subsection \<open>Uniqueness\<close>

lemma low_mask: "(c :: u64) AND 0xFFFFFFFF = take_bit 32 c"
proof -
  have "(0xFFFFFFFF :: u64) = mask 32" by (simp add: mask_eq_exp_minus_1)
  then show ?thesis by (simp only: take_bit_eq_mask)
qed

lemma low_word:
  "take_bit 32 (f XOR (f XOR (push_bit 32 e OR take_bit 32 c))) = take_bit 32 (c :: u64)"
  by (simp add: xor.assoc [symmetric] take_bit_push_bit)

lemma Generate_low:
  "take_bit 32 (fst (fingerprint g) XOR fst (fst (Generate t g))) = take_bit 32 (counter g + 1)"
  "fingerprint (snd (Generate t g)) = fingerprint g" "counter (snd (Generate t g)) = counter g + 1"
  by (simp_all only: Generate_def Let_def low_mask fst_conv snd_conv low_word) simp_all

lemma uint_low_word: "uint (take_bit 32 (c + word_of_nat n :: u64)) = (uint c + int n) mod 2 ^ 32"
proof -
  have "uint (take_bit 32 (c + word_of_nat n)) = take_bit 32 (uint (c + word_of_nat n))"
    by (simp add: unsigned_take_bit_eq)
  also have "\<dots> = ((uint c + uint (word_of_nat n :: u64)) mod 2 ^ 64) mod 2 ^ 32"
    by (simp add: take_bit_eq_mod uint_word_ariths)
  also have "\<dots> = (uint c + int n mod 2 ^ 64) mod 2 ^ 32"
    by (simp add: mod_mod_cancel unsigned_of_nat take_bit_eq_mod of_nat_mod)
  also have "\<dots> = (uint c + int n) mod 2 ^ 32"
    by (metis mod_add_right_eq mod_mod_cancel le_imp_power_dvd numeral_le_iff semiring_norm(69) semiring_norm(71) semiring_norm(68))
  finally show ?thesis .
qed

lemma generates_low:
  "k < length ts \<Longrightarrow> take_bit 32 (fst (fingerprint g) XOR fst (generates ts g ! k)) =
     take_bit 32 (counter g + word_of_nat (Suc k))"
proof (induction ts arbitrary: g k)
  case Nil
  then show ?case by simp
next
  case (Cons t ts)
  show ?case
  proof (cases k)
    case 0
    then show ?thesis using Generate_low(1) [where g = g and t = t] by (simp add: split_beta)
  next
    case (Suc j)
    then show ?thesis
      using Cons.IH [of j "snd (Generate t g)"] Cons.prems Generate_low(2,3) [where g = g and t = t]
      by (simp add: split_beta add.commute add.left_commute)
  qed
qed

lemma length_generates [simp]: "length (generates ts g) = length ts"
  by (induction ts arbitrary: g) (auto simp: split_beta)

text \<open>C23. Any 2^32 successive identifiers of one gateway process are pairwise distinct, whatever the clock
  readings they were generated from.\<close>

theorem txids_distinct:
  assumes "length ts \<le> 2 ^ 32"
  shows "distinct (generates ts g)"
proof -
  have "generates ts g ! i \<noteq> generates ts g ! j" if "i < j" "j < length ts" for i j
  proof
    assume eq: "generates ts g ! i = generates ts g ! j"
    have "take_bit 32 (counter g + word_of_nat (Suc i)) = take_bit 32 (counter g + word_of_nat (Suc j))"
      using generates_low [of i ts g] generates_low [of j ts g] that eq by simp
    then have "(uint (counter g) + int (Suc i)) mod 2 ^ 32 = (uint (counter g) + int (Suc j)) mod 2 ^ 32"
      by (simp only: flip: uint_low_word)
    then have "2 ^ 32 dvd int j - int i"
      by (metis add_diff_cancel_left add_diff_cancel_left' mod_eq_dvd_iff of_nat_Suc)
    then show False
      using that assms zdvd_imp_le [of "2 ^ 32" "int j - int i"] by simp
  qed
  then show ?thesis
    by (simp add: distinct_conv_nth) (metis nat_neq_iff)
qed


theorem txids_distinct_witness:
  "distinct (generates [5, 5, 2000000, 5] \<lparr>fingerprint = (3, 4), counter = 0xFFFFFFFF\<rparr>)"
  by (rule txids_distinct) simp

subsection \<open>Formatting\<close>

lemma length_hex_digits [simp]: "length (hex_digits n v) = n"
  by (induction n arbitrary: v) auto

lemma put_hex_eq:
  "base + n \<le> length dst \<Longrightarrow>
     put_hex base n v dst = Inr (take base dst @ hex_digits n v @ drop (base + n) dst)"
proof (induction n arbitrary: v dst)
  case 0
  then show ?case by simp
next
  case (Suc n)
  let ?d = "hx ! unat (v AND 0xf)"
  have "put_hex base (Suc n) v dst = put_hex base n (drop_bit 4 v) (dst[base + n := ?d])"
    using Suc.prems by (simp del: of_nat_add)
  also have "\<dots> = Inr (take base dst @ hex_digits n (drop_bit 4 v) @ drop (base + n) (dst[base + n := ?d]))"
    using Suc.IH [of "dst[base + n := ?d]"] Suc.prems by (simp add: take_update_cancel)
  also have "drop (base + n) (dst[base + n := ?d]) = ?d # drop (base + Suc n) dst"
    using Suc.prems by (simp add: drop_update_swap Cons_nth_drop_Suc [symmetric])
  finally show ?case by simp
qed

fun hex_value :: "u8 \<Rightarrow> nat" where
  "hex_value d = (if d < 0x3A then unat d - 0x30 else unat d - 0x61 + 10)"

definition parse_hex :: "bytes \<Rightarrow> nat" where
  "parse_hex ds = foldl (\<lambda>a d. a * 16 + hex_value d) 0 ds"

lemma hex_value_hx: "k < 16 \<Longrightarrow> hex_value (hx ! k) = k"
proof -
  have "\<forall>k \<in> {..<16}. hex_value (hx ! k) = k" by code_simp
  then show "k < 16 \<Longrightarrow> hex_value (hx ! k) = k" by simp
qed

lemma parse_hex_digits: "parse_hex (hex_digits n v) = unat v mod 16 ^ n"
proof (induction n arbitrary: v)
  case 0
  then show ?case by (simp add: parse_hex_def)
next
  case (Suc n)
  have "(0xf :: u64) = mask 4" by (simp add: mask_eq_exp_minus_1)
  then have "v AND 0xf = take_bit 4 v" by (simp only: take_bit_eq_mask)
  then have low: "unat (v AND 0xf) = unat v mod 16"
    by (simp only: unsigned_take_bit_eq) (simp add: take_bit_eq_mod)
  have high: "unat (drop_bit 4 v) = unat v div 16"
    by (simp only: unat_drop_bit_eq) (simp add: drop_bit_eq_div)
  have "parse_hex (hex_digits (Suc n) v) = (unat v div 16 mod 16 ^ n) * 16 + unat v mod 16"
    using Suc.IH [of "drop_bit 4 v"] hex_value_hx [of "unat v mod 16"] low high by (simp add: parse_hex_def)
  also have "\<dots> = unat v mod 16 ^ Suc n"
    by (simp add: mod_mult2_eq mult.commute)
  finally show ?case .
qed

text \<open>C24. The allocation-free formatter writes into the caller's buffer exactly what the allocating one
  returns, leaves the rest of the buffer as it was, panics on a buffer of less than 32 bytes, and the digits
  determine the identifier.\<close>

theorem FormatTxIDInto_correct:
  "(32 \<le> length dst \<longrightarrow> FormatTxIDInto dst i = Inr (FormatTxID i @ drop 32 dst)) \<and>
   (length dst < 32 \<longrightarrow> FormatTxIDInto dst i = Inl IndexOutOfRange) \<and>
   parse_hex (take 16 (FormatTxID i)) = unat (fst i) \<and> parse_hex (drop 16 (FormatTxID i)) = unat (snd i)"
proof (intro conjI impI)
  assume "32 \<le> length dst"
  then show "FormatTxIDInto dst i = Inr (FormatTxID i @ drop 32 dst)"
    by (simp add: FormatTxIDInto_def FormatTxID_def put_hex_eq)
next
  assume short: "length dst < 32"
  have panic: "put_hex base 16 v d = Inl IndexOutOfRange" if "length d \<le> base + 15" for base v d
    using that put_hex.simps(2) [of base 15 v d] by (simp add: set_idx_def)
  show "FormatTxIDInto dst i = Inl IndexOutOfRange"
    using short panic by (cases "16 \<le> length dst") (simp_all add: FormatTxIDInto_def put_hex_eq)
next
  have "unat v mod 16 ^ 16 = unat v" for v :: u64
    using unsigned_less [of v, where ?'a = nat] by simp
  then show "parse_hex (take 16 (FormatTxID i)) = unat (fst i)" "parse_hex (drop 16 (FormatTxID i)) = unat (snd i)"
    by (simp_all add: FormatTxID_def parse_hex_digits)
qed

theorem FormatTxIDInto_correct_witness:
  "FormatTxIDInto (replicate 34 7) (0xAB, 1) =
     Inr (bytes_of ''00000000000000ab0000000000000001'' @ [7, 7])"
proof -
  have "FormatTxIDInto (replicate 34 7) (0xAB, 1) = Inr (FormatTxID (0xAB, 1) @ drop 32 (replicate 34 7))"
    using FormatTxIDInto_correct [of "replicate 34 7" "(0xAB, 1)"] by simp
  moreover have "FormatTxID (0xAB, 1) = bytes_of ''00000000000000ab0000000000000001''" by code_simp
  ultimately show ?thesis by (simp add: numeral_eq_Suc)
qed

end
