(* ===== verification/Rah_Counters.thy ===== *)
theory Rah_Counters
  imports Rah_Cas
begin

unbundle bit_operations_syntax

section \<open>Rate-limit counters (\<open>internal/engine/rate_limit.go\<close>, \<open>counter_arena.go\<close>, \<open>upstream_rate_limit.go\<close>,
  \<open>upstream_cost_window.go\<close>, \<open>spike_arrest.go\<close>)\<close>

text \<open>
  Every counter is one 64-bit word holding a window number and a count. An operation on it is the body
  of its compare-and-swap loop, a \<open>cas_step\<close>; applied to an array of counters it is one pass of the loop
  with nobody interfering, and the theory of such loops carries what holds sequentially over to every
  interleaving. The clock reading is an argument.
\<close>

subsection \<open>The counter word\<close>

definition epoch_of :: "u64 \<Rightarrow> u32" where
  "epoch_of w = ucast (drop_bit 32 w)"

definition count_of :: "u64 \<Rightarrow> u32" where
  "count_of w = ucast (w AND 0xFFFFFFFF)"

definition pack :: "u32 \<Rightarrow> u32 \<Rightarrow> u64" where
  "pack epoch n = push_bit 32 (ucast epoch) OR ucast n"

subsection \<open>Rule words\<close>

type_synonym RateLimitRule = u32

definition Mode :: "RateLimitRule \<Rightarrow> u8" where "Mode r = ucast (r AND 0x07)"
definition Scope :: "RateLimitRule \<Rightarrow> u8" where "Scope r = ucast (drop_bit 3 r AND 0x07)"
definition Policy :: "RateLimitRule \<Rightarrow> u8" where "Policy r = ucast (drop_bit 6 r AND 0x03)"
definition Slot :: "RateLimitRule \<Rightarrow> u8" where "Slot r = ucast (drop_bit 8 r AND 0x3F)"

definition FinalLimit :: "RateLimitRule \<Rightarrow> u32" where
  "FinalLimit r =
     (let base = drop_bit 16 r AND 0xFFFF; multi = drop_bit 14 r AND 0x03
      in base * ([1, 10, 100, 1000] ! unat multi))"

subsection \<open>Counter algorithms\<close>

definition FixedWindow :: "u32 \<Rightarrow> u32 \<Rightarrow> u64 list \<Rightarrow> (bool \<times> u64 list) go" where
  "FixedWindow i limit arena =
     andThen (idx arena (uint i)) (\<lambda>old.
       let val = old + 1 in Inr (count_of val \<le> limit, arena[unat i := val]))"

definition FixedWindowEpoch_body :: "u32 \<Rightarrow> u32 \<Rightarrow> u64 \<Rightarrow> (u64, bool \<times> u32) cas_step" where
  "FixedWindowEpoch_body limit epoch old =
     (if epoch_of old \<noteq> epoch
      then Cas (push_bit 32 (ucast epoch) OR 1) (True, if limit > 1 then limit - 1 else 0)
      else if count_of old \<ge> limit then Done (False, 0)
      else
        let newCount = count_of old + 1
        in Cas (old + 1) (True, if limit > newCount then limit - newCount else 0))"

definition TokenBucket_body :: "u32 \<Rightarrow> u32 \<Rightarrow> u32 \<Rightarrow> u64 \<Rightarrow> (u64, bool \<times> u32) cas_step" where
  "TokenBucket_body rate burst now oldState =
     (let elapsed = now - epoch_of oldState;
          newTokens = min (count_of oldState + elapsed * rate) burst
      in if newTokens < 1 then Done (False, 0)
         else
           let remaining = newTokens - 1
           in Cas (push_bit 32 (ucast now) OR ucast remaining) (True, remaining))"

definition GapInterval :: "u32 \<Rightarrow> u32 \<Rightarrow> u32 \<Rightarrow> u64 list \<Rightarrow> (bool \<times> u64 list) go" where
  "GapInterval i gap now arena =
     andThen (idx arena (uint i)) (\<lambda>v.
       let lastSeen = (ucast v :: u32)
       in if now - lastSeen < gap then Inr (False, arena) else Inr (True, arena[unat i := ucast now]))"

definition counterEpochCAS_body :: "u32 \<Rightarrow> u32 \<Rightarrow> u64 \<Rightarrow> (u64, bool \<times> u32) cas_step" where
  "counterEpochCAS_body limit epoch old =
     (if limit = 0 then Done (False, 0)
      else if epoch_of old \<noteq> epoch
      then Cas (push_bit 32 (ucast epoch) OR 1) (True, if limit > 1 then limit - 1 else 0)
      else if count_of old \<ge> limit then Done (False, 0)
      else
        let newCount = count_of old + 1
        in Cas (old + 1) (True, if limit > newCount then limit - newCount else 0))"

definition counterEpochCASBy_body :: "u32 \<Rightarrow> u32 \<Rightarrow> u32 \<Rightarrow> u64 \<Rightarrow> (u64, bool \<times> u32) cas_step" where
  "counterEpochCASBy_body limit delta0 epoch old =
     (if limit = 0 then Done (False, 0)
      else
        let delta = (if delta0 = 0 then 1 else delta0) in
        if epoch_of old \<noteq> epoch then
          if delta > limit then Done (False, 0)
          else Cas (push_bit 32 (ucast epoch) OR ucast delta) (True, if limit > delta then limit - delta else 0)
        else
          let newCount = count_of old + delta in
          if newCount > limit then Done (False, 0)
          else Cas (push_bit 32 (ucast epoch) OR ucast newCount)
                 (True, if limit > newCount then limit - newCount else 0))"

definition upstreamEpochAllow_body :: "u32 \<Rightarrow> u32 \<Rightarrow> u64 \<Rightarrow> (u64, bool) cas_step" where
  "upstreamEpochAllow_body limit epoch old =
     (if epoch_of old \<noteq> epoch then Cas (push_bit 32 (ucast epoch) OR 1) True
      else if count_of old \<ge> limit then Done False
      else Cas (old + 1) True)"

definition on_slot :: "(u64 \<Rightarrow> (u64, 'r) cas_step) \<Rightarrow> int \<Rightarrow> u64 list \<Rightarrow> ('r \<times> u64 list) go" where
  \<comment> \<open>run a loop on one word of an array\<close>
  "on_slot body i arena =
     andThen (idx arena i) (\<lambda>old. let (v, r) = cas_run body old in Inr (r, arena[nat i := v]))"

definition FixedWindowEpoch :: "u32 \<Rightarrow> u32 \<Rightarrow> u32 \<Rightarrow> u64 list \<Rightarrow> ((bool \<times> u32) \<times> u64 list) go" where
  "FixedWindowEpoch i epoch limit arena = on_slot (FixedWindowEpoch_body limit epoch) (uint i) arena"

definition TokenBucket :: "u32 \<Rightarrow> u32 \<Rightarrow> u32 \<Rightarrow> u32 \<Rightarrow> u64 list \<Rightarrow> ((bool \<times> u32) \<times> u64 list) go" where
  "TokenBucket i rate burst now arena = on_slot (TokenBucket_body rate burst now) (uint i) arena"

subsection \<open>Counter arenas\<close>

definition arenaFNV32a :: "bytes \<Rightarrow> u32" where
  "arenaFNV32a b = foldl (\<lambda>h c. (h XOR ucast c) * 16777619) 2166136261 b"

fun bits_Len :: "nat \<Rightarrow> nat" where
  "bits_Len n = (if n = 0 then 0 else Suc (bits_Len (n div 2)))"

declare bits_Len.simps [simp del]

definition nextPow2 :: "int \<Rightarrow> int" where
  \<comment> \<open>\<open>1 << bits.Len(uint(n-1))\<close> for results below 2^63\<close>
  "nextPow2 n = (if n \<le> 1 then 1 else i64 (2 ^ bits_Len (nat (n - 1))))"

record TenantCounterArena =
  ta_slots :: "u64 list"
  numWindows :: int
  maxTenants :: int

definition NewTenantCounterArena :: "int \<Rightarrow> int \<Rightarrow> TenantCounterArena" where
  "NewTenantCounterArena mt nw =
     (let mt' = (if mt \<le> 0 then 65536 else mt); nw' = (if nw \<le> 0 then 1 else nw)
      in \<lparr>ta_slots = replicate (nat (mt' * nw')) 0, numWindows = nw', maxTenants = mt'\<rparr>)"

definition tenant_in_range :: "u16 \<Rightarrow> int \<Rightarrow> TenantCounterArena \<Rightarrow> bool" where
  "tenant_in_range tenantID windowIdx a \<longleftrightarrow>
     \<not> (uint tenantID \<ge> maxTenants a \<or> windowIdx < 0 \<or> windowIdx \<ge> numWindows a)"

definition tenant_slot :: "u16 \<Rightarrow> int \<Rightarrow> TenantCounterArena \<Rightarrow> int" where
  "tenant_slot tenantID windowIdx a = uint tenantID * numWindows a + windowIdx"

definition tenant_Increment ::
  "u16 \<Rightarrow> int \<Rightarrow> u32 \<Rightarrow> u32 \<Rightarrow> TenantCounterArena \<Rightarrow> ((bool \<times> u32) \<times> TenantCounterArena) go" where
  "tenant_Increment tenantID windowIdx epoch limit a =
     (if limit = 0 then Inr ((False, 0), a)
      else if \<not> tenant_in_range tenantID windowIdx a then Inr ((True, 0), a)
      else andThen (on_slot (counterEpochCAS_body limit epoch) (tenant_slot tenantID windowIdx a) (ta_slots a))
             (\<lambda>(r, s). Inr (r, a\<lparr>ta_slots := s\<rparr>)))"

definition tenant_IncrementBy ::
  "u16 \<Rightarrow> int \<Rightarrow> u32 \<Rightarrow> u32 \<Rightarrow> u32 \<Rightarrow> TenantCounterArena \<Rightarrow> ((bool \<times> u32) \<times> TenantCounterArena) go" where
  "tenant_IncrementBy tenantID windowIdx epoch limit delta a =
     (if limit = 0 then Inr ((False, 0), a)
      else if \<not> tenant_in_range tenantID windowIdx a then Inr ((True, 0), a)
      else andThen (on_slot (counterEpochCASBy_body limit delta epoch) (tenant_slot tenantID windowIdx a) (ta_slots a))
             (\<lambda>(r, s). Inr (r, a\<lparr>ta_slots := s\<rparr>)))"

definition tenant_ReadCurrent :: "u16 \<Rightarrow> int \<Rightarrow> u32 \<Rightarrow> TenantCounterArena \<Rightarrow> u32 go" where
  "tenant_ReadCurrent tenantID windowIdx epoch a =
     (if \<not> tenant_in_range tenantID windowIdx a then Inr 0
      else andThen (idx (ta_slots a) (tenant_slot tenantID windowIdx a)) (\<lambda>packed.
             Inr (if epoch_of packed \<noteq> epoch then 0 else ucast packed)))"

record SlotCounterArena =
  sa_slots :: "u64 list"
  sa_mask :: u32

definition NewSlotCounterArena :: "int \<Rightarrow> SlotCounterArena" where
  "NewSlotCounterArena sz =
     (let n = nextPow2 (if sz < 1024 then 1024 else sz)
      in \<lparr>sa_slots = replicate (nat n) 0, sa_mask = word_of_int (n - 1)\<rparr>)"

definition slot_index :: "bytes \<Rightarrow> int \<Rightarrow> SlotCounterArena \<Rightarrow> u32" where
  "slot_index keyBytes windowIdx a =
     (arenaFNV32a keyBytes XOR (word_of_int windowIdx * 2654435761)) AND sa_mask a"

definition slot_Increment ::
  "bytes \<Rightarrow> int \<Rightarrow> u32 \<Rightarrow> u32 \<Rightarrow> SlotCounterArena \<Rightarrow> ((bool \<times> u32) \<times> SlotCounterArena) go" where
  "slot_Increment keyBytes windowIdx epoch limit a =
     (if limit = 0 then Inr ((False, 0), a)
      else andThen (on_slot (counterEpochCAS_body limit epoch) (uint (slot_index keyBytes windowIdx a)) (sa_slots a))
             (\<lambda>(r, s). Inr (r, a\<lparr>sa_slots := s\<rparr>)))"

definition slot_IncrementBy ::
  "bytes \<Rightarrow> int \<Rightarrow> u32 \<Rightarrow> u32 \<Rightarrow> u32 \<Rightarrow> SlotCounterArena \<Rightarrow> ((bool \<times> u32) \<times> SlotCounterArena) go" where
  "slot_IncrementBy keyBytes windowIdx epoch limit delta a =
     (if limit = 0 then Inr ((False, 0), a)
      else andThen (on_slot (counterEpochCASBy_body limit delta epoch) (uint (slot_index keyBytes windowIdx a)) (sa_slots a))
             (\<lambda>(r, s). Inr (r, a\<lparr>sa_slots := s\<rparr>)))"

definition slot_ReadCurrent :: "bytes \<Rightarrow> int \<Rightarrow> u32 \<Rightarrow> SlotCounterArena \<Rightarrow> u32 go" where
  "slot_ReadCurrent keyBytes windowIdx epoch a =
     andThen (idx (sa_slots a) (uint (slot_index keyBytes windowIdx a))) (\<lambda>packed.
       Inr (if epoch_of packed \<noteq> epoch then 0 else ucast packed))"

record ConfigCounterRegistry =
  tenantArenas :: "TenantCounterArena option list"
  slotArenas :: "SlotCounterArena option list"
  cap :: int

definition NewConfigCounterRegistry :: "int \<Rightarrow> ConfigCounterRegistry" where
  "NewConfigCounterRegistry maxConfigs =
     (let n = (if maxConfigs \<le> 0 then 256 else maxConfigs)
      in \<lparr>tenantArenas = replicate (nat n) None, slotArenas = replicate (nat n) None, cap = n\<rparr>)"

definition RegisterTenantConfig :: "u16 \<Rightarrow> int \<Rightarrow> int \<Rightarrow> ConfigCounterRegistry \<Rightarrow> ConfigCounterRegistry" where
  "RegisterTenantConfig configID nw mt r =
     (if uint configID \<ge> cap r \<or> tenantArenas r ! unat configID \<noteq> None then r
      else r\<lparr>tenantArenas := (tenantArenas r)[unat configID :=
                 Some (NewTenantCounterArena (if mt = 0 then 65536 else mt) nw)]\<rparr>)"

definition RegisterSlotConfig :: "u16 \<Rightarrow> int \<Rightarrow> ConfigCounterRegistry \<Rightarrow> ConfigCounterRegistry" where
  "RegisterSlotConfig configID arenaSize r =
     (if uint configID \<ge> cap r \<or> slotArenas r ! unat configID \<noteq> None then r
      else r\<lparr>slotArenas := (slotArenas r)[unat configID :=
                 Some (NewSlotCounterArena (if arenaSize = 0 then 65536 else arenaSize))]\<rparr>)"

definition TenantArena :: "u16 \<Rightarrow> ConfigCounterRegistry \<Rightarrow> TenantCounterArena option" where
  "TenantArena configID r = (if uint configID \<ge> cap r then None else tenantArenas r ! unat configID)"

definition SlotArena :: "u16 \<Rightarrow> ConfigCounterRegistry \<Rightarrow> SlotCounterArena option" where
  "SlotArena configID r = (if uint configID \<ge> cap r then None else slotArenas r ! unat configID)"

subsection \<open>Upstream limiters\<close>

record UpstreamRateWindow =
  EpochDiv :: u32
  uw_Limit :: u32
  uw_slot :: u64

type_synonym UpstreamRateLimiter = "UpstreamRateWindow list"

fun Allow :: "u32 \<Rightarrow> UpstreamRateLimiter \<Rightarrow> (bool \<times> UpstreamRateLimiter) go" where
  "Allow now [] = Inr (True, [])"
| "Allow now (w # ws) =
     (if EpochDiv w = 0 then Inl DivideByZero
      else
        let (v, ok) = cas_run (upstreamEpochAllow_body (uw_Limit w) (now div EpochDiv w)) (uw_slot w);
            w' = w\<lparr>uw_slot := v\<rparr>
        in if \<not> ok then Inr (False, w' # ws)
           else andThen (Allow now ws) (\<lambda>(b, ws'). Inr (b, w' # ws')))"

definition UpstreamWindowFromWindow :: "string \<Rightarrow> u32 \<Rightarrow> UpstreamRateWindow" where
  "UpstreamWindowFromWindow window limit =
     \<lparr>EpochDiv = (if window = ''second'' then 1 else if window = ''hour'' then 3600
                  else if window = ''day'' then 86400 else 60),
      uw_Limit = limit, uw_slot = 0\<rparr>"

type_synonym upstream_limits = "string \<rightharpoonup> UpstreamRateLimiter"

definition RegisterUpstreamLimit :: "string \<Rightarrow> UpstreamRateWindow list \<Rightarrow> upstream_limits \<Rightarrow> upstream_limits" where
  "RegisterUpstreamLimit key windows m =
     (if length windows = 0 then m
      else case m key of Some _ \<Rightarrow> m | None \<Rightarrow> m(key \<mapsto> take 4 windows))"

definition CheckUpstreamLimit :: "u32 \<Rightarrow> string \<Rightarrow> upstream_limits \<Rightarrow> (bool \<times> upstream_limits) go" where
  "CheckUpstreamLimit now key m =
     (case m key of
        None \<Rightarrow> Inr (True, m)
      | Some u \<Rightarrow> andThen (Allow now u) (\<lambda>(b, u'). Inr (b, m(key \<mapsto> u'))))"

definition windowName :: "u32 \<Rightarrow> string" where
  "windowName d = (if d = 1 then ''second'' else if d = 3600 then ''hour''
                   else if d = 86400 then ''day'' else ''minute'')"

fun exhausted_window :: "u32 \<Rightarrow> UpstreamRateLimiter \<Rightarrow> (string \<times> u32 \<times> u32) option go" where
  \<comment> \<open>the first window that is full: its name, count and limit, the three parts of the detail string\<close>
  "exhausted_window now [] = Inr None"
| "exhausted_window now (w # ws) =
     (if EpochDiv w = 0 then Inl DivideByZero
      else
        let epoch = now div EpochDiv w;
            cnt = (if epoch_of (uw_slot w) = epoch then count_of (uw_slot w) else 0)
        in if cnt \<ge> uw_Limit w then Inr (Some (windowName (EpochDiv w), cnt, uw_Limit w))
           else exhausted_window now ws)"

definition CheckUpstreamLimitWithDetail ::
  "u32 \<Rightarrow> string \<Rightarrow> upstream_limits \<Rightarrow> (((string \<times> u32 \<times> u32) option \<times> bool) \<times> upstream_limits) go" where
  "CheckUpstreamLimitWithDetail now key m =
     (case m key of
        None \<Rightarrow> Inr ((None, True), m)
      | Some u \<Rightarrow>
          andThen (exhausted_window now u) (\<lambda>d.
            case d of
              Some detail \<Rightarrow> Inr ((Some detail, False), m)
            | None \<Rightarrow> andThen (Allow now u) (\<lambda>(b, u'). Inr ((None, b), m(key \<mapsto> u')))))"

record UpstreamCostWindow =
  cw_epochDiv :: u32
  limitMicro :: u32
  cw_slot :: u64

definition cost_body :: "u32 \<Rightarrow> u32 \<Rightarrow> u32 \<Rightarrow> u64 \<Rightarrow> (u64, bool) cas_step" where
  \<comment> \<open>\<open>costMicro\<close> is the cost already converted to micro-dollars\<close>
  "cost_body limit now costMicro old =
     (let newVal = (if epoch_of old \<noteq> now then push_bit 32 (ucast now) OR ucast costMicro
                    else push_bit 32 (ucast now) OR ucast (count_of old + costMicro))
      in Cas newVal (count_of newVal > limit))"

definition window_Record :: "u32 \<Rightarrow> u32 \<Rightarrow> UpstreamCostWindow \<Rightarrow> (bool \<times> UpstreamCostWindow) go" where
  "window_Record unix costMicro w =
     (if cw_epochDiv w = 0 then Inl DivideByZero
      else
        let (v, r) = cas_run (cost_body (limitMicro w) (unix div cw_epochDiv w) costMicro) (cw_slot w)
        in Inr (r, w\<lparr>cw_slot := v\<rparr>))"

fun limiter_Record ::
  "u32 \<Rightarrow> u32 \<Rightarrow> UpstreamCostWindow option list \<Rightarrow> (bool \<times> UpstreamCostWindow option list) go" where
  "limiter_Record unix costMicro [] = Inr (False, [])"
| "limiter_Record unix costMicro (None # ws) =
     andThen (limiter_Record unix costMicro ws) (\<lambda>(b, ws'). Inr (b, None # ws'))"
| "limiter_Record unix costMicro (Some w # ws) =
     andThen (window_Record unix costMicro w) (\<lambda>(x, w').
       andThen (limiter_Record unix costMicro ws) (\<lambda>(b, ws'). Inr (x \<or> b, Some w' # ws')))"

definition UpstreamCostWindowFromWindow :: "string \<Rightarrow> u32 \<Rightarrow> UpstreamCostWindow option" where
  \<comment> \<open>\<open>limit\<close> is the limit already converted to micro-dollars\<close>
  "UpstreamCostWindowFromWindow window limit =
     (let mk = (\<lambda>d. Some \<lparr>cw_epochDiv = d, limitMicro = limit, cw_slot = 0\<rparr>)
      in if window = ''second'' then mk 1 else if window = ''minute'' then mk 60
         else if window = ''hour'' then mk 3600 else if window = ''day'' then mk 86400 else None)"

type_synonym cost_limits = "string \<rightharpoonup> UpstreamCostWindow option list"

definition RegisterModelCostLimit :: "string \<Rightarrow> UpstreamCostWindow option list \<Rightarrow> cost_limits \<Rightarrow> cost_limits" where
  \<comment> \<open>the first \<open>Count\<close> entries of the limiter's array, as a list\<close>
  "RegisterModelCostLimit alias windows m =
     (if length windows = 0 then m
      else case m alias of Some _ \<Rightarrow> m | None \<Rightarrow> m(alias \<mapsto> take 4 windows))"

definition GetModelCostLimiter :: "string \<Rightarrow> cost_limits \<Rightarrow> UpstreamCostWindow option list option" where
  "GetModelCostLimiter alias m = m alias"

subsection \<open>Spike arrest\<close>

definition fnv64a :: "bytes \<Rightarrow> u64" where
  "fnv64a b = foldl (\<lambda>h c. (h XOR ucast c) * 1099511628211) 14695981039346656037 b"

record spikeArrestKey =
  flowID :: u32
  sk_tenantID :: u16
  keyHash :: u64

definition spike_body :: "int \<Rightarrow> int \<Rightarrow> int \<Rightarrow> (int, bool) cas_step" where
  "spike_body intervalNs now lastNs =
     (if i64 (now - lastNs) < intervalNs then Done False else Cas now True)"

definition spike_Allow ::
  "int \<Rightarrow> spikeArrestKey \<Rightarrow> int \<Rightarrow> (spikeArrestKey \<rightharpoonup> int) \<Rightarrow> bool \<times> (spikeArrestKey \<rightharpoonup> int)" where
  "spike_Allow now key intervalNs m =
     (let (v, r) = cas_run (spike_body intervalNs now) (case m key of None \<Rightarrow> 0 | Some t \<Rightarrow> t)
      in (r, m(key \<mapsto> v)))"

end
