(* ===== verification/Rah_Counters_Laws.thy ===== *)
theory Rah_Counters_Laws
  imports Rah_Counters
begin

text \<open>
  Laws of the rate-limit counters of \<open>Rah_Counters\<close>. The interface \<open>window_counter\<close> states what a
  packed window counter promises to its callers and derives the number of requests admitted under
  concurrency; it is interpreted on the three compare-and-swap loops of the source. The other lemmas treat weighted
  counters, the token bucket, spike arrest and the two arenas, and the wrap-arounds of their 32-bit arithmetic.
\<close>

unbundle bit_operations_syntax

subsection \<open>The word layout\<close>

lemma pack_eqs: "push_bit 32 (ucast e) OR 1 = pack e 1"
  by (simp add: pack_def)

lemma low32: "(w :: u64) AND 0xFFFFFFFF = take_bit 32 w"
proof -
  have "(0xFFFFFFFF :: u64) = mask 32" by (simp add: mask_eq_exp_minus_1)
  then show ?thesis by (simp only: take_bit_eq_mask)
qed

lemma unat_count_of: "unat (count_of w) = unat w mod 2 ^ 32"
  by (simp only: count_of_def low32 unsigned_ucast_eq unsigned_take_bit_eq) (simp add: take_bit_eq_mod)

lemma unat_epoch_of: "unat (epoch_of w) = unat w div 2 ^ 32"
proof -
  have "unat w div 2 ^ 32 < 2 ^ 32" using unsigned_less [of w, where ?'a = nat] by (simp add: less_mult_imp_div_less)
  then show ?thesis
    by (simp only: epoch_of_def unsigned_ucast_eq unat_drop_bit_eq) (simp add: take_bit_eq_mod drop_bit_eq_div)
qed

lemma unat_pack: "unat (pack e n) = unat e * 2 ^ 32 + unat n"
proof -
  have d: "push_bit 32 (ucast e :: u64) AND ucast n = 0"
    by (rule bit_eqI) (auto simp: bit_simps dest: bit_imp_le_length)
  have "pack e n = push_bit 32 (ucast e) + ucast n"
    using d by (simp add: pack_def disjunctive_add_eq_or)
  moreover have "unat (push_bit 32 (ucast e :: u64)) = unat e * 2 ^ 32"
    using unsigned_less [of e, where ?'a = nat] by (simp only: unsigned_push_bit_eq unsigned_ucast_eq) (simp add: push_bit_eq_mult take_bit_eq_mod)
  ultimately show ?thesis
    using unsigned_less [of e, where ?'a = nat] unsigned_less [of n, where ?'a = nat]
    by (simp add: unat_word_ariths unsigned_ucast_eq take_bit_eq_mod)
qed

lemma epoch_of_pack [simp]: "epoch_of (pack e n) = e"
  using unsigned_less [of n, where ?'a = nat]
  by (simp only: word_eq_iff_unsigned [where ?'a = nat] unat_epoch_of unat_pack) simp

lemma count_of_pack [simp]: "count_of (pack e n) = n"
  using unsigned_less [of n, where ?'a = nat]
  by (simp only: word_eq_iff_unsigned [where ?'a = nat] unat_count_of unat_pack) simp

lemma pack_epoch_count [simp]: "pack (epoch_of w) (count_of w) = w"
  by (simp only: word_eq_iff_unsigned [where ?'a = nat] unat_pack unat_epoch_of unat_count_of) (simp add: mult.commute)

lemma pack_Suc: "n < m \<Longrightarrow> pack e n + 1 = pack e (n + 1)"
proof -
  assume "n < (m :: u32)"
  then have "unat n + 1 < 2 ^ 32" using unsigned_less [of m, where ?'a = nat] by (simp add: word_less_nat_alt)
  then have n1: "unat (n + 1) = unat n + 1" by (simp add: unat_word_ariths)
  have "unat e * 2 ^ 32 + unat n + 1 < 2 ^ 64"
    using \<open>unat n + 1 < 2 ^ 32\<close> unsigned_less [of e, where ?'a = nat] by simp
  then show ?thesis
    by (simp only: word_eq_iff_unsigned [where ?'a = nat] unat_pack n1 unat_word_ariths(1) [of "pack e n" 1]) simp
qed

lemma ucast_count: "(ucast w :: u32) = count_of w"
  by (simp add: word_eq_iff_unsigned [where ?'a = nat] unat_count_of unsigned_ucast_eq take_bit_eq_mod)

subsection \<open>Fixed windows\<close>

text \<open>
  The contract of a fixed-window counter, as its users rely on it: a request whose window is not the
  stored one starts the window with count 1; within the window it is admitted while the count is below
  the limit, and the count goes up by one; otherwise it is refused and the word stays as it is. The locale
  shows what the contract gives under interference.
\<close>

locale window_counter =
  fixes body :: "u32 \<Rightarrow> u32 \<Rightarrow> u64 \<Rightarrow> (u64, 'r) cas_step"
    and admitted :: "'r \<Rightarrow> bool"
  assumes new_window: "0 < limit \<Longrightarrow> epoch_of v \<noteq> e \<Longrightarrow>
      \<exists>r. body limit e v = Cas (pack e 1) r \<and> admitted r"
    and below_limit: "0 < limit \<Longrightarrow> epoch_of v = e \<Longrightarrow> count_of v < limit \<Longrightarrow>
      \<exists>r. body limit e v = Cas (pack e (count_of v + 1)) r \<and> admitted r"
    and at_limit: "0 < limit \<Longrightarrow> epoch_of v = e \<Longrightarrow> limit \<le> count_of v \<Longrightarrow>
      \<exists>r. body limit e v = Done r \<and> \<not> admitted r"
begin

definition used :: "u32 \<Rightarrow> u64 \<Rightarrow> nat" where
  "used e v = (if epoch_of v = e then unat (count_of v) else 0)"

lemma step_cases:
  assumes "0 < limit"
  shows "epoch_of (fst (cas_run (body limit e) v)) = e"
    and "admitted (snd (cas_run (body limit e) v)) \<longleftrightarrow> used e v < unat limit"
    and "used e (fst (cas_run (body limit e) v)) = (if used e v < unat limit then used e v + 1 else used e v)"
proof -
  have "epoch_of (fst (cas_run (body limit e) v)) = e \<and>
    (admitted (snd (cas_run (body limit e) v)) \<longleftrightarrow> used e v < unat limit) \<and>
    used e (fst (cas_run (body limit e) v)) = (if used e v < unat limit then used e v + 1 else used e v)"
  proof (cases "epoch_of v = e")
    case False
    then obtain r where "body limit e v = Cas (pack e 1) r" "admitted r" using new_window assms by blast
    then show ?thesis using False assms by (simp add: used_def word_less_nat_alt)
  next
    case True
    show ?thesis
    proof (cases "count_of v < limit")
      case lt: True
      then obtain r where "body limit e v = Cas (pack e (count_of v + 1)) r" "admitted r"
        using below_limit assms True by blast
      moreover have "unat (count_of v + 1) = unat (count_of v) + 1"
        using lt unsigned_less [of limit, where ?'a = nat] by (simp add: word_less_nat_alt unat_word_ariths)
      ultimately show ?thesis using True lt by (simp add: used_def word_less_nat_alt)
    next
      case False
      then obtain r where "body limit e v = Done r" "\<not> admitted r"
        using at_limit [of limit v e] assms True by (auto simp: not_less)
      then show ?thesis using True False by (simp add: used_def word_less_nat_alt)
    qed
  qed
  then show "epoch_of (fst (cas_run (body limit e) v)) = e"
    and "admitted (snd (cas_run (body limit e) v)) \<longleftrightarrow> used e v < unat limit"
    and "used e (fst (cas_run (body limit e) v)) = (if used e v < unat limit then used e v + 1 else used e v)"
    by simp_all
qed

lemma used_other: "0 < limit \<Longrightarrow> e \<noteq> e' \<Longrightarrow> used e (fst (cas_run (body limit e') v)) = 0"
  using step_cases(1) [of limit e' v] by (simp add: used_def del: cas_run.simps)

lemma admitted_while_below:
  assumes "0 < limit" "used e v + n \<le> unat limit"
  shows "map admitted (snd (cas_runs (map (body limit) (replicate n e)) v)) = replicate n True"
  using assms
proof (induction n arbitrary: v)
  case (Suc n)
  let ?v = "fst (cas_run (body limit e) v)"
  have "used e ?v + n \<le> unat limit" "admitted (snd (cas_run (body limit e) v))"
    using step_cases(2,3) [OF assms(1), of e v] Suc.prems by (simp_all del: cas_run.simps)
  then show ?case using Suc.IH [of ?v] assms(1) by (simp add: split_beta Let_def del: cas_run.simps)
qed simp

lemma interrupted_window:
  assumes "0 < limit" "e' \<noteq> e" "epoch_of v \<noteq> e"
  shows "map admitted (snd (cas_runs (map (body limit) (replicate (unat limit) e @ [e'] @ replicate (unat limit) e)) v)) =
    replicate (2 * unat limit + 1) True"
proof -
  let ?n = "unat limit"
  let ?v1 = "fst (cas_runs (map (body limit) (replicate ?n e)) v)"
  let ?v2 = "fst (cas_run (body limit e') ?v1)"
  have n: "0 < ?n" using assms(1) by (simp add: word_less_nat_alt)
  have zero: "used e v = 0" using assms(3) by (simp add: used_def)
  have ep: "epoch_of ?v1 = e"
  proof -
    have "replicate ?n e = replicate (?n - 1) e @ [e]" using n by (metis Suc_diff_1 replicate_append_same replicate_Suc)
    then show ?thesis
      using step_cases(1) [OF assms(1), of e] by (simp add: cas_runs_snoc split_beta Let_def del: cas_run.simps)
  qed
  have late: "admitted (snd (cas_run (body limit e') ?v1))"
    using step_cases(2) [OF assms(1), of e' ?v1] ep assms(2) n by (simp add: used_def del: cas_run.simps)
  have "used e ?v2 = 0" using used_other [OF assms(1), of e e' ?v1] assms(2) by (simp del: cas_run.simps)
  then have "map admitted (snd (cas_runs (map (body limit) (replicate ?n e)) ?v2)) = replicate ?n True"
    "map admitted (snd (cas_runs (map (body limit) (replicate ?n e)) v)) = replicate ?n True"
    using admitted_while_below [OF assms(1)] zero by simp_all
  moreover have "replicate ?n True @ True # replicate ?n True = replicate (2 * ?n + 1) True"
    by (simp add: mult_2 replicate_add replicate_app_Cons_same)
  ultimately show ?thesis
    using late by (simp add: cas_runs_append split_beta Let_def del: cas_run.simps map_replicate)
qed

text \<open>Requests in the order in which they take effect, with windows that never go back.\<close>

lemma admitted_in_window:
  assumes "0 < limit" "sorted es" "\<forall>e' \<in> set es. epoch_of v \<le> e'"
  shows "length (filter (\<lambda>(e', r). e' = e \<and> admitted r) (zip es (snd (cas_runs (map (body limit) es) v)))) =
    min (count_list es e) (unat limit - used e v)"
  using assms
proof (induction es arbitrary: v)
  case Nil
  then show ?case by simp
next
  case (Cons e' es)
  let ?v = "fst (cas_run (body limit e') v)" and ?r = "snd (cas_run (body limit e') v)"
  have ep: "epoch_of ?v = e'" using step_cases(1) [OF assms(1)] .
  have IH: "length (filter (\<lambda>(e', r). e' = e \<and> admitted r) (zip es (snd (cas_runs (map (body limit) es) ?v)))) =
      min (count_list es e) (unat limit - used e ?v)"
    using Cons.IH [of ?v] Cons.prems ep by auto
  have runs: "snd (cas_runs (map (body limit) (e' # es)) v) = ?r # snd (cas_runs (map (body limit) es) ?v)"
    by (simp add: split_beta Let_def del: cas_run.simps)
  show ?case
  proof (cases "e' = e")
    case True
    then show ?thesis
      using IH runs step_cases(2,3) [OF assms(1), of e v] by (auto simp del: cas_run.simps cas_runs.simps)
  next
    case False
    have "used e v = 0 \<or> count_list es e = 0"
      using Cons.prems False by (auto simp: used_def count_list_0_iff)
    then show ?thesis
      using IH runs False used_other [OF assms(1), of e e' v] by (auto simp del: cas_run.simps cas_runs.simps)
  qed
qed

text \<open>The same for any number of goroutines and every interleaving of their loads and swaps.\<close>

lemma concurrent_admissions:
  assumes "cas_reach (\<lambda>i. body limit (ep i)) v0 (v, pc, h)" "0 < limit"
    and "sorted (map ep h)" "\<forall>i \<in> set h. epoch_of v0 < ep i"
  shows "card {i. ep i = e \<and> (\<exists>r. pc i = Returned r \<and> admitted r)} = min (count_list (map ep h) e) (unat limit)"
proof -
  let ?rs = "snd (cas_runs (map (body limit) (map ep h)) v0)"
  have rs: "?rs = snd (cas_runs (map (\<lambda>i. body limit (ep i)) h) v0)" by (simp add: comp_def)
  have "{i. ep i = e \<and> (\<exists>r. pc i = Returned r \<and> admitted r)} =
      {i. \<exists>r. pc i = Returned r \<and> ep i = e \<and> admitted r}" by blast
  then have "card {i. ep i = e \<and> (\<exists>r. pc i = Returned r \<and> admitted r)} =
      card {k. k < length h \<and> ep (h ! k) = e \<and> admitted (?rs ! k)}"
    using card_Returned_index [OF assms(1), of "\<lambda>i r. ep i = e \<and> admitted r"] rs by simp
  also have "\<dots> = length (filter (\<lambda>(e', r). e' = e \<and> admitted r) (zip (map ep h) ?rs))"
    by (simp add: length_filter_conv_card cong: conj_cong)
  also have "\<dots> = min (count_list (map ep h) e) (unat limit - used e v0)"
    using admitted_in_window [OF assms(2,3), of v0 e] assms(4) by (auto simp: less_imp_le)
  finally show ?thesis
    using assms(4) by (cases "e \<in> set (map ep h)") (auto simp: used_def count_list_0_iff)
qed

end

lemmas window_body_defs =
  FixedWindowEpoch_body_def counterEpochCAS_body_def upstreamEpochAllow_body_def pack_eqs

lemma word_Suc_pack: "count_of v < limit \<Longrightarrow> v + 1 = pack (epoch_of v) (count_of v + 1)"
  by (metis pack_Suc pack_epoch_count)

interpretation fixed_window: window_counter FixedWindowEpoch_body fst
proof
  fix limit e :: u32 and v :: u64
  assume "0 < limit" "epoch_of v = e" "count_of v < limit"
  then show "\<exists>r. FixedWindowEpoch_body limit e v = Cas (pack e (count_of v + 1)) r \<and> fst r"
    using word_Suc_pack [of v limit] by (auto simp: window_body_defs Let_def not_le)
qed (auto simp: window_body_defs)

interpretation arena_counter: window_counter counterEpochCAS_body fst
proof
  fix limit e :: u32 and v :: u64
  assume "0 < limit" "epoch_of v = e" "count_of v < limit"
  then show "\<exists>r. counterEpochCAS_body limit e v = Cas (pack e (count_of v + 1)) r \<and> fst r"
    using word_Suc_pack [of v limit] by (auto simp: window_body_defs Let_def not_le)
qed (auto simp: window_body_defs)

interpretation upstream_counter: window_counter upstreamEpochAllow_body "\<lambda>b. b"
proof
  fix limit e :: u32 and v :: u64
  assume "0 < limit" "epoch_of v = e" "count_of v < limit"
  then show "\<exists>r. upstreamEpochAllow_body limit e v = Cas (pack e (count_of v + 1)) r \<and> r"
    using word_Suc_pack [of v limit] by (auto simp: window_body_defs not_le)
qed (auto simp: window_body_defs)

text \<open>C6. However many requests race on one counter of an arena, and however their loads and swaps interleave, provided the
  requests take effect in the order of their windows, none of which is the window the counter starts with or an earlier one, and
  the limit is not 0: the number admitted in a window is the smaller of the number of
  requests of that window that have taken effect and the limit, so the limit is never exceeded and no request is refused
  early. Where requests of different windows take effect out of order the limit does not hold.\<close>

theorem counter_window_limit:
  assumes "cas_reach (\<lambda>i. counterEpochCAS_body limit (ep i)) v0 (v, pc, h)" "0 < limit"
    and "sorted (map ep h)" "\<forall>i \<in> set h. epoch_of v0 < ep i"
  shows "card {i. ep i = e \<and> (\<exists>r. pc i = Returned r \<and> fst r)} = min (count_list (map ep h) e) (unat limit)"
  by (rule arena_counter.concurrent_admissions [OF assms])

theorem counter_window_limit_witness:
  "\<exists>v pc. cas_reach (\<lambda>i. counterEpochCAS_body 2 7) 0 (v, pc, [0, 1, 2]) \<and>
     card {i. (7 :: u32) = 7 \<and> (\<exists>r. pc i = Returned r \<and> fst r)} = 2"
proof -
  obtain pc where "cas_reach (\<lambda>i. counterEpochCAS_body 2 7) 0
      (fst (cas_runs (map (\<lambda>i. counterEpochCAS_body 2 7) [0, 1, 2 :: nat]) 0), pc, [0, 1, 2])"
    using cas_reach_sequential [of "[0, 1, 2 :: nat]" "\<lambda>i. counterEpochCAS_body 2 7" 0] by auto
  moreover from this have "card {i. (7 :: u32) = 7 \<and> (\<exists>r. pc i = Returned r \<and> fst r)} = 2"
    using counter_window_limit [of 2 "\<lambda>_. 7" 0 _ pc "[0, 1, 2]" 7] by (simp add: epoch_of_def)
  ultimately show ?thesis by blast
qed

text \<open>C30. The limit fails when a request of another window takes effect in between: it resets the word to its own window,
  and the next request of the current window starts counting from one again. For every limit but 0 and every two windows, on
  a counter that does not stand in the first of them, as many requests of the first window as the limit allows, then one late
  request of the other, then once more as many of the first are all admitted: twice the limit in one window.\<close>

theorem late_request_resets_window:
  assumes "0 < limit" "e' \<noteq> e" "epoch_of v \<noteq> e"
  shows "map fst (snd (cas_runs (map (counterEpochCAS_body limit)
      (replicate (unat limit) e @ [e'] @ replicate (unat limit) e)) v)) = replicate (2 * unat limit + 1) True"
  by (rule arena_counter.interrupted_window [OF assms])

theorem late_request_resets_window_witness:
  "map fst (snd (cas_runs (map (counterEpochCAS_body 2) [6, 6, 5, 6, 6]) 0)) = [True, True, True, True, True]"
proof -
  have es: "replicate (unat (2 :: u32)) 6 @ [5] @ replicate (unat (2 :: u32)) 6 = [6, 6, 5, 6, 6 :: u32]"
    "replicate (2 * unat (2 :: u32) + 1) True = [True, True, True, True, True]" by code_simp+
  have "(0 :: u32) < 2" "(5 :: u32) \<noteq> 6" "epoch_of 0 \<noteq> 6" by (simp_all add: epoch_of_def)
  from late_request_resets_window [OF this] show ?thesis by (simp only: es)
qed

subsection \<open>Weighted windows\<close>






text \<open>Without that proviso the limit fails: the sum of count and weight wraps. A counter with limit 10 that stands at 5
  admits a request of weight 2^32 - 1 and stands at 4 afterwards.\<close>

theorem weighted_counter_wraps:
  "cas_run (counterEpochCASBy_body 10 0xFFFFFFFF 7) (pack 7 5) = (pack 7 4, (True, 6))"
  by code_simp

subsection \<open>Token bucket\<close>

lemma TokenBucket_step:
  assumes "epoch_of v \<le> now" "unat burst + (unat now - unat (epoch_of v)) * unat rate < 2 ^ 32" "count_of v \<le> burst"
  shows "let (v', r) = cas_run (TokenBucket_body rate burst now) v in
    count_of v' \<le> burst \<and> epoch_of v' \<le> now \<and> epoch_of v \<le> epoch_of v' \<and>
    unat (count_of v') + (if fst r then 1 else 0)
      \<le> unat (count_of v) + (unat (epoch_of v') - unat (epoch_of v)) * unat rate"
proof -
  let ?el = "now - epoch_of v"
  have el: "unat ?el = unat now - unat (epoch_of v)" using assms(1) by (simp add: unat_sub)
  have mul: "unat (?el * rate) = unat ?el * unat rate"
    using assms(2) el by (simp add: unat_word_ariths)
  have tok: "unat (count_of v + ?el * rate) = unat (count_of v) + unat ?el * unat rate"
    using assms(2,3) el mul by (simp add: unat_word_ariths word_le_nat_alt)
  define nt where "nt = min (count_of v + ?el * rate) burst"
  have nt: "unat nt \<le> unat (count_of v) + unat ?el * unat rate" "nt \<le> burst"
    using tok by (auto simp: nt_def min_def word_le_nat_alt)
  show ?thesis
  proof (cases "nt < 1")
    case True
    then show ?thesis using assms by (simp add: TokenBucket_body_def Let_def flip: nt_def)
  next
    case False
    then have "unat (nt - 1) = unat nt - 1" "1 \<le> unat nt"
      by (simp_all add: word_less_nat_alt unat_sub word_le_nat_alt)
    then show ?thesis
      using False nt assms el by (simp add: TokenBucket_body_def Let_def word_le_nat_alt flip: nt_def pack_def)
  qed
qed

lemma TokenBucket_runs:
  assumes "sorted (map unat ts)" "\<forall>t \<in> set ts. epoch_of v \<le> t \<and> t \<le> tmax"
    and "epoch_of v \<le> tmax" "count_of v \<le> burst"
    and "unat burst + (unat tmax - unat (epoch_of v)) * unat rate < 2 ^ 32"
  shows "length (filter fst (snd (cas_runs (map (TokenBucket_body rate burst) ts) v)))
    \<le> unat (count_of v) + (unat tmax - unat (epoch_of v)) * unat rate"
  using assms
proof (induction ts arbitrary: v)
  case Nil
  then show ?case by simp
next
  case (Cons t ts)
  obtain v' r where run: "cas_run (TokenBucket_body rate burst t) v = (v', r)" by (metis surj_pair)
  have t: "epoch_of v \<le> t" "t \<le> tmax" using Cons.prems by auto
  have "(unat t - unat (epoch_of v)) * unat rate \<le> (unat tmax - unat (epoch_of v)) * unat rate"
    using t by (intro mult_right_mono) (simp_all add: word_le_nat_alt)
  then have bnd: "unat burst + (unat t - unat (epoch_of v)) * unat rate < 2 ^ 32"
    using Cons.prems(5) by linarith
  have step: "count_of v' \<le> burst" "epoch_of v' \<le> t" "epoch_of v \<le> epoch_of v'"
    "unat (count_of v') + (if fst r then 1 else 0)
      \<le> unat (count_of v) + (unat (epoch_of v') - unat (epoch_of v)) * unat rate"
    using TokenBucket_step [OF t(1) bnd Cons.prems(4)] run by (simp_all del: cas_run.simps)
  have split: "(unat tmax - unat (epoch_of v)) * unat rate =
      (unat (epoch_of v') - unat (epoch_of v)) * unat rate + (unat tmax - unat (epoch_of v')) * unat rate"
    using step(2,3) t by (simp add: word_le_nat_alt flip: add_mult_distrib)
  have "length (filter fst (snd (cas_runs (map (TokenBucket_body rate burst) ts) v')))
      \<le> unat (count_of v') + (unat tmax - unat (epoch_of v')) * unat rate"
  proof (rule Cons.IH)
    show "\<forall>t \<in> set ts. epoch_of v' \<le> t \<and> t \<le> tmax"
      using Cons.prems(1,2) step(2) by (force simp: word_le_nat_alt)
    show "unat burst + (unat tmax - unat (epoch_of v')) * unat rate < 2 ^ 32"
      using Cons.prems(5) split by linarith
  qed (use Cons.prems step t in auto)
  then show ?case
    using step(4) split run
    by (auto simp: split_beta Let_def simp del: cas_run.simps split: if_splits)
qed


text \<open>C26. From a bucket that holds at most the burst, the requests admitted up to time \<open>tmax\<close> number at most the
  tokens in the bucket plus the refill rate times the seconds from its last refill to \<open>tmax\<close>, however the loads and swaps of the
  racing requests interleave, provided their clock readings are between the last refill and \<open>tmax\<close> and never
  decrease in the order in which the requests take effect, and burst plus refill stays below 2^32.\<close>

theorem token_bucket_bound:
  assumes "cas_reach (\<lambda>i. TokenBucket_body rate burst (now i)) v0 (v, pc, h)"
    and "sorted (map (\<lambda>i. unat (now i)) h)" "\<forall>i \<in> set h. epoch_of v0 \<le> now i \<and> now i \<le> tmax"
    and "epoch_of v0 \<le> tmax" "count_of v0 \<le> burst"
    and "unat burst + (unat tmax - unat (epoch_of v0)) * unat rate < 2 ^ 32"
  shows "card {i. \<exists>r. pc i = Returned r \<and> fst r}
    \<le> unat (count_of v0) + (unat tmax - unat (epoch_of v0)) * unat rate"
  using TokenBucket_runs [of "map now h" v0 tmax burst rate] assms card_Returned [OF assms(1), of fst]
  by (simp add: comp_def)

theorem token_bucket_bound_witness:
  "\<exists>v pc. cas_reach (\<lambda>i. TokenBucket_body 2 5 100) (pack 99 1) (v, pc, [0, 1, 2, 3]) \<and>
     card {i. \<exists>r. pc i = Returned r \<and> fst r} \<le> 1 + (100 - 99) * 2"
proof -
  obtain pc where reach: "cas_reach (\<lambda>i. TokenBucket_body 2 5 100) (pack 99 1)
      (fst (cas_runs (map (\<lambda>i. TokenBucket_body 2 5 100) [0, 1, 2, 3 :: nat]) (pack 99 1)), pc, [0, 1, 2, 3])"
    using cas_reach_sequential [of "[0, 1, 2, 3 :: nat]" "\<lambda>i. TokenBucket_body 2 5 100" "pack 99 1"] by auto
  have "card {i. \<exists>r. pc i = Returned r \<and> fst r}
      \<le> unat (count_of (pack 99 1)) + (unat (100 :: u32) - unat (epoch_of (pack 99 1))) * unat (2 :: u32)"
    by (rule token_bucket_bound [OF reach, of 100]) simp_all
  then show ?thesis using reach by auto
qed

text \<open>A bucket that has never been used is refused when the wrapped product of the clock and the rate happens to be 0:
  at Unix second 0x68000000 with rate 32 the first request is turned away.\<close>

theorem token_bucket_refill_wraps:
  "TokenBucket_body 32 10 0x68000000 0 = Done (False, 0)"
  by code_simp

subsection \<open>Spike arrest\<close>

lemma spike_runs:
  assumes "0 < interval" "\<forall>t \<in> set ts. 0 \<le> t \<and> t < 2 ^ 62" "0 \<le> v" "v < 2 ^ 62"
  shows "sorted_wrt (\<lambda>s t. s + interval \<le> t)
    (v # map fst (filter snd (zip ts (snd (cas_runs (map (spike_body interval) ts) v)))))"
  using assms(2-4)
proof (induction ts arbitrary: v)
  case Nil
  then show ?case by simp
next
  case (Cons t ts)
  have t: "0 \<le> t" "t < 2 ^ 62" using Cons.prems by auto
  have wrap: "i64 (t - v) = t - v"
    by (rule i64_id) (use t Cons.prems in \<open>simp add: in_i64_def\<close>)
  show ?case
  proof (cases "t - v < interval")
    case True
    then show ?thesis
      using Cons.IH [of v] Cons.prems wrap by (simp add: spike_body_def split_beta Let_def)
  next
    case False
    then show ?thesis
      using Cons.IH [of t] Cons.prems wrap assms(1) t by (force simp: spike_body_def split_beta Let_def)
  qed
qed

text \<open>C27. Spike arrest spaces requests: of the requests on one key that are admitted, in the order in which they take effect,
  each comes at least the interval after every earlier one.\<close>

theorem spike_arrest_spacing:
  assumes "cas_reach (\<lambda>i. spike_body interval (now i)) v0 (v, pc, h)" "0 < interval"
    and "\<forall>i \<in> set h. 0 \<le> now i \<and> now i < 2 ^ 62" "0 \<le> v0" "v0 < 2 ^ 62"
    and "j < k" "k < length h" "pc (h ! j) = Returned True" "pc (h ! k) = Returned True"
  shows "now (h ! j) + interval \<le> now (h ! k)"
proof -
  let ?rs = "snd (cas_runs (map (\<lambda>i. spike_body interval (now i)) h) v0)"
  have res: "?rs ! j" "?rs ! k" and len: "length ?rs = length h"
    using cas_reach_inv [OF assms(1)] assms(6-9) by (auto simp: cas_inv_def)
  let ?zs = "zip (map now h) ?rs"
  have all: "sorted_wrt (\<lambda>s t. s + interval \<le> t) (map fst (filter snd ?zs))"
    using spike_runs [OF assms(2), of "map now h" v0] assms(3-5) by (simp add: comp_def)
  have "?zs = take k ?zs @ ?zs ! k # drop (Suc k) ?zs"
    using assms(7) len by (intro id_take_nth_drop) simp
  then have "filter snd ?zs = filter snd (take k ?zs) @ ?zs ! k # filter snd (drop (Suc k) ?zs)"
    using res(2) assms(7) len by (metis (no_types, lifting) filter.simps(2) filter_append length_map nth_zip snd_conv)
  moreover have "?zs ! j \<in> set (filter snd (take k ?zs))"
    using res(1) assms(6,7) len by (auto simp: in_set_conv_nth intro!: exI [of _ j])
  ultimately show ?thesis
    using all assms(6,7) len by (force simp: sorted_wrt_append)
qed

theorem spike_arrest_spacing_witness:
  "\<exists>v pc. cas_reach (\<lambda>i. spike_body 10 (int i)) 0 (v, pc, [15, 20, 30]) \<and> (15 :: int) + 10 \<le> 30"
proof -
  obtain pc where reach: "cas_reach (\<lambda>i. spike_body 10 (int i)) 0
      (fst (cas_runs (map (\<lambda>i. spike_body 10 (int i)) [15, 20, 30 :: nat]) 0), pc, [15, 20, 30])"
    using cas_reach_sequential [of "[15, 20, 30 :: nat]" "\<lambda>i. spike_body 10 (int i)" 0] by auto
  have inv: "\<forall>k < 3. pc ([15, 20, 30 :: nat] ! k) = Returned ([True, False, True] ! k)"
    using cas_reach_inv [OF reach] by (simp add: cas_inv_def spike_body_def i64_def)
  have "int ([15, 20, 30 :: nat] ! 0) + 10 \<le> int ([15, 20, 30 :: nat] ! 2)"
    by (rule spike_arrest_spacing [OF reach]) (use inv [rule_format, of 0] inv [rule_format, of 2] in auto)
  then show ?thesis using reach by auto
qed

subsection \<open>Arenas\<close>

definition tenant_arena_ok :: "TenantCounterArena \<Rightarrow> bool" where
  "tenant_arena_ok a \<longleftrightarrow> 0 < numWindows a \<and> 0 < maxTenants a \<and>
     int (length (ta_slots a)) = maxTenants a * numWindows a"

lemma tenant_arena_ok_New: "tenant_arena_ok (NewTenantCounterArena mt nw)"
  by (simp add: tenant_arena_ok_def NewTenantCounterArena_def Let_def)

lemma tenant_slot_bounds:
  assumes "tenant_arena_ok a" "tenant_in_range t w a"
  shows "0 \<le> tenant_slot t w a" "tenant_slot t w a < int (length (ta_slots a))"
proof -
  have "uint t * numWindows a + w < (uint t + 1) * numWindows a"
    using assms by (simp add: tenant_in_range_def algebra_simps)
  also have "\<dots> \<le> maxTenants a * numWindows a"
    using assms by (intro mult_right_mono) (auto simp: tenant_in_range_def tenant_arena_ok_def)
  finally show "tenant_slot t w a < int (length (ta_slots a))"
    using assms by (simp add: tenant_slot_def tenant_arena_ok_def)
  show "0 \<le> tenant_slot t w a"
    using assms by (auto simp: tenant_slot_def tenant_in_range_def tenant_arena_ok_def)
qed

lemma tenant_slot_inj:
  assumes "tenant_in_range t w a" "tenant_in_range t' w' a" "tenant_slot t w a = tenant_slot t' w' a"
  shows "t = t' \<and> w = w'"
proof -
  have eq: "uint t * numWindows a + w = uint t' * numWindows a + w'" and w: "0 \<le> w" "w < numWindows a"
      "0 \<le> w'" "w' < numWindows a"
    using assms by (auto simp: tenant_slot_def tenant_in_range_def)
  have "(uint t * numWindows a + w) div numWindows a = uint t" "(uint t' * numWindows a + w') div numWindows a = uint t'"
    using w by (simp_all add: div_add1_eq)
  then have "uint t = uint t'" using eq by simp
  then show ?thesis using eq by (auto simp: word_eq_iff_unsigned [where ?'a = int])
qed

lemma counterEpochCAS_step:
  assumes "cas_run (counterEpochCAS_body limit epoch) old = (v, r)" "0 < limit"
  shows "fst r = ((if epoch_of old = epoch then count_of old else 0) < limit) \<and>
      (if epoch_of v = epoch then count_of v else 0) =
      (if (if epoch_of old = epoch then count_of old else 0) < limit
       then (if epoch_of old = epoch then count_of old else 0) + 1
       else (if epoch_of old = epoch then count_of old else 0))"
proof -
  have "epoch_of (old + 1) = epoch_of old \<and> count_of (old + 1) = count_of old + 1" if "count_of old < limit"
    using word_Suc_pack [OF that] by simp
  then show ?thesis
    using assms by (auto simp: counterEpochCAS_body_def pack_eqs Let_def not_le split: if_splits)
qed

text \<open>C28. Counters of different tenants or windows never influence each other: incrementing one never panics, leaves the
  arena well formed, changes no other counter, and within its limit is visible in the counter itself as one more.\<close>

theorem tenant_counters_isolated:
  assumes "tenant_arena_ok a" "tenant_in_range t w a" "0 < limit"
  shows "\<exists>r a'. tenant_Increment t w epoch limit a = Inr (r, a') \<and> tenant_arena_ok a' \<and>
    (\<forall>t' w' e'. tenant_in_range t' w' a \<longrightarrow> (t', w') \<noteq> (t, w) \<longrightarrow>
       tenant_ReadCurrent t' w' e' a' = tenant_ReadCurrent t' w' e' a) \<and>
    (\<exists>n. tenant_ReadCurrent t w epoch a = Inr n \<and> fst r = (n < limit) \<and>
       tenant_ReadCurrent t w epoch a' = Inr (if n < limit then n + 1 else n))"
proof -
  let ?i = "tenant_slot t w a" and ?body = "counterEpochCAS_body limit epoch"
  let ?old = "ta_slots a ! nat ?i"
  obtain v r where run: "cas_run ?body ?old = (v, r)" by (metis surj_pair)
  note b = tenant_slot_bounds [OF assms(1,2)]
  let ?a' = "a\<lparr>ta_slots := (ta_slots a)[nat ?i := v]\<rparr>"
  have "limit \<noteq> 0" using assms(3) by auto
  then have inc: "tenant_Increment t w epoch limit a = Inr (r, ?a')"
    using assms b run by (simp add: tenant_Increment_def on_slot_def idx_def del: cas_run.simps)
  have range: "tenant_in_range t' w' ?a' = tenant_in_range t' w' a" "tenant_slot t' w' ?a' = tenant_slot t' w' a" for t' w'
    by (simp_all add: tenant_in_range_def tenant_slot_def)
  have other: "tenant_ReadCurrent t' w' e' ?a' = tenant_ReadCurrent t' w' e' a"
    if "tenant_in_range t' w' a" "(t', w') \<noteq> (t, w)" for t' w' e'
  proof -
    have "tenant_slot t' w' a \<noteq> ?i" using tenant_slot_inj [OF that(1) assms(2)] that(2) by auto
    then have "nat (tenant_slot t' w' a) \<noteq> nat ?i"
      using b tenant_slot_bounds [OF assms(1) that(1)] by (simp add: eq_nat_nat_iff)
    then show ?thesis
      using tenant_slot_bounds [OF assms(1) that(1)] by (simp add: tenant_ReadCurrent_def range idx_def)
  qed
  have read: "tenant_ReadCurrent t w epoch a = Inr (if epoch_of ?old = epoch then count_of ?old else 0)"
    "tenant_ReadCurrent t w epoch ?a' = Inr (if epoch_of v = epoch then count_of v else 0)"
    using assms(2) b by (simp_all add: tenant_ReadCurrent_def range idx_def ucast_count)
  have "fst r = ((if epoch_of ?old = epoch then count_of ?old else 0) < limit) \<and>
      (if epoch_of v = epoch then count_of v else 0) =
      (if (if epoch_of ?old = epoch then count_of ?old else 0) < limit
       then (if epoch_of ?old = epoch then count_of ?old else 0) + 1
       else (if epoch_of ?old = epoch then count_of ?old else 0))"
    by (rule counterEpochCAS_step [OF run assms(3)])
  then show ?thesis
    using inc other read assms(1) by (auto simp: tenant_arena_ok_def)
qed

theorem tenant_counters_isolated_witness:
  "\<exists>r a'. tenant_Increment 1 0 7 5 (NewTenantCounterArena 2 2) = Inr (r, a') \<and>
     tenant_ReadCurrent 0 1 7 a' = tenant_ReadCurrent 0 1 7 (NewTenantCounterArena 2 2)"
proof -
  have "tenant_in_range 1 0 (NewTenantCounterArena 2 2)" "tenant_in_range 0 1 (NewTenantCounterArena 2 2)"
    by (simp_all add: tenant_in_range_def NewTenantCounterArena_def)
  moreover from this obtain r a' where "tenant_Increment 1 0 7 5 (NewTenantCounterArena 2 2) = Inr (r, a')"
    "\<forall>t' w' e'. tenant_in_range t' w' (NewTenantCounterArena 2 2) \<longrightarrow> (t', w') \<noteq> (1, 0) \<longrightarrow>
       tenant_ReadCurrent t' w' e' a' = tenant_ReadCurrent t' w' e' (NewTenantCounterArena 2 2)"
    using tenant_counters_isolated [OF tenant_arena_ok_New, of 1 0 2 2 5 7] by auto
  ultimately show ?thesis by auto
qed

lemma bits_Len_bounds: "0 < n \<Longrightarrow> 2 ^ (bits_Len n - 1) \<le> n \<and> n < 2 ^ bits_Len n \<and> 0 < bits_Len n"
proof (induction n rule: bits_Len.induct)
  case (1 n)
  show ?case
  proof (cases "n div 2 = 0")
    case True
    then have "n = 1" using 1 by auto
    moreover have "bits_Len 1 = 1" by (simp add: bits_Len.simps [of "Suc 0"] bits_Len.simps [of 0])
    ultimately show ?thesis by simp
  next
    case False
    then have IH: "2 ^ (bits_Len (n div 2) - 1) \<le> n div 2" "n div 2 < 2 ^ bits_Len (n div 2)" "0 < bits_Len (n div 2)"
      using 1 by auto
    have len: "bits_Len n = Suc (bits_Len (n div 2))" using 1 by (subst bits_Len.simps) simp
    have "(2::nat) ^ bits_Len (n div 2) = 2 * 2 ^ (bits_Len (n div 2) - 1)"
      using IH(3) by (simp flip: power_Suc)
    then have "2 ^ bits_Len (n div 2) \<le> n" using IH(1) by simp
    moreover have "n < 2 * 2 ^ bits_Len (n div 2)" using IH(2) by linarith
    ultimately show ?thesis unfolding len by simp
  qed
qed

lemma nextPow2_spec:
  assumes "n \<le> 2 ^ 62"
  shows "\<exists>k. nextPow2 n = 2 ^ k \<and> n \<le> nextPow2 n \<and> (\<forall>j. n \<le> 2 ^ j \<longrightarrow> nextPow2 n \<le> 2 ^ j)"
proof (cases "n \<le> 1")
  case True
  then show ?thesis by (auto simp: nextPow2_def intro!: exI [of _ 0])
next
  case False
  define m where "m = nat (n - 1)"
  have n: "n = int m + 1" and m: "0 < m" using False by (simp_all add: m_def)
  note b = bits_Len_bounds [OF m]
  have "m < 2 ^ 62" using assms n by simp
  then have "(2::nat) ^ (bits_Len m - 1) < 2 ^ 62" by (rule le_less_trans [OF conjunct1 [OF b]])
  then have "bits_Len m - 1 < 62" by (rule power_less_imp_less_exp [rotated]) simp
  then have "bits_Len m \<le> 62" by simp
  then have "(2::int) ^ bits_Len m \<le> 2 ^ 62" by (intro power_increasing) simp_all
  then have "i64 (2 ^ bits_Len m) = 2 ^ bits_Len m" by (intro i64_id) (simp add: in_i64_def order_trans [of "- 9223372036854775808" 0])
  then have np: "nextPow2 n = 2 ^ bits_Len m" using False by (simp add: nextPow2_def flip: m_def)
  have up: "n \<le> nextPow2 n"
  proof -
    have "int m < int (2 ^ bits_Len m)" using b by (simp only: of_nat_less_iff)
    then have "int m < 2 ^ bits_Len m" by (simp only: of_nat_power of_nat_numeral)
    then show ?thesis using np n by linarith
  qed
  have "nextPow2 n \<le> 2 ^ j" if "n \<le> 2 ^ j" for j
  proof (rule ccontr)
    assume "\<not> nextPow2 n \<le> 2 ^ j"
    then have "j < bits_Len m" using np by (simp add: not_le)
    then have "j \<le> bits_Len m - 1" by simp
    then have "(2::nat) ^ j \<le> 2 ^ (bits_Len m - 1)" by (intro power_increasing) simp_all
    then have "(2::nat) ^ j \<le> m" using b by linarith
    then have "int (2 ^ j) \<le> int m" by (simp only: of_nat_le_iff)
    then have "2 ^ j \<le> int m" by (simp only: of_nat_power of_nat_numeral)
    then show False using that unfolding n by linarith
  qed
  then show ?thesis using np up by blast
qed

lemma NewSlotCounterArena_size:
  assumes "sz \<le> 2 ^ 32"
  shows "uint (sa_mask (NewSlotCounterArena sz)) + 1 = int (length (sa_slots (NewSlotCounterArena sz)))"
proof -
  define s where "s = (if sz < 1024 then 1024 else sz)"
  let ?n = "nextPow2 s"
  have s: "1024 \<le> s" "s \<le> 2 ^ 32" using assms by (auto simp: s_def)
  then have "s \<le> 2 ^ 62" by simp
  then have lo: "s \<le> ?n" and least: "\<And>j. s \<le> 2 ^ j \<Longrightarrow> ?n \<le> 2 ^ j"
    using nextPow2_spec [of s] by blast+
  have "?n \<le> 2 ^ 32" using least [OF s(2)] .
  moreover have "1024 \<le> ?n" using lo s(1) by simp
  ultimately have "uint (word_of_int (?n - 1) :: u32) = ?n - 1"
    by (subst uint_word_of_int) (auto intro: mod_pos_pos_trivial)
  then show ?thesis
    using \<open>1024 \<le> ?n\<close> by (simp add: NewSlotCounterArena_def Let_def flip: s_def)
qed

text \<open>C29. The hashed counters never leave their array: for every key and window the index computed by masking is in range,
  so that an increment does not panic, and the request is admitted exactly while the shared counter is below the limit.\<close>

theorem slot_counter_in_range:
  assumes "sz \<le> 2 ^ 32" "sa_mask a = sa_mask (NewSlotCounterArena sz)" "0 < limit"
    and "length (sa_slots a) = length (sa_slots (NewSlotCounterArena sz))"
  shows "\<exists>r a'. slot_Increment key w epoch limit a = Inr (r, a') \<and>
    (\<exists>n. slot_ReadCurrent key w epoch a = Inr n \<and> fst r = (n < limit) \<and>
       slot_ReadCurrent key w epoch a' = Inr (if n < limit then n + 1 else n)) \<and>
    length (sa_slots a') = length (sa_slots a) \<and> sa_mask a' = sa_mask a"
proof -
  let ?i = "slot_index key w a" and ?body = "counterEpochCAS_body limit epoch"
  have "uint ?i \<le> uint (sa_mask a)"
    unfolding slot_index_def by (metis word_and_le1 word_le_def)
  then have i: "uint ?i < int (length (sa_slots a))"
    using NewSlotCounterArena_size [OF assms(1)] assms(2,4) by simp
  then have u: "unat ?i < length (sa_slots a)" by (simp add: unat_eq_nat_uint nat_less_iff del: nat_uint_eq)
  let ?old = "sa_slots a ! unat ?i"
  obtain v r where run: "cas_run ?body ?old = (v, r)" by (metis surj_pair)
  let ?a' = "a\<lparr>sa_slots := (sa_slots a)[unat ?i := v]\<rparr>"
  have "limit \<noteq> 0" using assms(3) by auto
  then have inc: "slot_Increment key w epoch limit a = Inr (r, ?a')"
    using i run by (simp add: slot_Increment_def on_slot_def idx_def del: cas_run.simps)
  have same: "slot_index key w ?a' = ?i" by (simp add: slot_index_def)
  have read: "slot_ReadCurrent key w epoch a = Inr (if epoch_of ?old = epoch then count_of ?old else 0)"
    "slot_ReadCurrent key w epoch ?a' = Inr (if epoch_of v = epoch then count_of v else 0)"
    using i u by (simp_all add: slot_ReadCurrent_def same idx_def ucast_count)
  have "fst r = ((if epoch_of ?old = epoch then count_of ?old else 0) < limit) \<and>
      (if epoch_of v = epoch then count_of v else 0) =
      (if (if epoch_of ?old = epoch then count_of ?old else 0) < limit
       then (if epoch_of ?old = epoch then count_of ?old else 0) + 1
       else (if epoch_of ?old = epoch then count_of ?old else 0))"
    by (rule counterEpochCAS_step [OF run assms(3)])
  then show ?thesis using inc read by auto
qed
theorem slot_counter_in_range_witness:
  "\<exists>r a'. slot_Increment [107, 101, 121] 1 7 5 (NewSlotCounterArena 0) = Inr (r, a')"
  using slot_counter_in_range [of 0 "NewSlotCounterArena 0" 5 "[107, 101, 121]" 1 7] by auto

end
