(* ===== verification/Rah_Exec.thy ===== *)
theory Rah_Exec
  imports Rah_Context
begin

section \<open>The executor (\<open>internal/engine/executor.go\<close>) and the control-flow steps (\<open>internal/engine/steps/logic.go\<close>)\<close>

text \<open>
  A compiled flow is a table of instructions. An instruction reads and changes the context and the
  execution state and returns the absolute index of its successor, or a negative number to stop. Program
  counters are \<open>int16\<close>: sums of them wrap, and so does the conversion of the table's length. The loop may run
  for ever, so it is a partial function: \<open>None\<close> is non-termination. The measured duration of the k-th
  instruction is \<open>obs k\<close>, \<open>None\<close> when timing is off.
\<close>

definition StopPlan :: int where "StopPlan = -1"
definition StopCancelled :: int where "StopCancelled = -2"

record ExecutionState =
  LinkStack :: "int list"
  StackPtr :: int
  PC :: int
  IsStopped :: bool
  ErrorHandlerPC :: int
  LinkExt :: "int list option"
  TraceAttrs :: "(string \<times> string) list"
  traceAttrCount :: int

definition zero_state :: ExecutionState where
  "zero_state = \<lparr>LinkStack = replicate 16 0, StackPtr = 0, PC = 0, IsStopped = False, ErrorHandlerPC = 0,
     LinkExt = None, TraceAttrs = replicate 24 ('''', ''''), traceAttrCount = 0\<rparr>"

definition BorrowLinkExt :: "int list" where
  "BorrowLinkExt = replicate 112 0"

definition AddTraceAttr :: "string \<Rightarrow> string \<Rightarrow> ExecutionState \<Rightarrow> ExecutionState go" where
  "AddTraceAttr k v s =
     (if traceAttrCount s < int (length (TraceAttrs s))
      then andThen (set_idx (TraceAttrs s) (traceAttrCount s) (k, v)) (\<lambda>ts.
             Inr (s\<lparr>TraceAttrs := ts, traceAttrCount := traceAttrCount s + 1\<rparr>))
      else Inr s)"

type_synonym InstructionFunc = "Context \<Rightarrow> ExecutionState \<Rightarrow> (int \<times> Context \<times> ExecutionState) go"

record Instruction =
  Name :: string
  Action :: InstructionFunc
  StepIdx :: int

abbreviation instr :: "string \<Rightarrow> InstructionFunc \<Rightarrow> Instruction" where
  "instr n a \<equiv> \<lparr>Name = n, Action = a, StepIdx = 0\<rparr>"

definition redirect :: "int \<Rightarrow> Context \<Rightarrow> ExecutionState \<Rightarrow> int \<times> ExecutionState" where
  \<comment> \<open>a failed step goes to the error handler, once\<close>
  "redirect pc ctx s =
     (if pc = StopPlan \<and> Failed (outcome ctx) \<and> ErrorHandlerPC s \<noteq> 0
      then (ErrorHandlerPC s, s\<lparr>ErrorHandlerPC := 0\<rparr>) else (pc, s))"

definition log_instr :: "int option \<Rightarrow> Context \<Rightarrow> ExecutionState \<Rightarrow> Context \<times> ExecutionState" where
  "log_instr measured ctx s =
     (case measured of
        Some ns \<Rightarrow> (ctx\<lparr>ilog := AppendInstr (PC s) (i32 (if ns \<le> 0 then 1 else ns)) (ilog ctx)\<rparr>, s\<lparr>traceAttrCount := 0\<rparr>)
      | None \<Rightarrow> (ctx\<lparr>ilog := AppendInstr (PC s) 0 (ilog ctx)\<rparr>, s))"

definition exec_step ::
  "(nat \<Rightarrow> int option) \<Rightarrow> Instruction list \<Rightarrow> nat \<Rightarrow> int \<Rightarrow> Context \<Rightarrow> ExecutionState \<Rightarrow>
     (int \<times> Context \<times> ExecutionState) go" where
  \<comment> \<open>one pass of the loop body, the k-th\<close>
  "exec_step obs table k pc ctx s =
     andThen (idx table pc) (\<lambda>current.
     andThen (Action current ctx (s\<lparr>PC := pc\<rparr>)) (\<lambda>(pc1, ctx1, s1).
       let (pc2, s2) = redirect pc1 ctx1 s1;
           (ctx2, s3) = log_instr (obs k) ctx1 s2
       in Inr (pc2, ctx2, s3)))"

partial_function (option) exec_loop ::
  "(nat \<Rightarrow> int option) \<Rightarrow> Instruction list \<Rightarrow> nat \<Rightarrow> int \<Rightarrow> Context \<Rightarrow> ExecutionState \<Rightarrow>
     (Context \<times> ExecutionState) go option" where
  "exec_loop obs table k pc ctx s =
     (if \<not> (0 \<le> pc \<and> pc < i16 (int (length table))) then Some (Inr (ctx, s))
      else case exec_step obs table k pc ctx s of
             Inl p \<Rightarrow> Some (Inl p)
           | Inr (pc', ctx', s') \<Rightarrow>
               if pc' = StopPlan then Some (Inr (ctx', s')) else exec_loop obs table (Suc k) pc' ctx' s')"

declare exec_loop.simps [code]

definition Execute ::
  "(nat \<Rightarrow> int option) \<Rightarrow> Instruction list \<Rightarrow> int \<Rightarrow> int \<Rightarrow> Context \<Rightarrow> Context go option" where
  \<comment> \<open>the borrowed link block goes back to its pool with the execution state\<close>
  "Execute obs table startID maxCallDepth ctx =
     map_option (\<lambda>r. andThen r (\<lambda>(ctx', _). Inr ctx'))
       (exec_loop obs table 0 startID ctx
          (if maxCallDepth > 15 then zero_state\<lparr>LinkExt := Some BorrowLinkExt\<rparr> else zero_state))"

subsection \<open>Helpers of the steps\<close>

definition next_pc :: "ExecutionState \<Rightarrow> int" where
  \<comment> \<open>\<open>state.PC + 1\<close>\<close>
  "next_pc s = i16 (PC s + 1)"

definition byteSlot :: "int \<Rightarrow> Context \<Rightarrow> bytes go" where
  "byteSlot i ctx = idx (ByteSlots (slots ctx)) i"

definition set_byteSlot :: "int \<Rightarrow> bytes \<Rightarrow> Context \<Rightarrow> Context go" where
  "set_byteSlot i v ctx =
     andThen (set_idx (ByteSlots (slots ctx)) i v) (\<lambda>bs. Inr (ctx\<lparr>slots := (slots ctx)\<lparr>ByteSlots := bs\<rparr>\<rparr>))"

definition ctx_GetInt :: "int \<Rightarrow> Context \<Rightarrow> int go" where
  "ctx_GetInt i ctx = GetInt i (slots ctx)"

definition ctx_SetInt :: "int \<Rightarrow> int \<Rightarrow> Context \<Rightarrow> Context go" where
  "ctx_SetInt i v ctx = andThen (SetInt i v (slots ctx)) (\<lambda>s. Inr (ctx\<lparr>slots := s\<rparr>))"

definition ctx_SetSlot :: "int \<Rightarrow> bytes \<Rightarrow> Context \<Rightarrow> Context go" where
  "ctx_SetSlot i v ctx = andThen (SetSlot i v (slots ctx)) (\<lambda>s. Inr (ctx\<lparr>slots := s\<rparr>))"

definition alloc_copy :: "bytes \<Rightarrow> Context \<Rightarrow> (bytes \<times> Context) go" where
  \<comment> \<open>\<open>s := ctx.Alloc(len(v)); copy(s, v)\<close>; the lists of the model that are longer than any Go slice can be
    are outside the program, and are copied without the arena\<close>
  "alloc_copy v ctx =
     (if int (length v) \<le> maxAlloc
      then andThen (Alloc (int (length v)) (arenas ctx)) (\<lambda>(_, a). Inr (v, ctx\<lparr>arenas := a\<rparr>))
      else Inr (v, ctx))"

definition fail500 :: "Context \<Rightarrow> Context" where
  "fail500 ctx = ctx\<lparr>outcome := (outcome ctx)\<lparr>Failed := True\<rparr>, resp := (resp ctx)\<lparr>ResponseStatus := 500\<rparr>\<rparr>"

subsection \<open>Fragment calls\<close>

definition CallFragment :: "int \<Rightarrow> InstructionFunc" where
  "CallFragment entryID ctx s =
     (let sp = StackPtr s in
      if sp < 16 then
        andThen (set_idx (LinkStack s) sp (next_pc s)) (\<lambda>ls.
          Inr (entryID, ctx, s\<lparr>LinkStack := ls, StackPtr := i16 (StackPtr s + 1)\<rparr>))
      else if sp < 128 then
        andThen (set_idx (case LinkExt s of None \<Rightarrow> BorrowLinkExt | Some b \<Rightarrow> b) (sp - 16) (next_pc s)) (\<lambda>ext.
          Inr (entryID, ctx, s\<lparr>LinkExt := Some ext, StackPtr := i16 (StackPtr s + 1)\<rparr>))
      else Inr (StopPlan, fail500 ctx, s))"

definition Return :: InstructionFunc where
  "Return ctx s =
     (let s1 = s\<lparr>StackPtr := i16 (StackPtr s - 1)\<rparr>; sp = StackPtr s1 in
      if sp < 0 \<or> (sp \<ge> 16 \<and> LinkExt s1 = None) then Inr (StopPlan, fail500 ctx, s1)
      else if sp < 16 then andThen (idx (LinkStack s1) sp) (\<lambda>pc. Inr (pc, ctx, s1))
      else andThen (idx (the (LinkExt s1)) (sp - 16)) (\<lambda>pc. Inr (pc, ctx, s1)))"

definition newReturnStep :: InstructionFunc where
  \<comment> \<open>the RET instruction the compiler emits\<close>
  "newReturnStep ctx s =
     (if StackPtr s \<le> 0 then Inr (-1, ctx, s)
      else
        let s1 = s\<lparr>StackPtr := StackPtr s - 1\<rparr>
        in andThen (idx (LinkStack s1) (StackPtr s1)) (\<lambda>pc. Inr (pc, ctx, s1)))"

definition newStopStep :: InstructionFunc where
  "newStopStep ctx s = Inr (-1, ctx, s)"

definition newInternalJump :: "int \<Rightarrow> InstructionFunc" where
  "newInternalJump target ctx s = Inr (target, ctx, s)"

definition InternalJump :: "int \<Rightarrow> InstructionFunc" where
  "InternalJump targetID ctx s = Inr (targetID, ctx, s)"

subsection \<open>Loops\<close>

type_synonym ConditionFunc = "Context \<Rightarrow> bool"

definition WhileGate :: "ConditionFunc \<Rightarrow> int \<Rightarrow> int \<Rightarrow> int \<Rightarrow> int \<Rightarrow> InstructionFunc" where
  "WhileGate condFn iterSlot maxIter bodyStart exitID ctx s =
     (let limit = (if maxIter \<le> 0 then 100 else maxIter) in
      andThen (ctx_GetInt iterSlot ctx) (\<lambda>iter.
        if \<not> condFn ctx \<or> iter \<ge> limit
        then andThen (ctx_SetInt iterSlot 0 ctx) (\<lambda>ctx'. Inr (exitID, ctx', s))
        else andThen (ctx_SetInt iterSlot (i64 (iter + 1)) ctx) (\<lambda>ctx'. Inr (bodyStart, ctx', s))))"

definition WhileRepeat :: "int \<Rightarrow> InstructionFunc" where
  "WhileRepeat gateID ctx s = Inr (gateID, ctx, s)"

definition GetCollection :: "string \<Rightarrow> bytes list" where
  "GetCollection key = []"

definition LoopGate :: "string \<Rightarrow> int \<Rightarrow> int \<Rightarrow> int \<Rightarrow> int \<Rightarrow> InstructionFunc" where
  "LoopGate source valueSlot iterSlot bodyStart exitID ctx s =
     (let items = GetCollection source in
      andThen (ctx_GetInt iterSlot ctx) (\<lambda>i.
        if i \<ge> int (length items)
        then andThen (ctx_SetInt iterSlot 0 ctx) (\<lambda>ctx'. Inr (exitID, ctx', s))
        else andThen (idx items i) (\<lambda>item.
             andThen (ctx_SetSlot valueSlot item ctx) (\<lambda>ctx1.
             andThen (ctx_SetInt iterSlot (i64 (i + 1)) ctx1) (\<lambda>ctx2. Inr (bodyStart, ctx2, s))))))"

definition LoopRepeat :: "int \<Rightarrow> int \<Rightarrow> InstructionFunc" where
  "LoopRepeat gateID iterSlot ctx s =
     andThen (ctx_GetInt iterSlot ctx) (\<lambda>i.
     andThen (ctx_SetInt iterSlot (i64 (i + 1)) ctx) (\<lambda>ctx'. Inr (gateID, ctx', s)))"

definition put_u32 :: "u32 \<Rightarrow> bytes" where
  \<comment> \<open>\<open>binary.LittleEndian.PutUint32\<close>\<close>
  "put_u32 w = [ucast w, ucast (drop_bit 8 w), ucast (drop_bit 16 w), ucast (drop_bit 24 w)]"

definition get_u32 :: "bytes \<Rightarrow> int \<Rightarrow> u32 go" where
  \<comment> \<open>\<open>binary.LittleEndian.Uint32(b[off:])\<close>\<close>
  "get_u32 b off =
     andThen (slice b off (int (length b))) (\<lambda>c.
       if length c < 4 then Inl IndexOutOfRange
       else Inr (ucast (c ! 0) OR push_bit 8 (ucast (c ! 1)) OR push_bit 16 (ucast (c ! 2)) OR push_bit 24 (ucast (c ! 3))))"

definition pack_spans :: "(int \<times> int) list \<Rightarrow> bytes" where
  \<comment> \<open>start and end of every element, 8 bytes each; an element is its offset and length\<close>
  "pack_spans els =
     concat (map (\<lambda>(start, len). put_u32 (word_of_int start) @ put_u32 (word_of_int (start + len))) els)"

definition build_index :: "(bytes \<Rightarrow> (int \<times> int) list option) \<Rightarrow> int \<Rightarrow> bytes \<Rightarrow> Context \<Rightarrow> Context option go" where
  \<comment> \<open>the index built at the first iteration; \<open>None\<close>: no array, or an empty one\<close>
  "build_index gjson indexSlot raw ctx =
     (case gjson raw of
        None \<Rightarrow> Inr None
      | Some els \<Rightarrow>
          if length els = 0 then Inr None
          else andThen (alloc_copy (pack_spans els) ctx) (\<lambda>(buf, ctx1).
               andThen (set_byteSlot indexSlot buf ctx1) (\<lambda>ctx2. Inr (Some ctx2))))"

definition LoopGateSlot ::
  "(bytes \<Rightarrow> (int \<times> int) list option) \<Rightarrow> int \<Rightarrow> int \<Rightarrow> int \<Rightarrow> int \<Rightarrow> int \<Rightarrow> int \<Rightarrow> InstructionFunc" where
  \<comment> \<open>\<open>gjson\<close> gives the offsets and lengths of the elements of a JSON array, \<open>None\<close> for anything else\<close>
  "LoopGateSlot gjson sourceSlot valueSlot indexSlot iterSlot bodyStart exitID ctx s =
     andThen (byteSlot sourceSlot ctx) (\<lambda>raw.
       if length raw = 0 then Inr (exitID, ctx, s)
       else andThen (ctx_GetInt iterSlot ctx) (\<lambda>i.
            andThen (if i = 0 then build_index gjson indexSlot raw ctx else Inr (Some ctx)) (\<lambda>built.
              case built of
                None \<Rightarrow> Inr (exitID, ctx, s)
              | Some ctx1 \<Rightarrow>
                  andThen (byteSlot indexSlot ctx1) (\<lambda>index.
                    if i \<ge> int (length index div 8)
                    then andThen (ctx_SetInt iterSlot 0 ctx1) (\<lambda>ctx2.
                         andThen (set_byteSlot indexSlot [] ctx2) (\<lambda>ctx3. Inr (exitID, ctx3, s)))
                    else andThen (get_u32 index (i * 8)) (\<lambda>start.
                         andThen (get_u32 index (i * 8 + 4)) (\<lambda>e.
                         andThen (slice raw (uint start) (uint e)) (\<lambda>v.
                         andThen (set_byteSlot valueSlot v ctx1) (\<lambda>ctx2.
                         andThen (ctx_SetInt iterSlot (i64 (i + 1)) ctx2) (\<lambda>ctx3.
                           Inr (bodyStart, ctx3, s))))))))))"

subsection \<open>Loops as the compiler lays them out\<close>

definition compile_while :: "ConditionFunc \<Rightarrow> int \<Rightarrow> int \<Rightarrow> int \<Rightarrow> Instruction list \<Rightarrow> Instruction list" where
  \<comment> \<open>what the compiler emits at address \<open>gateID\<close> for a while step whose body compiles to \<open>body\<close>\<close>
  "compile_while condFn iterSlot maxIter gateID body =
     instr ''WHILE_GATE'' (WhileGate condFn iterSlot maxIter (i16 (gateID + 1)) (i16 (gateID + int (length body) + 2))) #
     body @ [instr ''WHILE_REPEAT'' (WhileRepeat gateID)]"

definition compile_foreach ::
  "(bytes \<Rightarrow> (int \<times> int) list option) \<Rightarrow> int \<Rightarrow> int \<Rightarrow> int \<Rightarrow> int \<Rightarrow> int \<Rightarrow> Instruction list \<Rightarrow> Instruction list" where
  \<comment> \<open>the same for a foreach step over the array in a slot\<close>
  "compile_foreach gjson srcSlot valSlot indexSlot iterSlot gateID body =
     instr ''LOOP_GATE_SLOT'' (LoopGateSlot gjson srcSlot valSlot indexSlot iterSlot (i16 (gateID + 1)) (i16 (gateID + int (length body) + 2))) #
     body @ [instr ''LOOP_REPEAT'' (LoopRepeat gateID iterSlot)]"

end
