(* ===== verification/Rah_Text.thy ===== *)
theory Rah_Text
  imports Rah_Prelude
begin

section \<open>Byte strings: the operations of Go's \<open>bytes\<close> and \<open>strings\<close> packages the source uses\<close>

text \<open>
  A Go string or byte slice is the list of its bytes. Here are the library functions the steps call, with
  their documented behaviour on arbitrary bytes, and the laws relating them: splitting and joining, searching
  and trimming; then query strings as \<open>scanQuery\<close> reads them (\<open>internal/engine/steps/branching.go\<close>).
\<close>

fun IndexByte :: "bytes \<Rightarrow> u8 \<Rightarrow> int" where
  \<comment> \<open>the position of the first \<open>c\<close>, or -1\<close>
  "IndexByte [] c = -1"
| "IndexByte (x # xs) c = (if x = c then 0 else let r = IndexByte xs c in if r < 0 then -1 else r + 1)"

fun Split_byte :: "u8 \<Rightarrow> bytes \<Rightarrow> bytes list" where
  \<comment> \<open>\<open>strings.Split\<close> at a separator of one byte\<close>
  "Split_byte c [] = [[]]"
| "Split_byte c (x # xs) =
     (if x = c then [] # Split_byte c xs
      else case Split_byte c xs of p # ps \<Rightarrow> (x # p) # ps | [] \<Rightarrow> [[x]])"

fun Join_byte :: "u8 \<Rightarrow> bytes list \<Rightarrow> bytes" where
  "Join_byte c [] = []"
| "Join_byte c [p] = p"
| "Join_byte c (p # q # ps) = p @ c # Join_byte c (q # ps)"

definition HasPrefix :: "bytes \<Rightarrow> bytes \<Rightarrow> bool" where
  "HasPrefix s p \<longleftrightarrow> length s \<ge> length p \<and> take (length p) s = p"

definition HasSuffix :: "bytes \<Rightarrow> bytes \<Rightarrow> bool" where
  "HasSuffix s p \<longleftrightarrow> length s \<ge> length p \<and> drop (length s - length p) s = p"

fun Index_sub :: "bytes \<Rightarrow> bytes \<Rightarrow> int" where
  \<comment> \<open>the position of the first occurrence of \<open>sep\<close>, or -1\<close>
  "Index_sub [] sep = (if sep = [] then 0 else -1)"
| "Index_sub (x # xs) sep =
     (if HasPrefix (x # xs) sep then 0 else let r = Index_sub xs sep in if r < 0 then -1 else r + 1)"

definition Contains :: "bytes \<Rightarrow> bytes \<Rightarrow> bool" where
  "Contains s sep \<longleftrightarrow> Index_sub s sep \<ge> 0"

definition white_space :: "bytes list" where
  \<comment> \<open>the UTF-8 encodings of the characters \<open>unicode.IsSpace\<close> holds of\<close>
  "white_space =
     [[0x09], [0x0A], [0x0B], [0x0C], [0x0D], [0x20], [0xC2, 0x85], [0xC2, 0xA0], [0xE1, 0x9A, 0x80]] @
     map (\<lambda>b. [0xE2, 0x80, b]) [0x80, 0x81, 0x82, 0x83, 0x84, 0x85, 0x86, 0x87, 0x88, 0x89, 0x8A, 0xA8, 0xA9, 0xAF] @
     [[0xE2, 0x81, 0x9F], [0xE3, 0x80, 0x80]]"

lemma white_space_nonempty: "sp \<in> set white_space \<Longrightarrow> sp \<noteq> []"
  by (auto simp: white_space_def)

function TrimLeft_space :: "bytes \<Rightarrow> bytes" where
  "TrimLeft_space s =
     (case find (HasPrefix s) white_space of None \<Rightarrow> s | Some sp \<Rightarrow> TrimLeft_space (drop (length sp) s))"
  by auto

lemma find_SomeD: "find P xs = Some x \<Longrightarrow> x \<in> set xs \<and> P x"
  by (induction xs) (auto split: if_splits)

lemma drop_space_less:
  assumes "find (HasPrefix s) white_space = Some sp"
  shows "length (drop (length sp) s) < length s"
proof -
  have "sp \<noteq> []" "HasPrefix s sp" using find_SomeD [OF assms] white_space_nonempty by auto
  then show ?thesis by (cases s) (auto simp: HasPrefix_def)
qed

termination TrimLeft_space
  by (relation "measure length") (use drop_space_less in auto)

declare TrimLeft_space.simps [simp del]

function TrimRight_space :: "bytes \<Rightarrow> bytes" where
  "TrimRight_space s =
     (case find (HasSuffix s) white_space of None \<Rightarrow> s | Some sp \<Rightarrow> TrimRight_space (take (length s - length sp) s))"
  by auto

lemma take_space_less:
  assumes "find (HasSuffix s) white_space = Some sp"
  shows "length (take (length s - length sp) s) < length s"
proof -
  have "sp \<noteq> []" "HasSuffix s sp" using find_SomeD [OF assms] white_space_nonempty by auto
  then show ?thesis by (cases s) (auto simp: HasSuffix_def)
qed

termination TrimRight_space
  by (relation "measure length") (use take_space_less in auto)

declare TrimRight_space.simps [simp del]

definition TrimSpace :: "bytes \<Rightarrow> bytes" where
  "TrimSpace s = TrimRight_space (TrimLeft_space s)"

subsection \<open>Laws\<close>

lemma IndexByte_range: "IndexByte xs c = -1 \<or> 0 \<le> IndexByte xs c \<and> IndexByte xs c < int (length xs)"
  by (induction xs) (auto simp: Let_def)

lemma IndexByte_absent: "IndexByte xs c = -1 \<longleftrightarrow> c \<notin> set xs"
proof (induction xs)
  case (Cons x xs)
  then show ?case using IndexByte_range [of xs c] by (auto simp: Let_def)
qed simp

lemma IndexByte_append: "c \<notin> set xs \<Longrightarrow> IndexByte (xs @ c # ys) c = int (length xs)"
  by (induction xs) (auto simp: Let_def)

lemma Split_byte_nonempty [simp]: "Split_byte c xs \<noteq> []"
  by (induction xs) (auto split: list.splits)

lemma Join_Split [simp]: "Join_byte c (Split_byte c xs) = xs"
proof (induction xs)
  case (Cons x xs)
  obtain p ps where "Split_byte c xs = p # ps" by (meson Split_byte_nonempty list.exhaust)
  then show ?case using Cons by (cases ps) auto
qed simp

lemma Split_byte_parts: "p \<in> set (Split_byte c xs) \<Longrightarrow> c \<notin> set p"
  by (induction xs arbitrary: p) (fastforce split: list.splits if_splits)+

lemma Split_byte_append: "c \<notin> set p \<Longrightarrow> Split_byte c (p @ c # xs) = p # Split_byte c xs"
  by (induction p) auto

lemma Split_byte_single: "c \<notin> set p \<Longrightarrow> Split_byte c p = [p]"
  by (induction p) auto

lemma Split_Join: "ps \<noteq> [] \<Longrightarrow> \<forall>p \<in> set ps. c \<notin> set p \<Longrightarrow> Split_byte c (Join_byte c ps) = ps"
  by (induction c ps rule: Join_byte.induct) (auto simp: Split_byte_append Split_byte_single)

lemma HasPrefix_iff: "HasPrefix s p \<longleftrightarrow> prefix p s"
  by (auto simp: HasPrefix_def prefix_def) (metis append_take_drop_id)

lemma HasSuffix_iff: "HasSuffix s p \<longleftrightarrow> suffix p s"
  by (auto simp: HasSuffix_def suffix_def) (metis append_take_drop_id)

lemma Index_sub_range: "Index_sub s sep = -1 \<or> 0 \<le> Index_sub s sep"
  by (induction s) (auto simp: Let_def)

lemma Index_sub_found:
  "0 \<le> Index_sub s sep \<Longrightarrow> prefix sep (drop (nat (Index_sub s sep)) s)"
proof (induction s)
  case (Cons x xs)
  show ?case
  proof (cases "HasPrefix (x # xs) sep")
    case False
    then have "0 \<le> Index_sub xs sep" "Index_sub (x # xs) sep = Index_sub xs sep + 1"
      using Cons.prems by (auto simp: Let_def split: if_splits)
    then show ?thesis using Cons.IH by (simp add: nat_add_distrib)
  qed (simp add: HasPrefix_iff)
qed (auto split: if_splits)

lemma Index_sub_least:
  "prefix sep (drop k s) \<Longrightarrow> k \<le> length s \<Longrightarrow> 0 \<le> Index_sub s sep \<and> Index_sub s sep \<le> int k"
proof (induction s arbitrary: k)
  case (Cons x xs)
  show ?case
  proof (cases k)
    case 0
    then show ?thesis using Cons.prems by (auto simp: HasPrefix_iff Let_def)
  next
    case (Suc m)
    then have "0 \<le> Index_sub xs sep \<and> Index_sub xs sep \<le> int m" using Cons by auto
    then show ?thesis using Suc by (auto simp: Let_def)
  qed
qed auto

lemma Contains_iff: "Contains s sep \<longleftrightarrow> sublist sep s"
proof
  assume "Contains s sep"
  then have "prefix sep (drop (nat (Index_sub s sep)) s)" using Index_sub_found by (simp add: Contains_def)
  then show "sublist sep s" by (metis sublist_drop prefix_imp_sublist sublist_order.order_trans)
next
  assume "sublist sep s"
  then obtain ps ss where "s = ps @ sep @ ss" by (auto simp: sublist_def)
  then have "prefix sep (drop (length ps) s)" "length ps \<le> length s" by auto
  then show "Contains s sep" using Index_sub_least by (auto simp: Contains_def)
qed

subsection \<open>Decimal numbers\<close>

fun dec_digits :: "nat \<Rightarrow> bytes" where
  "dec_digits n = (if n < 10 then [of_nat (48 + n)] else dec_digits (n div 10) @ [of_nat (48 + n mod 10)])"

declare dec_digits.simps [simp del]

definition Itoa :: "int \<Rightarrow> bytes" where
  \<comment> \<open>\<open>strconv.Itoa\<close>, \<open>strconv.FormatInt\<close> in base 10\<close>
  "Itoa i = (if i < 0 then 45 # dec_digits (nat (- i)) else dec_digits (nat i))"

definition is_digit :: "u8 \<Rightarrow> bool" where
  "is_digit c \<longleftrightarrow> 48 \<le> c \<and> c \<le> 57"

definition dec_value :: "bytes \<Rightarrow> int" where
  "dec_value ds = foldl (\<lambda>v c. v * 10 + (uint c - 48)) 0 ds"

definition ParseInt :: "bytes \<Rightarrow> int \<times> bool" where
  \<comment> \<open>\<open>strconv.ParseInt(s, 10, 64)\<close>: the value and whether there was an error; out of range gives the nearest bound\<close>
  "ParseInt s =
     (let neg = (s \<noteq> [] \<and> hd s = 45);
          ds = (if s \<noteq> [] \<and> (hd s = 45 \<or> hd s = 43) then tl s else s)
      in if ds = [] \<or> \<not> list_all is_digit ds then (0, True)
         else let v = dec_value ds in
           if \<not> neg \<and> v \<ge> 2 ^ 63 then (2 ^ 63 - 1, True)
           else if neg \<and> v > 2 ^ 63 then (- (2 ^ 63), True)
           else (if neg then - v else v, False))"

lemma dec_digit: "n < 10 \<Longrightarrow> is_digit (of_nat (48 + n)) \<and> uint (of_nat (48 + n) :: u8) = 48 + int n"
proof -
  assume n: "n < 10"
  then have u: "unat (of_nat (48 + n) :: u8) = 48 + n" unfolding unsigned_of_nat by (simp add: take_bit_nat_eq_self)
  then have "uint (of_nat (48 + n) :: u8) = 48 + int n" by (simp only: uint_nat)
  moreover have "is_digit (of_nat (48 + n))" unfolding is_digit_def word_le_nat_alt u using n by simp
  ultimately show ?thesis by blast
qed

lemma dec_value_snoc: "dec_value (ds @ [c]) = dec_value ds * 10 + (uint c - 48)"
  by (simp add: dec_value_def)

lemma dec_digits_law: "dec_value (dec_digits n) = int n \<and> list_all is_digit (dec_digits n) \<and> dec_digits n \<noteq> []"
proof (induction n rule: dec_digits.induct)
  case (1 n)
  show ?case
  proof (cases "n < 10")
    case True
    then show ?thesis using dec_digit [OF True] by (simp add: dec_digits.simps [of n] dec_value_def)
  next
    case False
    have "n mod 10 < 10" "int (n div 10) * 10 + int (n mod 10) = int n" by (simp_all add: zdiv_int zmod_int)
    then show ?thesis
      using False 1 dec_digit [of "n mod 10"] by (auto simp: dec_digits.simps [of n] dec_value_snoc)
  qed
qed

lemma digit_not_sign: "list_all is_digit ds \<Longrightarrow> ds \<noteq> [] \<Longrightarrow> hd ds \<noteq> 45 \<and> hd ds \<noteq> 43"
  by (cases ds) (auto simp: is_digit_def)

lemma ParseInt_Itoa:
  assumes "in_i64 i"
  shows "ParseInt (Itoa i) = (i, False)"
proof (cases "i < 0")
  case True
  let ?d = "dec_digits (nat (- i))"
  have "dec_value ?d = - i" "list_all is_digit ?d" "?d \<noteq> []" using dec_digits_law [of "nat (- i)"] True by auto
  moreover have "- i \<le> 2 ^ 63" using assms by (simp add: in_i64_def)
  ultimately show ?thesis using True by (simp add: ParseInt_def Itoa_def Let_def)
next
  case False
  let ?d = "dec_digits (nat i)"
  have d: "dec_value ?d = i" "list_all is_digit ?d" "?d \<noteq> []" using dec_digits_law [of "nat i"] False by auto
  moreover have "hd ?d \<noteq> 45 \<and> hd ?d \<noteq> 43" using digit_not_sign d by blast
  moreover have "i < 2 ^ 63" using assms by (simp add: in_i64_def)
  ultimately show ?thesis using False by (simp add: ParseInt_def Itoa_def Let_def)
qed

function Split_on :: "bytes \<Rightarrow> bytes \<Rightarrow> bytes list" where
  \<comment> \<open>\<open>strings.Split\<close> at a non-empty separator\<close>
  "Split_on sep s =
     (if sep = [] \<or> Index_sub s sep < 0 then [s]
      else take (nat (Index_sub s sep)) s # Split_on sep (drop (nat (Index_sub s sep) + length sep) s))"
  by pat_completeness auto
termination
proof (relation "measure (\<lambda>(sep, s). length s)")
  fix sep s :: bytes
  assume "\<not> (sep = [] \<or> Index_sub s sep < 0)"
  then have "sep \<noteq> []" "s \<noteq> []" by auto
  then show "((sep, drop (nat (Index_sub s sep) + length sep) s), sep, s) \<in> measure (\<lambda>(sep, s). length s)"
    by (cases s; cases sep) auto
qed simp

declare Split_on.simps [simp del]

definition ascii_lower :: "u8 \<Rightarrow> u8" where
  "ascii_lower c = (if 65 \<le> c \<and> c \<le> 90 then c + 32 else c)"

definition ascii_upper :: "u8 \<Rightarrow> u8" where
  "ascii_upper c = (if 97 \<le> c \<and> c \<le> 122 then c - 32 else c)"

subsection \<open>Query strings\<close>

function scanQuery :: "bytes \<Rightarrow> bytes \<Rightarrow> bytes" where
  "scanQuery query key =
     (if length query > 0 then
        let i = IndexByte query 0x26;
            pair = (if i \<ge> 0 then take (nat i) query else query);
            rest = (if i \<ge> 0 then drop (nat i + 1) query else []);
            j = IndexByte pair 0x3D
        in if j \<ge> 0 \<and> take (nat j) pair = key then drop (nat j + 1) pair else scanQuery rest key
      else [])"
  by pat_completeness auto
termination
  by (relation "measure (length \<circ> fst)") (auto simp: Let_def)

declare scanQuery.simps [simp del]

definition query_of :: "(bytes \<times> bytes) list \<Rightarrow> bytes" where
  \<comment> \<open>the query string of a list of parameters\<close>
  "query_of ps = Join_byte 0x26 (map (\<lambda>(k, v). k @ 0x3D # v) ps)"

definition plain_param :: "bytes \<times> bytes \<Rightarrow> bool" where
  "plain_param p \<longleftrightarrow> 0x26 \<notin> set (fst p) \<and> 0x3D \<notin> set (fst p) \<and> 0x26 \<notin> set (snd p)"

lemma scanQuery_pair:
  assumes "plain_param (k, v)"
  shows "scanQuery (k @ 0x3D # v @ 0x26 # rest) key = (if k = key then v else scanQuery rest key)"
    and "scanQuery (k @ 0x3D # v) key = (if k = key then v else [])"
proof -
  have k: "0x26 \<notin> set k" "0x3D \<notin> set k" and v: "0x26 \<notin> set v" using assms by (auto simp: plain_param_def)
  let ?pair = "k @ 0x3D # v"
  have i: "IndexByte (?pair @ 0x26 # rest) 0x26 = int (length ?pair)"
    by (rule IndexByte_append) (use k v in simp)
  have j: "IndexByte ?pair 0x3D = int (length k)" using IndexByte_append k by blast
  have i': "IndexByte ?pair 0x26 = -1" using k v by (simp add: IndexByte_absent)
  have "take (length ?pair) (?pair @ 0x26 # rest) = ?pair" "drop (length ?pair + 1) (?pair @ 0x26 # rest) = rest"
    by simp_all
  then have "scanQuery (?pair @ 0x26 # rest) key = (if k = key then v else scanQuery rest key)"
    by (subst scanQuery.simps, simp only: i Let_def nat_int) (use j in auto)
  then show "scanQuery (k @ 0x3D # v @ 0x26 # rest) key = (if k = key then v else scanQuery rest key)" by simp
  show "scanQuery (k @ 0x3D # v) key = (if k = key then v else [])"
    using i' j by (subst scanQuery.simps) (auto simp: Let_def scanQuery.simps [of "[]"])
qed

text \<open>C34. Reading a query string gives back what was written into it: for any parameters without the
  two separators in their names and without the ampersand in their values, \<open>scanQuery\<close> on the query string finds
  the value of the first parameter of that name, and nothing for a name that does not occur.\<close>

theorem scanQuery_query_of:
  assumes "\<forall>p \<in> set ps. plain_param p"
  shows "scanQuery (query_of ps) key = (case map_of ps key of None \<Rightarrow> [] | Some v \<Rightarrow> v)"
  using assms
proof (induction ps rule: induct_list012)
  case 1
  then show ?case by (simp add: query_of_def scanQuery.simps)
next
  case (2 p)
  then show ?case by (cases p) (simp add: query_of_def scanQuery_pair)
next
  case (3 p q ps)
  obtain k v where p: "p = (k, v)" by (cases p)
  have "query_of (p # q # ps) = k @ 0x3D # v @ 0x26 # query_of (q # ps)"
    by (simp add: query_of_def p)
  moreover have "plain_param (k, v)" "\<forall>r \<in> set (q # ps). plain_param r" using "3.prems" p by auto
  ultimately show ?case using "3.IH"(2) p by (simp add: scanQuery_pair)
qed

theorem scanQuery_query_of_witness:
  "scanQuery (query_of [([0x61], [0x31]), ([0x62], [0x32]), ([0x61], [0x33])]) [0x62] = [0x32]"
  using scanQuery_query_of [of "[([0x61], [0x31]), ([0x62], [0x32]), ([0x61], [0x33])]" "[0x62]"]
  by (simp add: plain_param_def)

end
