(* ===== verification/Rah_Steps.thy ===== *)
theory Rah_Steps
  imports Rah_Exec Rah_Text
begin

section \<open>Steps on requests, responses and slots (\<open>internal/engine/steps\<close>)\<close>

text \<open>
  The instructions a flow is made of, file by file: binding request data to slots and staging header changes
  (\<open>branching.go\<close>, \<open>condition.go\<close>), text and arithmetic (\<open>arithmetic.go\<close>), the response (\<open>response.go\<close>,
  \<open>http_response_steps.go\<close>, \<open>cookie.go\<close>), errors (\<open>error_handling.go\<close>), transactions (\<open>tx.go\<close>) and
  cancellation (\<open>cancel.go\<close>). What a step takes from outside is an argument: \<open>req\<close> is the request, \<open>None\<close> for the nil
  request of a scheduled flow, with its header lookup; \<open>gjson\<close> is the JSON path lookup, giving the empty
  string for a path that does not exist; database calls are given by their outcome. A nil slice is the empty list;
  where the source distinguishes nil from empty the argument is an option.
\<close>

definition continue :: "ExecutionState \<Rightarrow> Context \<Rightarrow> (int \<times> Context \<times> ExecutionState) go" where
  \<comment> \<open>\<open>return state.PC + 1\<close>\<close>
  "continue s ctx = Inr (next_pc s, ctx, s)"

definition stop :: "ExecutionState \<Rightarrow> Context \<Rightarrow> (int \<times> Context \<times> ExecutionState) go" where
  "stop s ctx = Inr (StopPlan, ctx, s)"

definition put_slot :: "int \<Rightarrow> bytes \<Rightarrow> ExecutionState \<Rightarrow> Context \<Rightarrow> (int \<times> Context \<times> ExecutionState) go" where
  \<comment> \<open>store in a byte slot and go on\<close>
  "put_slot i v s ctx = andThen (set_byteSlot i v ctx) (continue s)"

definition with_resp :: "(Response \<Rightarrow> Response) \<Rightarrow> Context \<Rightarrow> Context" where
  "with_resp f ctx = ctx\<lparr>resp := f (resp ctx)\<rparr>"

definition with_outcome :: "(Outcome \<Rightarrow> Outcome) \<Rightarrow> Context \<Rightarrow> Context" where
  "with_outcome f ctx = ctx\<lparr>outcome := f (outcome ctx)\<rparr>"

definition set_status :: "int \<Rightarrow> Context \<Rightarrow> Context" where
  "set_status n = with_resp (\<lambda>r. r\<lparr>ResponseStatus := n\<rparr>)"

definition set_body :: "bytes \<Rightarrow> Context \<Rightarrow> Context" where
  "set_body b = with_resp (\<lambda>r. r\<lparr>ResponseBuffer := b, IsBuffered := True\<rparr>)"

type_synonym request = "(bytes \<Rightarrow> bytes) option"

definition Header_Get :: "request \<Rightarrow> bytes \<Rightarrow> bytes go" where
  \<comment> \<open>\<open>ctx.Request.Header.Get(key)\<close>\<close>
  "Header_Get req key = (case req of None \<Rightarrow> Inl NilDereference | Some hdr \<Rightarrow> Inr (hdr key))"

subsection \<open>Binding (\<open>branching.go\<close>)\<close>

definition BindPath :: "int \<Rightarrow> int \<Rightarrow> InstructionFunc" where
  "BindPath paramIdx slotIdx ctx s =
     (if paramIdx < int (ParamCount (meta ctx))
      then andThen (idx (Params (meta ctx)) paramIdx) (\<lambda>(st, e).
           andThen (slice (Path (meta ctx)) (uint st) (uint e)) (\<lambda>v. put_slot slotIdx v s ctx))
      else continue s ctx)"

definition BindHeader :: "request \<Rightarrow> bytes \<Rightarrow> int \<Rightarrow> InstructionFunc" where
  "BindHeader req key slot ctx s =
     andThen (Header_Get req key) (\<lambda>val. if length val > 0 then put_slot slot val s ctx else put_slot slot [] s ctx)"

definition BindHeaderDynamic :: "request \<Rightarrow> int \<Rightarrow> int \<Rightarrow> InstructionFunc" where
  "BindHeaderDynamic req nameSlot valueSlot ctx s =
     andThen (byteSlot nameSlot ctx) (\<lambda>name.
       if length name = 0 then put_slot valueSlot [] s ctx
       else andThen (Header_Get req name) (\<lambda>val.
              if length val > 0 then put_slot valueSlot val s ctx else put_slot valueSlot [] s ctx))"

definition BindQuery :: "bytes \<Rightarrow> int \<Rightarrow> InstructionFunc" where
  "BindQuery key slot ctx s =
     (let val = scanQuery (RawQuery (meta ctx)) key in
      if length val > 0 then andThen (alloc_copy val ctx) (\<lambda>(v, ctx'). put_slot slot v s ctx')
      else put_slot slot [] s ctx)"

definition BindQueryDynamic :: "int \<Rightarrow> int \<Rightarrow> InstructionFunc" where
  "BindQueryDynamic nameSlot valueSlot ctx s =
     andThen (byteSlot nameSlot ctx) (\<lambda>name.
       if length name = 0 then put_slot valueSlot [] s ctx
       else
         let val = scanQuery (RawQuery (meta ctx)) name
         in if length val > 0 then put_slot valueSlot val s ctx else put_slot valueSlot [] s ctx)"

fun first_path :: "(bytes \<Rightarrow> bytes \<Rightarrow> bytes) \<Rightarrow> bytes \<Rightarrow> bytes list \<Rightarrow> bytes option" where
  \<comment> \<open>the first alternative that gives a non-empty string\<close>
  "first_path gjson body [] = None"
| "first_path gjson body (p # ps) =
     (if gjson body (TrimSpace p) \<noteq> [] then Some (gjson body (TrimSpace p)) else first_path gjson body ps)"

definition bind_first :: "(bytes \<Rightarrow> bytes \<Rightarrow> bytes) \<Rightarrow> bytes \<Rightarrow> bytes \<Rightarrow> int \<Rightarrow> InstructionFunc" where
  "bind_first gjson body jsonPath slot ctx s =
     (case first_path gjson body (Split_on (bytes_of ''||'') jsonPath) of
        Some str \<Rightarrow> andThen (alloc_copy str ctx) (\<lambda>(v, ctx'). put_slot slot v s ctx')
      | None \<Rightarrow> put_slot slot [] s ctx)"

definition BindJSON :: "(bytes \<Rightarrow> bytes \<Rightarrow> bytes) \<Rightarrow> int \<Rightarrow> bytes \<Rightarrow> int \<Rightarrow> InstructionFunc" where
  "BindJSON gjson srcSlot jsonPath destSlot ctx s =
     (if srcSlot \<ge> int (length (ByteSlots (slots ctx))) then put_slot destSlot [] s ctx
      else andThen (byteSlot srcSlot ctx) (\<lambda>body.
             if length body = 0 then put_slot destSlot [] s ctx
             else bind_first gjson body jsonPath destSlot ctx s))"

definition BindBody :: "(bytes \<Rightarrow> bytes \<Rightarrow> bytes) \<Rightarrow> (bytes \<times> bool) option \<Rightarrow> bytes \<Rightarrow> int \<Rightarrow> InstructionFunc" where
  \<comment> \<open>the request body: what reading it to the end gives and whether that fails, \<open>None\<close> without one\<close>
  "BindBody gjson rbody jsonPath slot ctx s =
     (let buf = RequestBuffer (meta ctx);
          limit = (if MaxBodySize (meta ctx) \<le> 0 then 4 * 2 ^ 20 else MaxBodySize (meta ctx))
      in if length buf = 0 \<and> rbody \<noteq> None then
           let (content, failed) = the rbody; data = take (nat limit) content in
           if failed \<or> length data = 0 then put_slot slot [] s ctx
           else bind_first gjson data jsonPath slot (ctx\<lparr>meta := (meta ctx)\<lparr>RequestBuffer := data\<rparr>\<rparr>) s
         else if length buf = 0 then put_slot slot [] s ctx
         else bind_first gjson buf jsonPath slot ctx s)"

definition LogFieldStep :: "string \<Rightarrow> int \<Rightarrow> InstructionFunc" where
  "LogFieldStep name srcSlot ctx s =
     (let m = meta ctx in
      if ExtraLogCount m < length (ExtraLogFields m)
      then continue s (ctx\<lparr>meta := m\<lparr>ExtraLogFields := (ExtraLogFields m)[ExtraLogCount m := (name, srcSlot)],
                                    ExtraLogCount := ExtraLogCount m + 1\<rparr>\<rparr>)
      else continue s ctx)"

definition push_mutation :: "HeaderMutation \<Rightarrow> Context \<Rightarrow> Context" where
  \<comment> \<open>\<open>MutationLog[MutationCount] = mut; MutationCount++\<close>, in range\<close>
  "push_mutation mut ctx =
     (let m = meta ctx in ctx\<lparr>meta := m\<lparr>MutationLog := (MutationLog m)[MutationCount m := mut], MutationCount := MutationCount m + 1\<rparr>\<rparr>)"

definition SetRequestHeader :: "bytes \<Rightarrow> int \<Rightarrow> InstructionFunc" where
  "SetRequestHeader name valueSlot ctx s =
     (if MutationCount (meta ctx) < length (MutationLog (meta ctx))
      then andThen (byteSlot valueSlot ctx) (\<lambda>v. continue s (push_mutation \<lparr>hm_Key = name, hm_Value = v, hm_Op = 0\<rparr> ctx))
      else continue s ctx)"

definition SetRequestBody :: "int \<Rightarrow> bytes \<Rightarrow> InstructionFunc" where
  "SetRequestBody srcSlot contentType ctx s =
     andThen (byteSlot srcSlot ctx) (\<lambda>v.
       continue s (ctx\<lparr>meta := (meta ctx)\<lparr>StagedRequestBody := v, StagedContentType := contentType\<rparr>\<rparr>))"

definition BindRequestURL :: "int \<Rightarrow> bool \<Rightarrow> InstructionFunc" where
  "BindRequestURL dstSlot includeQuery ctx s =
     (let path = Path (meta ctx) in
      if \<not> includeQuery \<or> length (RawQuery (meta ctx)) = 0 then put_slot dstSlot path s ctx
      else andThen (alloc_copy (path @ 0x3F # RawQuery (meta ctx)) ctx) (\<lambda>(buf, ctx'). put_slot dstSlot buf s ctx'))"

definition CopyHeader :: "request \<Rightarrow> bytes \<Rightarrow> bytes \<Rightarrow> InstructionFunc" where
  "CopyHeader req srcHeader dstHeader ctx s =
     andThen (Header_Get req srcHeader) (\<lambda>val.
       if val = [] \<or> MutationCount (meta ctx) \<ge> length (MutationLog (meta ctx)) then continue s ctx
       else continue s (push_mutation \<lparr>hm_Key = dstHeader, hm_Value = val, hm_Op = 0\<rparr> ctx))"

definition RemoveRequestHeader :: "bytes \<Rightarrow> InstructionFunc" where
  "RemoveRequestHeader name ctx s =
     (if MutationCount (meta ctx) < length (MutationLog (meta ctx))
      then continue s (push_mutation \<lparr>hm_Key = name, hm_Value = [], hm_Op = 1\<rparr> ctx)
      else continue s ctx)"

definition RenameRequestHeader :: "request \<Rightarrow> bytes \<Rightarrow> bytes \<Rightarrow> InstructionFunc" where
  "RenameRequestHeader req srcHeader dstHeader ctx s =
     andThen (Header_Get req srcHeader) (\<lambda>val.
       if val = [] \<or> MutationCount (meta ctx) + 1 \<ge> length (MutationLog (meta ctx)) then continue s ctx
       else continue s (push_mutation \<lparr>hm_Key = srcHeader, hm_Value = [], hm_Op = 1\<rparr>
              (push_mutation \<lparr>hm_Key = dstHeader, hm_Value = val, hm_Op = 0\<rparr> ctx)))"

subsection \<open>Gates (\<open>condition.go\<close>)\<close>

definition SwitchGate :: "int \<Rightarrow> (bytes \<rightharpoonup> int) \<Rightarrow> int \<Rightarrow> InstructionFunc" where
  "SwitchGate slot jumpTable exitID ctx s =
     andThen (byteSlot slot ctx) (\<lambda>v. case jumpTable v of Some nxt \<Rightarrow> Inr (nxt, ctx, s) | None \<Rightarrow> Inr (exitID, ctx, s))"

definition RetryGate :: "ConditionFunc \<Rightarrow> int \<Rightarrow> int \<Rightarrow> InstructionFunc" where
  "RetryGate condFn loopStart exitID ctx s = (if condFn ctx then Inr (loopStart, ctx, s) else Inr (exitID, ctx, s))"

subsection \<open>Text and arithmetic (\<open>arithmetic.go\<close>)\<close>

definition intSlot :: "int \<Rightarrow> Context \<Rightarrow> int go" where
  \<comment> \<open>\<open>ctx.IntSlots[i]\<close>: the inline slots only\<close>
  "intSlot i ctx = idx (intSlotBase (slots ctx)) i"

definition put_int :: "int \<Rightarrow> int \<Rightarrow> ExecutionState \<Rightarrow> Context \<Rightarrow> (int \<times> Context \<times> ExecutionState) go" where
  "put_int i v s ctx =
     andThen (set_idx (intSlotBase (slots ctx)) i v) (\<lambda>xs. continue s (ctx\<lparr>slots := (slots ctx)\<lparr>intSlotBase := xs\<rparr>\<rparr>))"

definition put_bool :: "int \<Rightarrow> bool \<Rightarrow> ExecutionState \<Rightarrow> Context \<Rightarrow> (int \<times> Context \<times> ExecutionState) go" where
  "put_bool i v s ctx =
     andThen (set_idx (BoolSlots (slots ctx)) i v) (\<lambda>xs. continue s (ctx\<lparr>slots := (slots ctx)\<lparr>BoolSlots := xs\<rparr>\<rparr>))"

definition ConcatStep :: "int \<Rightarrow> int \<Rightarrow> int \<Rightarrow> bytes \<Rightarrow> InstructionFunc" where
  "ConcatStep slotA slotB result sep ctx s =
     andThen (byteSlot slotA ctx) (\<lambda>a. andThen (byteSlot slotB ctx) (\<lambda>b.
     andThen (alloc_copy (a @ sep @ b) ctx) (\<lambda>(out, ctx'). put_slot result out s ctx')))"

definition ToLowerStep :: "int \<Rightarrow> int \<Rightarrow> InstructionFunc" where
  "ToLowerStep src result ctx s =
     andThen (byteSlot src ctx) (\<lambda>a. andThen (alloc_copy (map ascii_lower a) ctx) (\<lambda>(out, ctx'). put_slot result out s ctx'))"

definition ToUpperStep :: "int \<Rightarrow> int \<Rightarrow> InstructionFunc" where
  "ToUpperStep src result ctx s =
     andThen (byteSlot src ctx) (\<lambda>a. andThen (alloc_copy (map ascii_upper a) ctx) (\<lambda>(out, ctx'). put_slot result out s ctx'))"

definition SubstringStep :: "int \<Rightarrow> int \<Rightarrow> int \<Rightarrow> int \<Rightarrow> InstructionFunc" where
  "SubstringStep src result start len ctx s =
     andThen (byteSlot src ctx) (\<lambda>v.
       if start < 0 \<or> start > int (length v) then put_slot result [] s ctx
       else
         let e = (if len \<ge> 0 \<and> i64 (start + len) < int (length v) then i64 (start + len) else int (length v))
         in andThen (slice v start e) (\<lambda>r. put_slot result r s ctx))"

definition ToIntStep :: "int \<Rightarrow> int \<Rightarrow> InstructionFunc" where
  "ToIntStep src result ctx s =
     andThen (byteSlot src ctx) (\<lambda>b. let (v, err) = ParseInt b in put_int result (if err then 0 else v) s ctx)"

definition int_op :: "(int \<Rightarrow> int \<Rightarrow> int) \<Rightarrow> int \<Rightarrow> int \<Rightarrow> int \<Rightarrow> InstructionFunc" where
  "int_op f slotA slotB result ctx s =
     andThen (intSlot slotA ctx) (\<lambda>a. andThen (intSlot slotB ctx) (\<lambda>b. put_int result (i64 (f a b)) s ctx))"

definition AddStep :: "int \<Rightarrow> int \<Rightarrow> int \<Rightarrow> InstructionFunc" where "AddStep = int_op (+)"
definition SubStep :: "int \<Rightarrow> int \<Rightarrow> int \<Rightarrow> InstructionFunc" where "SubStep = int_op (-)"
definition MulStep :: "int \<Rightarrow> int \<Rightarrow> int \<Rightarrow> InstructionFunc" where "MulStep = int_op (*)"

definition go_div :: "int \<Rightarrow> int \<Rightarrow> int" where
  \<comment> \<open>Go's division truncates towards zero\<close>
  "go_div a b = (if (a < 0) = (b < 0) then \<bar>a\<bar> div \<bar>b\<bar> else - (\<bar>a\<bar> div \<bar>b\<bar>))"

definition go_mod :: "int \<Rightarrow> int \<Rightarrow> int" where
  "go_mod a b = a - b * go_div a b"

definition div_op :: "(int \<Rightarrow> int \<Rightarrow> int) \<Rightarrow> int \<Rightarrow> int \<Rightarrow> int \<Rightarrow> InstructionFunc" where
  "div_op f slotA slotB result ctx s =
     andThen (intSlot slotB ctx) (\<lambda>b.
       if b = 0 then stop s ctx
       else andThen (intSlot slotA ctx) (\<lambda>a. put_int result (i64 (f a b)) s ctx))"

definition ModStep :: "int \<Rightarrow> int \<Rightarrow> int \<Rightarrow> InstructionFunc" where "ModStep = div_op go_mod"
definition DivStep :: "int \<Rightarrow> int \<Rightarrow> int \<Rightarrow> InstructionFunc" where "DivStep = div_op go_div"

definition ByteLengthStep :: "int \<Rightarrow> int \<Rightarrow> InstructionFunc" where
  "ByteLengthStep srcSlot destSlot ctx s =
     andThen (byteSlot srcSlot ctx) (\<lambda>b. put_int destSlot (int (length b)) s ctx)"

definition TrimStep :: "int \<Rightarrow> int \<Rightarrow> InstructionFunc" where
  "TrimStep src result ctx s = andThen (byteSlot src ctx) (\<lambda>b. put_slot result (TrimSpace b) s ctx)"

definition ContainsStep :: "int \<Rightarrow> int \<Rightarrow> bytes \<Rightarrow> InstructionFunc" where
  "ContainsStep src result needle ctx s = andThen (byteSlot src ctx) (\<lambda>b. put_bool result (Contains b needle) s ctx)"

definition StartsWithStep :: "int \<Rightarrow> int \<Rightarrow> bytes \<Rightarrow> InstructionFunc" where
  "StartsWithStep src result pre ctx s = andThen (byteSlot src ctx) (\<lambda>b. put_bool result (HasPrefix b pre) s ctx)"

definition EndsWithStep :: "int \<Rightarrow> int \<Rightarrow> bytes \<Rightarrow> InstructionFunc" where
  "EndsWithStep src result suf ctx s = andThen (byteSlot src ctx) (\<lambda>b. put_bool result (HasSuffix b suf) s ctx)"

definition IndexOfStep :: "int \<Rightarrow> int \<Rightarrow> bytes \<Rightarrow> InstructionFunc" where
  "IndexOfStep src result needle ctx s = andThen (byteSlot src ctx) (\<lambda>b. put_int result (Index_sub b needle) s ctx)"

definition SetResponseHeaderFromSlot :: "bytes \<Rightarrow> int \<Rightarrow> InstructionFunc" where
  "SetResponseHeaderFromSlot name src ctx s =
     andThen (byteSlot src ctx) (\<lambda>b. continue s (with_resp (SetResponseHeader name b) ctx))"

subsection \<open>The response (\<open>response.go\<close>, \<open>http_response_steps.go\<close>, \<open>cookie.go\<close>)\<close>

definition SetStreamResponseBodyStep :: "bool \<Rightarrow> InstructionFunc" where
  "SetStreamResponseBodyStep stream ctx s = continue s (with_resp (\<lambda>r. r\<lparr>StreamResponseBody := stream\<rparr>) ctx)"

definition SetResponseBodyStep :: "int \<Rightarrow> InstructionFunc" where
  "SetResponseBodyStep src ctx s =
     (if \<not> StreamResponseBody (resp ctx) then andThen (byteSlot src ctx) (\<lambda>b. continue s (set_body b ctx))
      else continue s ctx)"

definition SetResponseStatusStep :: "int \<Rightarrow> InstructionFunc" where
  "SetResponseStatusStep code ctx s = continue s (set_status code ctx)"

definition SetResponseStatusFromSlotStep :: "int \<Rightarrow> InstructionFunc" where
  "SetResponseStatusFromSlotStep slot ctx s = andThen (intSlot slot ctx) (\<lambda>v. continue s (set_status v ctx))"

definition MapStatusStep :: "int \<Rightarrow> (int \<rightharpoonup> int) \<Rightarrow> int \<Rightarrow> InstructionFunc" where
  "MapStatusStep slot mappings defaultStatus ctx s =
     andThen (intSlot slot ctx) (\<lambda>sourceStatus.
       case mappings sourceStatus of
         Some mapped \<Rightarrow> continue s (set_status mapped ctx)
       | None \<Rightarrow> if defaultStatus \<noteq> -1 then continue s (set_status defaultStatus ctx) else continue s ctx)"

definition SetConstStep :: "bytes \<Rightarrow> int \<Rightarrow> InstructionFunc" where
  "SetConstStep value slot ctx s = put_slot slot value s ctx"

definition RespondTokenCountStep :: "int \<Rightarrow> InstructionFunc" where
  "RespondTokenCountStep islot ctx s =
     (let n = (if islot \<ge> 0 \<and> islot < int (length (intSlotBase (slots ctx))) then intSlotBase (slots ctx) ! nat islot else 0)
      in stop s (set_body (bytes_of ''{\"input_tokens\":'' @ Itoa n @ bytes_of ''}'') ctx))"

definition RespondStep :: "int \<Rightarrow> InstructionFunc" where
  "RespondStep src ctx s =
     (if \<not> StreamResponseBody (resp ctx) then andThen (byteSlot src ctx) (\<lambda>b. stop s (set_body b ctx))
      else stop s ctx)"

definition RemoveResponseHeaderStep :: "bytes \<Rightarrow> InstructionFunc" where
  "RemoveResponseHeaderStep name ctx s = continue s (with_resp (RemoveResponseHeader name) ctx)"

definition SetCookieStep :: "bytes \<Rightarrow> bytes \<Rightarrow> int \<Rightarrow> InstructionFunc" where
  "SetCookieStep namePrefix suff valueSlot ctx s =
     andThen (byteSlot valueSlot ctx) (\<lambda>val.
     andThen (alloc_copy (namePrefix @ val @ suff) ctx) (\<lambda>(buf, ctx').
       continue s (with_resp (SetResponseHeader (bytes_of ''Set-Cookie'') buf) ctx')))"

definition RedirectStep :: "bytes option \<Rightarrow> int \<Rightarrow> int \<Rightarrow> InstructionFunc" where
  "RedirectStep staticURL urlSlot status ctx s =
     andThen (case staticURL of
                Some loc \<Rightarrow> Inr (loc, ctx)
              | None \<Rightarrow> andThen (byteSlot urlSlot ctx) (\<lambda>src. alloc_copy src ctx)) (\<lambda>(loc, ctx').
       stop s (set_status status (with_resp (SetResponseHeader (bytes_of ''Location'') loc) ctx')))"

definition BuildSetCookieSuffix :: "bytes \<Rightarrow> int \<Rightarrow> bool \<Rightarrow> bool \<Rightarrow> bytes \<Rightarrow> bytes \<Rightarrow> bytes" where
  "BuildSetCookieSuffix path maxAgeSec httpOnly secure sameSite domain =
     (if path \<noteq> [] then bytes_of ''; Path='' @ path else []) @
     (if maxAgeSec > 0 then bytes_of ''; Max-Age='' @ Itoa maxAgeSec else []) @
     (if httpOnly then bytes_of ''; HttpOnly'' else []) @
     (if secure then bytes_of ''; Secure'' else []) @
     (if sameSite \<in> set (map bytes_of [''Strict'', ''Lax'', ''None'']) then bytes_of ''; SameSite='' @ sameSite else []) @
     (if domain \<noteq> [] then bytes_of ''; Domain='' @ domain else [])"

function scan_cookies :: "bytes \<Rightarrow> bytes \<Rightarrow> bytes option" where
  \<comment> \<open>the loop of \<open>ExtractCookie\<close>; \<open>nameEq\<close> is the name with the equals sign\<close>
  "scan_cookies nameEq remaining =
     (if length remaining > 0 then
        let i = IndexByte remaining 0x3B;
            pair = (if i \<ge> 0 then take (nat i) remaining else remaining);
            rest = (if i \<ge> 0 then dropWhile (\<lambda>c. c = 0x20) (drop (nat i + 1) remaining) else [])
        in if HasPrefix pair nameEq then Some (drop (length nameEq) pair) else scan_cookies nameEq rest
      else None)"
  by pat_completeness auto
termination
proof (relation "measure (length \<circ> snd)", simp, goal_cases)
  case (1 nameEq remaining x xa xb)
  then have "length (drop (nat x + 1) remaining) < length remaining" by (cases remaining) auto
  then show ?case
    using 1 length_dropWhile_le [of "\<lambda>c. c = 0x20" "drop (nat x + 1) remaining"] by (auto intro: le_less_trans)
qed

declare scan_cookies.simps [simp del]

definition ExtractCookie :: "request \<Rightarrow> bytes \<Rightarrow> int \<Rightarrow> InstructionFunc" where
  "ExtractCookie req cookieName destSlot ctx s =
     andThen (Header_Get req (bytes_of ''Cookie'')) (\<lambda>val.
       if val = [] then put_slot destSlot [] s ctx
       else case scan_cookies (cookieName @ [0x3D]) val of
              Some v \<Rightarrow> put_slot destSlot v s ctx
            | None \<Rightarrow> put_slot destSlot [] s ctx)"

definition response_cookie_suffix :: "bytes \<Rightarrow> int \<Rightarrow> bool \<Rightarrow> bool \<Rightarrow> bytes \<Rightarrow> bytes" where
  "response_cookie_suffix path maxAge httpOnly secure sameSite =
     (if path \<noteq> [] then bytes_of ''; Path='' @ path else []) @
     (if maxAge > 0 then bytes_of ''; Max-Age='' @ Itoa maxAge
      else if maxAge < 0 then bytes_of ''; Max-Age=0'' else []) @
     (if httpOnly then bytes_of ''; HttpOnly'' else []) @
     (if secure then bytes_of ''; Secure'' else []) @
     (if sameSite \<noteq> [] then bytes_of ''; SameSite='' @ sameSite else [])"

definition SetResponseCookie :: "bytes \<Rightarrow> int \<Rightarrow> bytes \<Rightarrow> int \<Rightarrow> bool \<Rightarrow> bool \<Rightarrow> bytes \<Rightarrow> InstructionFunc" where
  "SetResponseCookie cookieName valueSlot path maxAge httpOnly secure sameSite =
     SetCookieStep (cookieName @ [0x3D]) (response_cookie_suffix path maxAge httpOnly secure sameSite) valueSlot"

definition SetRequestCookie :: "bytes \<Rightarrow> int \<Rightarrow> InstructionFunc" where
  "SetRequestCookie cookieName valueSlot ctx s =
     andThen (byteSlot valueSlot ctx) (\<lambda>val.
       if length val = 0 \<or> MutationCount (meta ctx) \<ge> length (MutationLog (meta ctx)) then continue s ctx
       else andThen (alloc_copy (cookieName @ 0x3D # val) ctx) (\<lambda>(buf, ctx').
              continue s (push_mutation \<lparr>hm_Key = bytes_of ''Cookie'', hm_Value = buf, hm_Op = 0\<rparr> ctx')))"

definition RemoveResponseCookie :: "bytes \<Rightarrow> bytes \<Rightarrow> InstructionFunc" where
  "RemoveResponseCookie cookieName path ctx s =
     continue s (with_resp (SetResponseHeader (bytes_of ''Set-Cookie'')
       (cookieName @ bytes_of ''=; Max-Age=0; Path='' @ (if path = [] then bytes_of ''/'' else path))) ctx)"

fun cookie_pairs :: "(bytes \<times> int) list \<Rightarrow> Context \<Rightarrow> bytes list go" where
  \<comment> \<open>the \<open>name=value\<close> texts of the non-empty slots\<close>
  "cookie_pairs [] ctx = Inr []"
| "cookie_pairs ((name, slot) # cs) ctx =
     andThen (byteSlot slot ctx) (\<lambda>v.
     andThen (cookie_pairs cs ctx) (\<lambda>ps. Inr (if length v = 0 then ps else (name @ 0x3D # v) # ps)))"

fun join_cookies :: "bytes list \<Rightarrow> bytes" where
  "join_cookies [] = []"
| "join_cookies [p] = p"
| "join_cookies (p # q # ps) = p @ [0x3B, 0x20] @ join_cookies (q # ps)"

definition CookieFlattenStep :: "(bytes \<times> int) list \<Rightarrow> int \<Rightarrow> InstructionFunc" where
  "CookieFlattenStep cookieSlots dstSlot ctx s =
     andThen (cookie_pairs cookieSlots ctx) (\<lambda>ps.
     andThen (alloc_copy (join_cookies ps) ctx) (\<lambda>(out, ctx'). put_slot dstSlot out s ctx'))"

subsection \<open>Errors (\<open>error_handling.go\<close>)\<close>

definition EarlyReturn :: "int \<Rightarrow> int \<Rightarrow> bytes option \<Rightarrow> InstructionFunc" where
  "EarlyReturn status bodySlot staticBody ctx s =
     (let ctx1 = set_status status ctx;
          ctx2 = (if bodySlot \<ge> 0 \<and> bodySlot < int (length (ByteSlots (slots ctx)))
                  then with_resp (\<lambda>r. r\<lparr>ResponseBuffer := ByteSlots (slots ctx) ! nat bodySlot\<rparr>) ctx1
                  else case staticBody of Some b \<Rightarrow> with_resp (\<lambda>r. r\<lparr>ResponseBuffer := b\<rparr>) ctx1 | None \<Rightarrow> ctx1)
      in stop s (with_outcome (\<lambda>out. out\<lparr>Failed := False\<rparr>) (with_resp (\<lambda>r. r\<lparr>IsBuffered := True\<rparr>) ctx2)))"

definition Fail :: "int \<Rightarrow> int \<Rightarrow> bytes \<Rightarrow> InstructionFunc" where
  "Fail code msgSlot staticMsg ctx s =
     stop s (with_outcome (\<lambda>out. out\<lparr>Failed := True, ErrorCode := code,
       ErrorMsg := (if msgSlot \<ge> 0 \<and> msgSlot < int (length (ByteSlots (slots ctx)))
                    then ByteSlots (slots ctx) ! nat msgSlot else staticMsg)\<rparr>) ctx)"

function code_digits :: "int \<Rightarrow> bytes" where
  \<comment> \<open>the digit loop of \<open>CaptureError\<close>, least significant digit first\<close>
  "code_digits code = (if code > 0 then word_of_int (48 + code mod 10) # code_digits (code div 10) else [])"
  by auto
termination by (relation "measure nat") auto

declare code_digits.simps [simp del]

definition code_text :: "int \<Rightarrow> bytes" where
  \<comment> \<open>the text of an \<open>int16\<close> code; negating the least one gives itself\<close>
  "code_text code =
     (let sign = (if code < 0 then [45] else []); c = (if code < 0 then i16 (- code) else code)
      in sign @ (if c = 0 then [48] else rev (code_digits c)))"

definition clear_error :: "Outcome \<Rightarrow> Outcome" where
  "clear_error out = out\<lparr>Failed := False, ErrorCode := 0, ErrorMsg := []\<rparr>"

definition CaptureError :: "int \<Rightarrow> int \<Rightarrow> InstructionFunc" where
  "CaptureError codeSlot msgSlot ctx s =
     andThen (if codeSlot \<ge> 0 \<and> codeSlot < int (length (ByteSlots (slots ctx)))
              then andThen (alloc_copy (code_text (ErrorCode (outcome ctx))) ctx) (\<lambda>(v, ctx'). set_byteSlot codeSlot v ctx')
              else Inr ctx) (\<lambda>ctx1.
     andThen (if msgSlot \<ge> 0 \<and> msgSlot < int (length (ByteSlots (slots ctx1)))
              then set_byteSlot msgSlot (ErrorMsg (outcome ctx1)) ctx1 else Inr ctx1) (\<lambda>ctx2.
       continue s (with_outcome clear_error ctx2)))"

definition step_failed :: "int \<Rightarrow> Context \<Rightarrow> bool" where
  "step_failed result ctx \<longleftrightarrow> result = StopPlan \<and> Failed (outcome ctx)"

definition WrapOnErrorContinue :: "InstructionFunc \<Rightarrow> InstructionFunc" where
  "WrapOnErrorContinue inner ctx s =
     andThen (inner ctx s) (\<lambda>(result, ctx1, s1).
       if step_failed result ctx1 then Inr (i16 (PC s + 1), with_outcome clear_error ctx1, s1)
       else Inr (result, ctx1, s1))"

definition WrapOnErrorJump :: "InstructionFunc \<Rightarrow> int \<Rightarrow> InstructionFunc" where
  "WrapOnErrorJump inner errFlowPC ctx s =
     andThen (inner ctx s) (\<lambda>(result, ctx1, s1).
       if step_failed result ctx1 then Inr (errFlowPC, with_outcome (\<lambda>out. out\<lparr>Failed := False\<rparr>) ctx1, s1)
       else Inr (result, ctx1, s1))"

definition WrapOnErrorStatus :: "InstructionFunc \<Rightarrow> int \<Rightarrow> bytes option \<Rightarrow> InstructionFunc" where
  "WrapOnErrorStatus inner httpStatus body ctx s =
     andThen (inner ctx s) (\<lambda>(result, ctx1, s1).
       if step_failed result ctx1 then
         let ctx2 = set_status httpStatus ctx1;
             ctx3 = (case body of Some b \<Rightarrow> set_body b ctx2 | None \<Rightarrow> ctx2)
         in Inr (StopPlan, with_outcome clear_error ctx3, s1)
       else Inr (result, ctx1, s1))"

subsection \<open>Transactions (\<open>tx.go\<close>)\<close>

definition tx_sql :: "string \<Rightarrow> int \<Rightarrow> string" where
  "tx_sql verb n = verb @ '' rah_sp_'' @ map (\<lambda>d. char_of (unat d)) (Itoa n)"

definition txSavepointSQL :: "string list" where
  "txSavepointSQL = '''' # map (tx_sql ''SAVEPOINT'') [2, 3, 4, 5, 6, 7, 8, 9]"

definition txReleaseSQL :: "string list" where
  "txReleaseSQL = [''''] @ [''''] @ map (tx_sql ''RELEASE SAVEPOINT'') [2, 3, 4, 5, 6, 7, 8]"

definition txRollbackToSQL :: "string list" where
  "txRollbackToSQL = [''''] @ [''''] @ map (tx_sql ''ROLLBACK TO SAVEPOINT'') [2, 3, 4, 5, 6, 7, 8]"

definition maxTxDepth :: int where "maxTxDepth = 8"

definition tx_log :: "tx_event \<Rightarrow> Outcome \<Rightarrow> Outcome" where
  "tx_log e out = out\<lparr>txLog := txLog out @ [e]\<rparr>"

definition fail_step :: "ExecutionState \<Rightarrow> Context \<Rightarrow> (int \<times> Context \<times> ExecutionState) go" where
  "fail_step s ctx = stop s (fail500 ctx)"

definition BeginTx :: "bool \<Rightarrow> bool \<Rightarrow> (string \<Rightarrow> bool) \<Rightarrow> int \<Rightarrow> InstructionFunc" where
  \<comment> \<open>\<open>found\<close>: the data source exists; \<open>begun\<close>: beginning succeeds; \<open>execs sql\<close>: executing succeeds\<close>
  "BeginTx found begun execs rollbackPC ctx s =
     (let out = outcome ctx in
      if TxDepth out = 0 then
        if \<not> found \<or> \<not> begun then fail_step s ctx
        else continue (s\<lparr>ErrorHandlerPC := rollbackPC\<rparr>)
               (with_outcome (\<lambda>out. (tx_log TxBegin out)\<lparr>ActiveTx := True, TxDepth := 1\<rparr>) ctx)
      else if TxDepth out < maxTxDepth then
        andThen (idx txSavepointSQL (TxDepth out)) (\<lambda>sql.
          if \<not> ActiveTx out then Inl NilDereference
          else
            let ctx1 = with_outcome (tx_log (TxExec sql)) ctx
            in if \<not> execs sql then fail_step s ctx1
               else continue (s\<lparr>ErrorHandlerPC := rollbackPC\<rparr>) (with_outcome (\<lambda>out. out\<lparr>TxDepth := TxDepth out + 1\<rparr>) ctx1))
      else fail_step s ctx)"

definition CommitTx :: "bool \<Rightarrow> (string \<Rightarrow> bool) \<Rightarrow> InstructionFunc" where
  "CommitTx committed execs ctx s =
     (let s1 = s\<lparr>ErrorHandlerPC := 0\<rparr>; out = outcome ctx in
      if \<not> ActiveTx out then continue s1 ctx
      else if TxDepth out = 1 then
        if committed then continue s1 (with_outcome (\<lambda>out. (tx_log TxCommit out)\<lparr>ActiveTx := False, TxDepth := 0\<rparr>) ctx)
        else fail_step s1 (with_outcome (\<lambda>out. (tx_log TxRollback (tx_log TxCommit out))\<lparr>ActiveTx := False, TxDepth := 0\<rparr>) ctx)
      else if TxDepth out > 1 then
        andThen (idx txReleaseSQL (TxDepth out)) (\<lambda>sql.
          let ctx1 = with_outcome (tx_log (TxExec sql)) ctx in
          if execs sql then continue s1 (with_outcome (\<lambda>out. out\<lparr>TxDepth := TxDepth out - 1\<rparr>) ctx1)
          else andThen (idx txRollbackToSQL (TxDepth out)) (\<lambda>rsql.
                 fail_step s1 (with_outcome (\<lambda>out. (tx_log (TxExec rsql) out)\<lparr>TxDepth := TxDepth out - 1\<rparr>) ctx1)))
      else continue s1 ctx)"

definition RollbackTx :: InstructionFunc where
  "RollbackTx ctx s =
     (let s1 = s\<lparr>ErrorHandlerPC := 0\<rparr>; out = outcome ctx in
      if \<not> ActiveTx out then continue s1 ctx
      else if TxDepth out = 1 then
        continue s1 (with_outcome (\<lambda>out. (tx_log TxRollback out)\<lparr>ActiveTx := False, TxDepth := 0\<rparr>) ctx)
      else if TxDepth out > 1 then
        andThen (idx txRollbackToSQL (TxDepth out)) (\<lambda>sql.
          continue s1 (with_outcome (\<lambda>out. (tx_log (TxExec sql) out)\<lparr>TxDepth := TxDepth out - 1\<rparr>) ctx))
      else continue s1 ctx)"

definition compile_transaction ::
  "bool \<Rightarrow> bool \<Rightarrow> (string \<Rightarrow> bool) \<Rightarrow> bool \<Rightarrow> int \<Rightarrow> Instruction list \<Rightarrow> Instruction list" where
  \<comment> \<open>what the compiler emits at address \<open>beginIdx\<close> for a transaction step whose body compiles to \<open>body\<close>\<close>
  "compile_transaction found begun execs committed beginIdx body =
     (let rollbackIdx = i16 (beginIdx + int (length body) + 2) in
      \<lparr>Name = ''BEGIN_TX'', Action = BeginTx found begun execs rollbackIdx, StepIdx = beginIdx\<rparr> # body @
      [\<lparr>Name = ''COMMIT_TX'', Action = CommitTx committed execs, StepIdx = beginIdx\<rparr>,
       \<lparr>Name = ''ROLLBACK_TX'', Action = RollbackTx, StepIdx = beginIdx\<rparr>])"

subsection \<open>Cancellation (\<open>cancel.go\<close>)\<close>

definition detectAndMarkCancelled :: "bool option \<Rightarrow> Context \<Rightarrow> bool \<times> Context" where
  \<comment> \<open>whether the request's context is done, \<open>None\<close> without a request\<close>
  "detectAndMarkCancelled requestDone ctx =
     (case requestDone of
        None \<Rightarrow> (False, ctx)
      | Some True \<Rightarrow> (True, with_outcome (\<lambda>out. out\<lparr>Cancelled := 1\<rparr>) ctx)
      | Some False \<Rightarrow> (False, ctx))"

definition checkCancelled :: "Context \<Rightarrow> bool" where
  "checkCancelled ctx \<longleftrightarrow> Cancelled (outcome ctx) \<noteq> 0"

definition StopIfCancelled :: "bool option \<Rightarrow> Context \<Rightarrow> (int \<times> bool) \<times> Context" where
  "StopIfCancelled requestDone ctx =
     (if checkCancelled ctx then ((StopCancelled, True), ctx)
      else
        let (b, ctx') = detectAndMarkCancelled requestDone ctx
        in if b then ((StopCancelled, True), ctx') else ((0, False), ctx'))"

end
