(* ===== verification/Rah_Exec_Laws.thy ===== *)
theory Rah_Exec_Laws
  imports Rah_Exec Rah_Context_Laws
begin

text \<open>
  Laws of the executor: flows that only jump forward end, fragment calls return to their callers (the interface
  \<open>return_stack\<close>, interpreted for both return instructions of the source with the depth each supports), loops, and
  the instruction log as the record of the program counters visited.
\<close>

subsection \<open>Termination of forward flows\<close>

definition forward_action :: "int \<Rightarrow> InstructionFunc \<Rightarrow> bool" where
  \<comment> \<open>at address \<open>pc\<close>: the successor is later in the table or a stop, and an error handler it installs is later too\<close>
  "forward_action pc a \<longleftrightarrow>
     (\<forall>ctx s pc' ctx' s'. PC s = pc \<longrightarrow> a ctx s = Inr (pc', ctx', s') \<longrightarrow>
        (pc' < 0 \<or> pc < pc') \<and>
        (ErrorHandlerPC s' = ErrorHandlerPC s \<or> ErrorHandlerPC s' = 0 \<or> pc < ErrorHandlerPC s'))"

definition rank :: "nat \<Rightarrow> int \<Rightarrow> ExecutionState \<Rightarrow> nat \<times> nat" where
  "rank n pc s =
     (if ErrorHandlerPC s = 0 then (nat (int n - pc), 0)
      else (nat (int n - min (ErrorHandlerPC s) pc), Suc (nat (int n - pc))))"

lemma redirect_eq:
  assumes "redirect pc ctx s = (pc', s')"
  shows "pc' = pc \<and> s' = s \<or> pc' = ErrorHandlerPC s \<and> ErrorHandlerPC s \<noteq> 0 \<and> s' = s\<lparr>ErrorHandlerPC := 0\<rparr>"
  using assms by (auto simp: redirect_def split: if_splits)

lemma log_instr_handler [simp]: "ErrorHandlerPC (snd (log_instr m ctx s)) = ErrorHandlerPC s"
  by (simp add: log_instr_def split: option.splits)

lemma exec_step_elim:
  assumes "exec_step obs table k pc ctx s = Inr (pc', ctx', s')"
  obtains pc1 ctx1 s1 s2 where "0 \<le> pc" "pc < int (length table)"
    "Action (table ! nat pc) ctx (s\<lparr>PC := pc\<rparr>) = Inr (pc1, ctx1, s1)"
    "redirect pc1 ctx1 s1 = (pc', s2)" "log_instr (obs k) ctx1 s2 = (ctx', s')"
proof -
  have pc: "0 \<le> pc" "pc < int (length table)"
    using assms by (auto simp: exec_step_def idx_def split: if_splits)
  then have step: "andThen (Action (table ! nat pc) ctx (s\<lparr>PC := pc\<rparr>)) (\<lambda>(pc1, ctx1, s1).
      let (pc2, s2) = redirect pc1 ctx1 s1; (ctx2, s3) = log_instr (obs k) ctx1 s2 in Inr (pc2, ctx2, s3)) = Inr (pc', ctx', s')"
    using assms by (simp add: exec_step_def idx_def)
  then obtain pc1 ctx1 s1 where a: "Action (table ! nat pc) ctx (s\<lparr>PC := pc\<rparr>) = Inr (pc1, ctx1, s1)"
    by (cases "Action (table ! nat pc) ctx (s\<lparr>PC := pc\<rparr>)") auto
  obtain pc2 s2 where r: "redirect pc1 ctx1 s1 = (pc2, s2)" by (metis surj_pair)
  obtain ctx2 s3 where l: "log_instr (obs k) ctx1 s2 = (ctx2, s3)" by (metis surj_pair)
  have "pc2 = pc'" "ctx2 = ctx'" "s3 = s'" using step by (simp_all add: a r l)
  then show ?thesis using that pc a r l by blast
qed

lemma exec_step_forward:
  assumes fw: "\<forall>i < length table. forward_action (int i) (Action (table ! i))"
    and step: "exec_step obs table k pc ctx s = Inr (pc', ctx', s')"
    and pc': "0 \<le> pc'" "pc' < int (length table)"
  shows "(rank (length table) pc' s', rank (length table) pc s) \<in> less_than <*lex*> less_than"
  using step
proof (rule exec_step_elim)
  fix pc1 ctx1 s1 s2
  assume pc: "0 \<le> pc" "pc < int (length table)"
    and a: "Action (table ! nat pc) ctx (s\<lparr>PC := pc\<rparr>) = Inr (pc1, ctx1, s1)"
    and r: "redirect pc1 ctx1 s1 = (pc', s2)" and l: "log_instr (obs k) ctx1 s2 = (ctx', s')"
  have "forward_action pc (Action (table ! nat pc))" using fw pc by (metis int_nat_eq nat_less_iff)
  then have f: "(pc1 < 0 \<or> pc < pc1) \<and>
      (ErrorHandlerPC s1 = ErrorHandlerPC (s\<lparr>PC := pc\<rparr>) \<or> ErrorHandlerPC s1 = 0 \<or> pc < ErrorHandlerPC s1)"
    using a unfolding forward_action_def by (elim allE [of _ ctx] allE [of _ "s\<lparr>PC := pc\<rparr>"] allE [of _ pc1] allE [of _ ctx1] allE [of _ s1]) simp
  have "ErrorHandlerPC s' = ErrorHandlerPC s2" using log_instr_handler [of "obs k" ctx1 s2] l by simp
  then show ?thesis
    using redirect_eq [OF r] f pc pc' by (auto simp: rank_def)
qed

text \<open>C31. Every flow whose jumps and error handlers only lead forward in the table ends: the executor returns, whatever
  the instructions compute and wherever they fail, and whether or not a failing step is sent to its error handler.\<close>

theorem forward_flow_terminates:
  assumes "\<forall>i < length table. forward_action (int i) (Action (table ! i))"
  shows "\<exists>r. Execute obs table startID maxCallDepth ctx = Some r"
proof -
  let ?R = "inv_image (less_than <*lex*> less_than) (\<lambda>(pc, s). rank (length table) pc s)"
  have wf: "wf ?R" by (intro wf_inv_image wf_lex_prod wf_less_than)
  have "\<forall>k ctx. \<exists>r. exec_loop obs table k (fst x) ctx (snd x) = Some r" for x
    using wf
  proof (induction x rule: wf_induct_rule)
    case (less x)
    obtain pc s where x: "x = (pc, s)" by (cases x)
    have "\<exists>r. exec_loop obs table k pc ctx s = Some r" for k ctx
    proof (cases "exec_step obs table k pc ctx s")
      case (Inr c)
      obtain pc' ctx' s' where c: "c = (pc', ctx', s')" by (cases c)
      show ?thesis
      proof (cases "0 \<le> pc' \<and> pc' < i16 (int (length table))")
        case True
        then have "0 \<le> pc'" "pc' < int (length table)" using i16_le [of "int (length table)"] by auto
        then have "((pc', s'), x) \<in> ?R" using exec_step_forward [OF assms] Inr c x by auto
        then show ?thesis using less.IH Inr c by (subst exec_loop.simps) (auto split: prod.splits)
      next
        case False
        then show ?thesis using Inr c by (auto simp: exec_loop.simps [of _ _ _ pc] exec_loop.simps [of _ _ _ pc'])
      qed
    qed (simp add: exec_loop.simps)
    then show ?case using x by simp
  qed
  from this [of "(startID, if maxCallDepth > 15 then zero_state\<lparr>LinkExt := Some BorrowLinkExt\<rparr> else zero_state)"]
  obtain r where "exec_loop obs table 0 startID ctx
      (if maxCallDepth > 15 then zero_state\<lparr>LinkExt := Some BorrowLinkExt\<rparr> else zero_state) = Some r" by auto
  then show ?thesis unfolding Execute_def by simp
qed

theorem forward_flow_terminates_witness:
  "\<exists>r. Execute (\<lambda>_. None)
     [instr ''CALL'' (CallFragment 2), instr ''STOP'' newStopStep, instr ''GOTO'' (newInternalJump 3), instr ''STOP'' newStopStep]
     0 0 (fresh_context 64) = Some r"
  by (rule forward_flow_terminates)
    (auto simp: less_Suc_eq forward_action_def CallFragment_def newStopStep_def newInternalJump_def StopPlan_def Let_def
      andThen_def split: if_splits sum.splits)

subsection \<open>Fragment calls\<close>

definition addrs :: "ExecutionState \<Rightarrow> int list" where
  \<comment> \<open>the return addresses, the innermost first\<close>
  "addrs s = rev (take (nat (StackPtr s)) (LinkStack s @ (case LinkExt s of None \<Rightarrow> [] | Some b \<Rightarrow> b)))"

definition link_ok :: "ExecutionState \<Rightarrow> bool" where
  "link_ok s \<longleftrightarrow> length (LinkStack s) = 16 \<and> (\<forall>b. LinkExt s = Some b \<longrightarrow> length b = 112) \<and>
     0 \<le> StackPtr s \<and> StackPtr s \<le> 128 \<and> (16 < StackPtr s \<longrightarrow> LinkExt s \<noteq> None)"

fun run_calls :: "(int \<Rightarrow> InstructionFunc) \<Rightarrow> (int \<times> int) list \<Rightarrow> Context \<Rightarrow> ExecutionState \<Rightarrow> (Context \<times> ExecutionState) go" where
  \<comment> \<open>calls made one inside the other: the address of each call and the entry of the fragment it calls\<close>
  "run_calls call [] ctx s = Inr (ctx, s)"
| "run_calls call ((pc, entry) # cs) ctx s =
     andThen (call entry ctx (s\<lparr>PC := pc\<rparr>)) (\<lambda>(_, ctx', s'). run_calls call cs ctx' s')"

fun run_returns :: "InstructionFunc \<Rightarrow> nat \<Rightarrow> Context \<Rightarrow> ExecutionState \<Rightarrow> (int list \<times> ExecutionState) go" where
  \<comment> \<open>the addresses that so many returns lead to\<close>
  "run_returns ret 0 ctx s = Inr ([], s)"
| "run_returns ret (Suc n) ctx s =
     andThen (ret ctx s) (\<lambda>(pc, ctx', s'). andThen (run_returns ret n ctx' s') (\<lambda>(pcs, s''). Inr (pc # pcs, s'')))"

text \<open>
  What a call and a return instruction promise together: up to the supported depth a call enters the
  fragment and remembers the address after it; a return leads to the address remembered last.
\<close>

locale return_stack =
  fixes call :: "int \<Rightarrow> InstructionFunc" and ret :: InstructionFunc and cap :: nat
  assumes call_law: "link_ok s \<Longrightarrow> length (addrs s) < cap \<Longrightarrow>
      \<exists>s'. call entry ctx s = Inr (entry, ctx, s') \<and> link_ok s' \<and> addrs s' = next_pc s # addrs s"
    and ret_law: "link_ok s \<Longrightarrow> addrs s = a # as \<Longrightarrow> length (addrs s) \<le> cap \<Longrightarrow>
      \<exists>s'. ret ctx s = Inr (a, ctx, s') \<and> link_ok s' \<and> addrs s' = as"
begin

lemma PC_irrelevant: "link_ok (s\<lparr>PC := pc\<rparr>) = link_ok s" "addrs (s\<lparr>PC := pc\<rparr>) = addrs s"
  by (simp_all add: link_ok_def addrs_def)

lemma calls_push:
  "link_ok s \<Longrightarrow> length (addrs s) + length cs \<le> cap \<Longrightarrow>
   \<exists>s'. run_calls call cs ctx s = Inr (ctx, s') \<and> link_ok s' \<and>
     addrs s' = rev (map (\<lambda>(pc, _). i16 (pc + 1)) cs) @ addrs s"
proof (induction cs arbitrary: s)
  case (Cons c cs)
  obtain pc entry where c: "c = (pc, entry)" by (cases c)
  obtain s1 where s1: "call entry ctx (s\<lparr>PC := pc\<rparr>) = Inr (entry, ctx, s1)" "link_ok s1"
    "addrs s1 = next_pc (s\<lparr>PC := pc\<rparr>) # addrs s"
    using call_law [of "s\<lparr>PC := pc\<rparr>" entry ctx] Cons.prems PC_irrelevant by auto
  obtain s' where "run_calls call cs ctx s1 = Inr (ctx, s')" "link_ok s'"
    "addrs s' = rev (map (\<lambda>(pc, _). i16 (pc + 1)) cs) @ addrs s1"
    using Cons.IH [OF s1(2)] Cons.prems s1(3) by auto
  then show ?case using c s1 by (simp add: next_pc_def)
qed simp

lemma returns_pop:
  "link_ok s \<Longrightarrow> addrs s = xs @ ys \<Longrightarrow> length (addrs s) \<le> cap \<Longrightarrow>
   \<exists>s'. run_returns ret (length xs) ctx s = Inr (xs, s') \<and> link_ok s' \<and> addrs s' = ys"
proof (induction xs arbitrary: s)
  case (Cons x xs)
  then obtain s1 where s1: "ret ctx s = Inr (x, ctx, s1)" "link_ok s1" "addrs s1 = xs @ ys"
    using ret_law [of s x "xs @ ys" ctx] by auto
  then show ?case using Cons.IH [OF s1(2,3)] Cons.prems by auto
qed simp

lemma nested_return:
  assumes "link_ok s" "length (addrs s) + length cs \<le> cap"
  shows "\<exists>s'. andThen (run_calls call cs ctx s) (\<lambda>(ctx', s1). run_returns ret (length cs) ctx' s1) =
      Inr (rev (map (\<lambda>(pc, _). i16 (pc + 1)) cs), s') \<and> link_ok s' \<and> addrs s' = addrs s"
proof -
  obtain s1 where s1: "run_calls call cs ctx s = Inr (ctx, s1)" "link_ok s1"
    "addrs s1 = rev (map (\<lambda>(pc, _). i16 (pc + 1)) cs) @ addrs s"
    using calls_push [OF assms] by blast
  then show ?thesis using returns_pop [OF s1(2,3), of ctx] assms(2) by simp
qed

end

lemma length_addrs: "link_ok s \<Longrightarrow> length (addrs s) = nat (StackPtr s)"
  by (cases "LinkExt s") (auto simp: link_ok_def addrs_def)

lemma i16_small [simp]: "0 \<le> x \<Longrightarrow> x < 200 \<Longrightarrow> i16 x = x"
  by (simp add: i16_id)

lemma take_update_push:
  "n < length xs \<Longrightarrow> rev (take (Suc n) (xs[n := v])) = v # rev (take n xs)"
  by (simp add: take_Suc_conv_app_nth)

lemma addrs_ext:
  assumes "link_ok s" "StackPtr s = int n"
  shows "addrs s = rev (take n (LinkStack s @ (case LinkExt s of None \<Rightarrow> BorrowLinkExt | Some b \<Rightarrow> b)))"
  using assms by (auto simp: addrs_def link_ok_def split: option.splits)

lemma CallFragment_law:
  assumes "link_ok s" "length (addrs s) < 128"
  shows "\<exists>s'. CallFragment entry ctx s = Inr (entry, ctx, s') \<and> link_ok s' \<and> addrs s' = next_pc s # addrs s"
proof -
  have ok: "length (LinkStack s) = 16" "0 \<le> StackPtr s" "StackPtr s < 128"
    using assms length_addrs [OF assms(1)] by (auto simp: link_ok_def)
  obtain n where n: "StackPtr s = int n" using ok(2) by (rule nonneg_int_cases)
  then have n128: "n < 128" using ok(3) by simp
  have sp: "i16 (StackPtr s + 1) = int (Suc n)" using n n128 by simp
  let ?ext = "case LinkExt s of None \<Rightarrow> BorrowLinkExt | Some b \<Rightarrow> b"
  have ext: "length ?ext = 112" using assms(1) by (auto simp: link_ok_def BorrowLinkExt_def split: option.splits)
  have "n < length (LinkStack s @ ?ext)" using ok n128 ext by simp
  note push = take_update_push [OF this, of "next_pc s"]
  show ?thesis
  proof (cases "n < 16")
    case True
    let ?s = "s\<lparr>LinkStack := (LinkStack s)[n := next_pc s], StackPtr := int (Suc n)\<rparr>"
    have "CallFragment entry ctx s = Inr (entry, ctx, ?s)"
      using True ok(1) n by (simp add: CallFragment_def Let_def sp [unfolded n])
    moreover have ok': "link_ok ?s" using assms(1) True by (auto simp: link_ok_def)
    moreover have "addrs ?s = next_pc s # addrs s"
    proof -
      have "addrs ?s = rev (take (Suc n) ((LinkStack s @ ?ext)[n := next_pc s]))"
        using addrs_ext [OF ok', of "Suc n"] True ok(1) by (simp add: list_update_append)
      then show ?thesis unfolding push addrs_ext [OF assms(1) n] .
    qed
    ultimately show ?thesis by blast
  next
    case False
    let ?s = "s\<lparr>LinkExt := Some (?ext[n - 16 := next_pc s]), StackPtr := int (Suc n)\<rparr>"
    have "set_idx ?ext (StackPtr s - 16) (next_pc s) = Inr (?ext[n - 16 := next_pc s])"
      using False n n128 ext by (simp add: set_idx_def nat_diff_distrib)
    then have "CallFragment entry ctx s = Inr (entry, ctx, ?s)"
      using False ok(3) n by (simp add: CallFragment_def Let_def sp [unfolded n])
    moreover have ok': "link_ok ?s" using assms(1) False n128 ext by (auto simp: link_ok_def)
    moreover have "addrs ?s = next_pc s # addrs s"
    proof -
      have "addrs ?s = rev (take (Suc n) ((LinkStack s @ ?ext)[n := next_pc s]))"
        using addrs_ext [OF ok', of "Suc n"] False ok(1) by (simp add: list_update_append)
      then show ?thesis unfolding push addrs_ext [OF assms(1) n] .
    qed
    ultimately show ?thesis by blast
  qed
qed

lemma take_pop: "n < length xs \<Longrightarrow> rev (take (Suc n) xs) = a # as \<Longrightarrow> xs ! n = a \<and> rev (take n xs) = as"
  by (simp add: take_Suc_conv_app_nth)

lemma pop_link:
  assumes "link_ok s" "addrs s = a # as"
  obtains n where "StackPtr s = int (Suc n)" "n < 128"
    "a = (if n < 16 then LinkStack s ! n else the (LinkExt s) ! (n - 16))"
    "link_ok (s\<lparr>StackPtr := int n\<rparr>)" "addrs (s\<lparr>StackPtr := int n\<rparr>) = as"
proof -
  have "length (addrs s) = nat (StackPtr s)" by (rule length_addrs [OF assms(1)])
  then obtain n where n: "StackPtr s = int (Suc n)" using assms(2) by (metis length_Cons nat_eq_iff2 nat.simps(3) int_nat_eq)
  let ?ext = "case LinkExt s of None \<Rightarrow> BorrowLinkExt | Some b \<Rightarrow> b"
  have ok: "n < 128" "length (LinkStack s) = 16" "16 \<le> n \<Longrightarrow> LinkExt s \<noteq> None" "length ?ext = 112"
    using assms(1) n by (auto simp: link_ok_def BorrowLinkExt_def split: option.splits)
  then have len: "n < length (LinkStack s @ ?ext)" by simp
  have ok': "link_ok (s\<lparr>StackPtr := int n\<rparr>)" using assms(1) n by (auto simp: link_ok_def)
  have "rev (take (Suc n) (LinkStack s @ ?ext)) = a # as" using addrs_ext [OF assms(1) n] assms(2) by simp
  then have "(LinkStack s @ ?ext) ! n = a" "rev (take n (LinkStack s @ ?ext)) = as"
    using take_pop [OF len] by blast+
  moreover from this have "addrs (s\<lparr>StackPtr := int n\<rparr>) = as" using addrs_ext [OF ok', of n] by simp
  moreover from calculation have "a = (if n < 16 then LinkStack s ! n else the (LinkExt s) ! (n - 16))"
    using ok by (auto simp: nth_append)
  ultimately show ?thesis using that n ok ok' by blast
qed

lemma Return_law:
  assumes "link_ok s" "addrs s = a # as"
  shows "\<exists>s'. Return ctx s = Inr (a, ctx, s') \<and> link_ok s' \<and> addrs s' = as"
proof -
  obtain n where n: "StackPtr s = int (Suc n)" "n < 128"
    "a = (if n < 16 then LinkStack s ! n else the (LinkExt s) ! (n - 16))"
    "link_ok (s\<lparr>StackPtr := int n\<rparr>)" "addrs (s\<lparr>StackPtr := int n\<rparr>) = as"
    by (rule pop_link [OF assms])
  have ok: "length (LinkStack s) = 16" "16 \<le> n \<Longrightarrow> \<exists>b. LinkExt s = Some b \<and> length b = 112"
    using assms(1) n(1) by (auto simp: link_ok_def)
  have "Return ctx s = Inr (a, ctx, s\<lparr>StackPtr := int n\<rparr>)"
  proof (cases "n < 16")
    case True
    then show ?thesis using n ok by (simp add: Return_def)
  next
    case False
    then obtain b where "LinkExt s = Some b" "length b = 112" using ok by auto
    moreover have "nat (int n - 16) = n - 16" using False by simp
    ultimately show ?thesis using n False by (simp add: Return_def Let_def idx_def)
  qed
  then show ?thesis using n by blast
qed

lemma newReturnStep_law:
  assumes "link_ok s" "addrs s = a # as" "length (addrs s) \<le> 16"
  shows "\<exists>s'. newReturnStep ctx s = Inr (a, ctx, s') \<and> link_ok s' \<and> addrs s' = as"
proof -
  obtain n where n: "StackPtr s = int (Suc n)" "n < 128"
    "a = (if n < 16 then LinkStack s ! n else the (LinkExt s) ! (n - 16))"
    "link_ok (s\<lparr>StackPtr := int n\<rparr>)" "addrs (s\<lparr>StackPtr := int n\<rparr>) = as"
    by (rule pop_link [OF assms(1,2)])
  have "length (LinkStack s) = 16" "n < 16" using assms n length_addrs [OF assms(1)] by (auto simp: link_ok_def)
  then have "newReturnStep ctx s = Inr (a, ctx, s\<lparr>StackPtr := int n\<rparr>)" using n by (simp add: newReturnStep_def)
  then show ?thesis using n by blast
qed

interpretation step_return: return_stack CallFragment Return 128
  by unfold_locales (use CallFragment_law Return_law in auto)

interpretation ret_instr: return_stack CallFragment newReturnStep 16
  by unfold_locales (use CallFragment_law newReturnStep_law in auto)


lemma link_ok_zero: "link_ok zero_state" "addrs zero_state = []"
  by (simp_all add: link_ok_def addrs_def zero_state_def)

lemma CallFragment_full:
  assumes "link_ok s" "length (addrs s) = 128"
  shows "CallFragment entry ctx s = Inr (StopPlan, fail500 ctx, s)"
  using assms length_addrs [OF assms(1)] by (auto simp: CallFragment_def link_ok_def Let_def)

text \<open>C9. Fragments may be called inside one another to a depth of 128: after any such sequence of calls from a fresh
  execution state, that many \<open>Return\<close> steps lead back, innermost first, to the instructions after the calls, and leave
  no return address behind; for a depth of at most 16 the RET instruction the compiler emits does the same. A call made when
  128 calls are open enters no fragment: it stops the flow, marked as failed with status 500.\<close>

theorem nested_calls_return:
  "(length cs \<le> 128 \<longrightarrow> (\<exists>s. andThen (run_calls CallFragment cs ctx zero_state)
        (\<lambda>(ctx', s1). run_returns Return (length cs) ctx' s1) = Inr (rev (map (\<lambda>(pc, _). i16 (pc + 1)) cs), s) \<and> addrs s = [])) \<and>
   (length cs \<le> 16 \<longrightarrow> (\<exists>s. andThen (run_calls CallFragment cs ctx zero_state)
        (\<lambda>(ctx', s1). run_returns newReturnStep (length cs) ctx' s1) = Inr (rev (map (\<lambda>(pc, _). i16 (pc + 1)) cs), s) \<and> addrs s = [])) \<and>
   (length cs = 128 \<longrightarrow> (\<exists>s. run_calls CallFragment cs ctx zero_state = Inr (ctx, s) \<and>
        CallFragment entry ctx (s\<lparr>PC := pc\<rparr>) = Inr (StopPlan, fail500 ctx, s\<lparr>PC := pc\<rparr>)))"
proof -
  have "\<exists>s. run_calls CallFragment cs ctx zero_state = Inr (ctx, s) \<and>
      CallFragment entry ctx (s\<lparr>PC := pc\<rparr>) = Inr (StopPlan, fail500 ctx, s\<lparr>PC := pc\<rparr>)" if len: "length cs = 128"
  proof -
    obtain s where s: "run_calls CallFragment cs ctx zero_state = Inr (ctx, s)" "link_ok s" "length (addrs s) = 128"
      using step_return.calls_push [OF link_ok_zero(1), of cs ctx] len by (auto simp: link_ok_zero(2))
    then show ?thesis using CallFragment_full [of "s\<lparr>PC := pc\<rparr>"] step_return.PC_irrelevant by auto
  qed
  then show ?thesis
    using step_return.nested_return [OF link_ok_zero(1), of cs ctx] ret_instr.nested_return [OF link_ok_zero(1), of cs ctx]
    unfolding link_ok_zero(2) list.size(3) add_0 by blast
qed

theorem nested_calls_return_witness:
  "(\<exists>s. andThen (run_calls CallFragment [(3, 40), (45, 60)] (fresh_context 64) zero_state)
      (\<lambda>(ctx', s1). run_returns Return (Suc (Suc 0)) ctx' s1) = Inr ([46, 4], s)) \<and>
   (\<exists>s. run_calls CallFragment (replicate 128 (0, 0)) (fresh_context 64) zero_state = Inr (fresh_context 64, s) \<and>
      CallFragment 40 (fresh_context 64) (s\<lparr>PC := 7\<rparr>) = Inr (StopPlan, fail500 (fresh_context 64), s\<lparr>PC := 7\<rparr>))"
  using nested_calls_return [of "[(3, 40), (45, 60)]" "fresh_context 64", THEN conjunct1]
    nested_calls_return [of "replicate 128 (0, 0)" "fresh_context 64" 40 7, THEN conjunct2, THEN conjunct2]
  by (auto simp del: run_calls.simps run_returns.simps)

text \<open>C32. Deeper than 16 the compiled RET instruction panics: \<open>CallFragment\<close> accepts calls to a depth of 128 and keeps the
  addresses from the 17th on in the overflow block, but RET reads the inline array only.\<close>

theorem compiled_return_panics:
  assumes "16 < length cs" "length cs \<le> 128"
  shows "\<exists>ctx' s. run_calls CallFragment cs ctx zero_state = Inr (ctx', s) \<and> newReturnStep ctx' s = Inl IndexOutOfRange"
proof -
  obtain s where s: "run_calls CallFragment cs ctx zero_state = Inr (ctx, s)" "link_ok s"
    "addrs s = rev (map (\<lambda>(pc, _). i16 (pc + 1)) cs) @ addrs zero_state"
    using step_return.calls_push [OF link_ok_zero(1), of cs ctx] assms(2) by (auto simp: link_ok_zero(2))
  then have "nat (StackPtr s) = length cs" using length_addrs [OF s(2)] by (simp add: link_ok_zero(2))
  then have "newReturnStep ctx s = Inl IndexOutOfRange"
    using s(2) assms(1) by (auto simp: newReturnStep_def link_ok_def idx_def Let_def)
  then show ?thesis using s(1) by blast
qed

theorem compiled_return_panics_witness:
  "\<exists>ctx' s. run_calls CallFragment (replicate 17 (0, 0)) (fresh_context 64) zero_state = Inr (ctx', s) \<and>
     newReturnStep ctx' s = Inl IndexOutOfRange"
  by (rule compiled_return_panics) simp_all

subsection \<open>The loop as a step relation, and its log\<close>

inductive exec_path ::
  "(nat \<Rightarrow> int option) \<Rightarrow> Instruction list \<Rightarrow> nat \<Rightarrow> int \<Rightarrow> Context \<Rightarrow> ExecutionState \<Rightarrow> int list \<Rightarrow>
     (Context \<times> ExecutionState) go \<Rightarrow> bool"
  for obs table where
  \<comment> \<open>the program counters of a complete run and its result\<close>
  path_out: "\<not> (0 \<le> pc \<and> pc < i16 (int (length table))) \<Longrightarrow> exec_path obs table k pc ctx s [] (Inr (ctx, s))"
| path_panic: "0 \<le> pc \<and> pc < i16 (int (length table)) \<Longrightarrow> exec_step obs table k pc ctx s = Inl p \<Longrightarrow>
     exec_path obs table k pc ctx s [pc] (Inl p)"
| path_stop: "0 \<le> pc \<and> pc < i16 (int (length table)) \<Longrightarrow> exec_step obs table k pc ctx s = Inr (StopPlan, ctx', s') \<Longrightarrow>
     exec_path obs table k pc ctx s [pc] (Inr (ctx', s'))"
| path_next: "0 \<le> pc \<and> pc < i16 (int (length table)) \<Longrightarrow> exec_step obs table k pc ctx s = Inr (pc', ctx', s') \<Longrightarrow>
     pc' \<noteq> StopPlan \<Longrightarrow> exec_path obs table (Suc k) pc' ctx' s' pcs r \<Longrightarrow> exec_path obs table k pc ctx s (pc # pcs) r"

lemma exec_loop_path:
  assumes "exec_loop obs table k pc ctx s = Some r"
  shows "\<exists>pcs. exec_path obs table k pc ctx s pcs r"
proof (rule exec_loop.raw_induct [of "\<lambda>obs table k pc ctx s r. \<exists>pcs. exec_path obs table k pc ctx s pcs r", OF _ assms])
  fix f obs table k pc ctx s r
  assume IH: "\<And>obs table k pc ctx s r. f obs table k pc ctx s = Some r \<Longrightarrow> \<exists>pcs. exec_path obs table k pc ctx s pcs r"
    and body: "(if \<not> (0 \<le> pc \<and> pc < i16 (int (length table))) then Some (Inr (ctx, s))
      else case exec_step obs table k pc ctx s of
             Inl p \<Rightarrow> Some (Inl p)
           | Inr (pc', ctx', s') \<Rightarrow> if pc' = StopPlan then Some (Inr (ctx', s')) else f obs table (Suc k) pc' ctx' s') = Some r"
  show "\<exists>pcs. exec_path obs table k pc ctx s pcs r"
  proof (cases "0 \<le> pc \<and> pc < i16 (int (length table))")
    case True
    show ?thesis
    proof (cases "exec_step obs table k pc ctx s")
      case (Inl p)
      then show ?thesis using body True path_panic [OF True Inl] by auto
    next
      case (Inr c)
      obtain pc' ctx' s' where c: "c = (pc', ctx', s')" by (cases c)
      then have e: "exec_step obs table k pc ctx s = Inr (pc', ctx', s')" using Inr by simp
      show ?thesis
      proof (cases "pc' = StopPlan")
        case stop: True
        then show ?thesis using body True e path_stop [OF True, of obs k ctx s ctx' s'] by auto
      next
        case False
        then have "f obs table (Suc k) pc' ctx' s' = Some r" using body True e by simp
        then show ?thesis using IH path_next [OF True e False] by blast
      qed
    qed
  next
    case False
    then have "r = Inr (ctx, s)" using body by auto
    then show ?thesis using path_out [OF False] by blast
  qed
qed

lemma path_exec_loop: "exec_path obs table k pc ctx s pcs r \<Longrightarrow> exec_loop obs table k pc ctx s = Some r"
  by (induction rule: exec_path.induct) (simp_all add: exec_loop.simps)

definition log_neutral :: "InstructionFunc \<Rightarrow> bool" where
  "log_neutral a \<longleftrightarrow> (\<forall>ctx s pc' ctx' s'. a ctx s = Inr (pc', ctx', s') \<longrightarrow> ilog ctx' = ilog ctx \<and> PC s' = PC s)"

lemma exec_step_log:
  assumes "\<forall>a \<in> set table. log_neutral (Action a)" "exec_step obs table k pc ctx s = Inr (pc', ctx', s')"
  shows "\<exists>dur. ilog ctx' = AppendInstr pc dur (ilog ctx)"
  using assms(2)
proof (rule exec_step_elim)
  fix pc1 ctx1 s1 s2
  assume pc: "0 \<le> pc" "pc < int (length table)"
    and a: "Action (table ! nat pc) ctx (s\<lparr>PC := pc\<rparr>) = Inr (pc1, ctx1, s1)"
    and r: "redirect pc1 ctx1 s1 = (pc', s2)" and l: "log_instr (obs k) ctx1 s2 = (ctx', s')"
  have "log_neutral (Action (table ! nat pc))" using assms(1) pc by (simp add: nat_less_iff)
  then have "ilog ctx1 = ilog ctx" "PC s1 = pc" using a by (fastforce simp: log_neutral_def)+
  moreover have "PC s2 = PC s1" using redirect_eq [OF r] by auto
  ultimately show ?thesis using l by (auto simp: log_instr_def split: option.splits)
qed

lemma path_log:
  assumes "\<forall>a \<in> set table. log_neutral (Action a)" "exec_path obs table k pc ctx s pcs (Inr (ctx', s'))" "ilog_ok (ilog ctx)"
  shows "map fst (IterInstructions (ilog ctx')) = map fst (IterInstructions (ilog ctx)) @ pcs"
  using assms(2,3)
proof (induction k pc ctx s pcs "Inr (ctx', s') :: (Context \<times> ExecutionState) go" rule: exec_path.induct)
  case (path_stop pc k ctx s)
  then show ?case using exec_step_log [OF assms(1) path_stop(2)] AppendInstr_ok by fastforce
next
  case (path_next pc k ctx s pc' ctx1 s1 pcs)
  then show ?case using exec_step_log [OF assms(1) path_next(2)] AppendInstr_ok by fastforce
qed simp_all

text \<open>C12. The executor implements the step relation of instruction tables: it returns a result exactly when a complete
  run of single steps leads to it, and when it returns normally the instruction log of the context has grown by exactly
  the program counters of that run, in order, through the inline array and the overflow blocks.\<close>

theorem Execute_refines_steps:
  assumes "\<forall>a \<in> set table. log_neutral (Action a)" "ilog_ok (ilog ctx)"
  shows "(Execute obs table start depth ctx = Some (Inr ctx') \<longleftrightarrow>
      (\<exists>pcs s. exec_path obs table 0 start ctx (if depth > 15 then zero_state\<lparr>LinkExt := Some BorrowLinkExt\<rparr> else zero_state)
         pcs (Inr (ctx', s)))) \<and>
    (Execute obs table start depth ctx = Some (Inr ctx') \<longrightarrow>
      (\<exists>pcs s. exec_path obs table 0 start ctx (if depth > 15 then zero_state\<lparr>LinkExt := Some BorrowLinkExt\<rparr> else zero_state)
         pcs (Inr (ctx', s)) \<and>
       map fst (IterInstructions (ilog ctx')) = map fst (IterInstructions (ilog ctx)) @ pcs))"
proof -
  let ?s = "if depth > 15 then zero_state\<lparr>LinkExt := Some BorrowLinkExt\<rparr> else zero_state"
  have "Execute obs table start depth ctx = Some (Inr ctx') \<longleftrightarrow> (\<exists>s. exec_loop obs table 0 start ctx ?s = Some (Inr (ctx', s)))"
    unfolding Execute_def by (cases "exec_loop obs table 0 start ctx ?s") (auto simp: andThen_eq_Inr_iff)
  also have "\<dots> \<longleftrightarrow> (\<exists>pcs s. exec_path obs table 0 start ctx ?s pcs (Inr (ctx', s)))"
    using exec_loop_path path_exec_loop by blast
  finally show ?thesis using path_log [OF assms(1) _ assms(2)] by blast
qed


theorem Execute_refines_steps_witness:
  "\<exists>ctx' pcs s. Execute (\<lambda>_. None) [instr ''GOTO'' (newInternalJump 1), instr ''STOP'' newStopStep] 0 0 (fresh_context 64) =
       Some (Inr ctx') \<and> map fst (IterInstructions (ilog ctx')) = pcs \<and>
     exec_path (\<lambda>_. None) [instr ''GOTO'' (newInternalJump 1), instr ''STOP'' newStopStep] 0 0 (fresh_context 64) zero_state pcs (Inr (ctx', s))"
proof -
  let ?t = "[instr ''GOTO'' (newInternalJump 1), instr ''STOP'' newStopStep]"
  have n: "\<forall>a \<in> set ?t. log_neutral (Action a)" by (simp add: log_neutral_def newInternalJump_def newStopStep_def)
  have l: "ilog_ok (ilog (fresh_context 64))" "IterInstructions (ilog (fresh_context 64)) = []"
    by (simp_all add: ilog_ok_def fresh_context_def IterInstructions_def)
  obtain ctx' where e: "Execute (\<lambda>_. None) ?t 0 0 (fresh_context 64) = Some (Inr ctx')"
    by (simp add: Execute_def exec_loop.simps exec_step_def newInternalJump_def newStopStep_def redirect_def StopPlan_def
        log_instr_def idx_def i16_def zero_state_def)
  then show ?thesis
    using Execute_refines_steps [OF n l(1), of "\<lambda>_. None" 0 0 ctx'] l(2) by auto
qed

end
