(* ===== verification/Rah_Loop_Laws.thy ===== *)
theory Rah_Loop_Laws
  imports Rah_Exec_Laws Rah_Steps
begin

text \<open>
  Laws of the loop instructions: a while step whose body runs through ends and clears its counter; a foreach step over
  a JSON array, with the packed index it keeps, and the elements its body really gets. Also the laws of the slot accessors
  on contexts of the right shape (\<open>ctx_ok\<close>), which the other step theories use.
\<close>

unbundle bit_operations_syntax

subsection \<open>Contexts of the right shape\<close>

primrec exec_n ::
  "(nat \<Rightarrow> int option) \<Rightarrow> Instruction list \<Rightarrow> nat \<Rightarrow> nat \<Rightarrow> int \<Rightarrow> Context \<Rightarrow> ExecutionState \<Rightarrow>
     (int \<times> Context \<times> ExecutionState) go" where
  \<comment> \<open>so many passes of the loop body\<close>
  "exec_n obs table 0 k pc ctx s = Inr (pc, ctx, s)"
| "exec_n obs table (Suc n) k pc ctx s =
     andThen (exec_step obs table k pc ctx s) (\<lambda>(pc', ctx', s'). exec_n obs table n (Suc k) pc' ctx' s')"

lemma exec_n_add:
  "exec_n obs table (m + n) k pc ctx s =
   andThen (exec_n obs table m k pc ctx s) (\<lambda>(pc', ctx', s'). exec_n obs table n (k + m) pc' ctx' s')"
  by (induction m arbitrary: k pc ctx s) (auto simp: andThen_def split: sum.splits prod.splits)

definition int_slots_ok :: "Context \<Rightarrow> bool" where
  "int_slots_ok ctx \<longleftrightarrow> length (intSlotBase (slots ctx)) = BaseIntSlots \<and>
     (\<forall>b. intSlotExt (slots ctx) = Some b \<longrightarrow> length b = ExtIntSlots)"

definition ctx_ok :: "Context \<Rightarrow> bool" where
  \<comment> \<open>the shape of a context: the slot arrays have their sizes and the arena is within its blocks\<close>
  "ctx_ok ctx \<longleftrightarrow> length (ByteSlots (slots ctx)) = BaseByteSlots \<and> length (BoolSlots (slots ctx)) = BaseBoolSlots \<and>
     int_slots_ok ctx \<and> arena_inv (arenas ctx)"

definition bslot :: "int \<Rightarrow> Context \<Rightarrow> bytes" where
  "bslot i ctx = ByteSlots (slots ctx) ! nat i"

abbreviation byte_slot_no :: "int \<Rightarrow> bool" where
  "byte_slot_no i \<equiv> 0 \<le> i \<and> i < 48"

lemma byteSlot_law: "ctx_ok ctx \<Longrightarrow> byte_slot_no i \<Longrightarrow> byteSlot i ctx = Inr (bslot i ctx)"
  by (simp add: ctx_ok_def byteSlot_def idx_def bslot_def BaseByteSlots_def)

lemma set_byteSlot_law:
  assumes "ctx_ok ctx" "byte_slot_no i"
  shows "\<exists>ctx'. set_byteSlot i v ctx = Inr ctx' \<and> ctx_ok ctx' \<and> bslot i ctx' = v \<and>
    (\<forall>j. byte_slot_no j \<longrightarrow> j \<noteq> i \<longrightarrow> bslot j ctx' = bslot j ctx) \<and> (\<forall>j. ctx_GetInt j ctx' = ctx_GetInt j ctx)"
  using assms
  by (auto simp: ctx_ok_def set_byteSlot_def set_idx_def bslot_def BaseByteSlots_def int_slots_ok_def ctx_GetInt_def GetInt_def
      nth_list_update eq_nat_nat_iff)

lemma alloc_copy_law:
  assumes "ctx_ok ctx"
  shows "\<exists>ctx'. alloc_copy v ctx = Inr (v, ctx') \<and> ctx_ok ctx' \<and> slots ctx' = slots ctx"
proof (cases "int (length v) \<le> maxAlloc")
  case True
  obtain r a' where "Alloc (int (length v)) (arenas ctx) = Inr (r, a')" "arena_inv a'"
    by (rule Alloc_step [of "arenas ctx" "int (length v)"]) (use assms True in \<open>auto simp: ctx_ok_def\<close>)
  then show ?thesis using assms True by (auto simp: alloc_copy_def ctx_ok_def int_slots_ok_def)
qed (use assms in \<open>simp add: alloc_copy_def\<close>)

lemma ctx_SetInt_ok:
  assumes "ctx_ok ctx" "0 \<le> i" "i < 32"
  shows "\<exists>ctx'. ctx_SetInt i v ctx = Inr ctx' \<and> ctx_ok ctx' \<and> ctx_GetInt i ctx' = Inr v \<and> (\<forall>j. bslot j ctx' = bslot j ctx)"
  using assms
  by (auto simp: ctx_ok_def int_slots_ok_def ctx_SetInt_def ctx_GetInt_def SetInt_def GetInt_def set_idx_def idx_def
      BaseIntSlots_def ExtIntSlots_def bslot_def split: option.splits)

lemma ctx_ok_fresh: "ctx_ok (fresh_context m)" "0 \<le> i \<Longrightarrow> i < 32 \<Longrightarrow> ctx_GetInt i (fresh_context m) = Inr 0"
  by (auto simp: ctx_ok_def int_slots_ok_def fresh_context_def zero_slots_def ctx_GetInt_def GetInt_def idx_def BaseIntSlots_def
      BaseByteSlots_def BaseBoolSlots_def arena_inv_def ArenaInlineSize_def)

subsection \<open>Straight-line bodies\<close>

definition same_store :: "Context \<Rightarrow> Context \<Rightarrow> bool" where
  "same_store ctx ctx' \<longleftrightarrow> slots ctx = slots ctx' \<and> arenas ctx = arenas ctx'"

lemma same_store_ok:
  "same_store ctx ctx' \<Longrightarrow> ctx_ok ctx = ctx_ok ctx' \<and> ctx_GetInt i ctx = ctx_GetInt i ctx' \<and> bslot i ctx = bslot i ctx'"
  by (simp add: same_store_def ctx_ok_def int_slots_ok_def ctx_GetInt_def bslot_def)

definition store_view :: "(Context \<Rightarrow> 'v) \<Rightarrow> bool" where
  "store_view view \<longleftrightarrow> (\<forall>ctx ctx'. same_store ctx ctx' \<longrightarrow> view ctx = view ctx')"

lemma store_view_eq: "store_view view \<Longrightarrow> same_store ctx ctx' \<Longrightarrow> view ctx = view ctx'"
  by (simp add: store_view_def)

definition quiet :: "(Context \<Rightarrow> 'v) \<Rightarrow> InstructionFunc \<Rightarrow> bool" where
  \<comment> \<open>goes on to the next instruction and leaves what \<open>view\<close> shows of the context alone\<close>
  "quiet view a \<longleftrightarrow>
     (\<forall>ctx s. ctx_ok ctx \<longrightarrow> (\<exists>ctx' s'. a ctx s = Inr (next_pc s, ctx', s') \<and> ctx_ok ctx' \<and> view ctx' = view ctx))"

lemma quiet_SetConstStep:
  assumes "byte_slot_no i" "\<And>ctx ctx'. slots ctx' = (slots ctx)\<lparr>ByteSlots := (ByteSlots (slots ctx))[nat i := v]\<rparr> \<Longrightarrow> view ctx' = view ctx"
  shows "quiet view (SetConstStep v i)"
  using assms
  by (auto simp: quiet_def SetConstStep_def put_slot_def set_byteSlot_def set_idx_def continue_def ctx_ok_def int_slots_ok_def
      BaseByteSlots_def)

primrec values_at ::
  "(nat \<Rightarrow> int option) \<Rightarrow> Instruction list \<Rightarrow> int \<Rightarrow> int \<Rightarrow> nat \<Rightarrow> nat \<Rightarrow> int \<Rightarrow> Context \<Rightarrow> ExecutionState \<Rightarrow> bytes list" where
  \<comment> \<open>what a byte slot holds whenever the executor arrives at an address, over so many passes\<close>
  "values_at obs table slot at 0 k pc ctx s = []"
| "values_at obs table slot at (Suc n) k pc ctx s =
     (case exec_step obs table k pc ctx s of
        Inl _ \<Rightarrow> []
      | Inr (pc', ctx', s') \<Rightarrow>
          (if pc' = at then [bslot slot ctx'] else []) @ values_at obs table slot at n (Suc k) pc' ctx' s')"

lemma values_at_add:
  "exec_n obs table m k pc ctx s = Inr (pc', ctx', s') \<Longrightarrow>
   values_at obs table slot at (m + n) k pc ctx s =
     values_at obs table slot at m k pc ctx s @ values_at obs table slot at n (k + m) pc' ctx' s'"
  by (induction m arbitrary: k pc ctx s) (auto simp: andThen_def split: sum.splits prod.splits)

lemma exec_step_at:
  assumes "0 \<le> pc" "pc < int (length table)" "Action (table ! nat pc) ctx (s\<lparr>PC := pc\<rparr>) = Inr (pc', ctx1, s1)" "0 \<le> pc'"
  shows "\<exists>ctx' s'. exec_step obs table k pc ctx s = Inr (pc', ctx', s') \<and> same_store ctx' ctx1"
proof -
  obtain ctx' s' where l: "log_instr (obs k) ctx1 s1 = (ctx', s')" by (metis surj_pair)
  then have "exec_step obs table k pc ctx s = Inr (pc', ctx', s')"
    using assms by (simp add: exec_step_def idx_def redirect_def StopPlan_def Let_def)
  moreover have "same_store ctx' ctx1" using l by (auto simp: log_instr_def same_store_def split: option.splits)
  ultimately show ?thesis by blast
qed

lemma exec_quiet:
  assumes "\<forall>b \<in> set body. quiet view (Action b)" "store_view view" "length table < 2 ^ 15"
    and "\<forall>j < length body. g + j < length table \<and> table ! (g + j) = body ! j" "ctx_ok ctx" "at \<le> int g"
  shows "\<exists>ctx' s'. exec_n obs table (length body) k (int g) ctx s = Inr (int (g + length body), ctx', s') \<and>
    ctx_ok ctx' \<and> view ctx' = view ctx \<and> values_at obs table slot at (length body) k (int g) ctx s = []"
  using assms
proof (induction body arbitrary: g k ctx s)
  case (Cons b body)
  have g: "g < length table" "table ! g = b" using Cons.prems(4) by fastforce+
  have "quiet view (Action b)" using Cons.prems(1) by simp
  then obtain ctx1 s1 where a: "Action b ctx (s\<lparr>PC := int g\<rparr>) = Inr (next_pc (s\<lparr>PC := int g\<rparr>), ctx1, s1)"
    and ok1: "ctx_ok ctx1" "view ctx1 = view ctx"
    using Cons.prems(5) unfolding quiet_def by blast
  have "next_pc (s\<lparr>PC := int g\<rparr>) = int (Suc g)" using g(1) Cons.prems(3) by (simp add: next_pc_def i16_id)
  then obtain ctx2 s2 where st: "exec_step obs table k (int g) ctx s = Inr (int (Suc g), ctx2, s2)" "same_store ctx2 ctx1"
    using exec_step_at [of "int g" table ctx s "int (Suc g)" ctx1 s1 obs k] a g by auto
  have ok2: "ctx_ok ctx2" "view ctx2 = view ctx"
    using same_store_ok [OF st(2)] store_view_eq [OF Cons.prems(2) st(2)] ok1 by simp_all
  have body: "\<forall>j < length body. Suc g + j < length table \<and> table ! (Suc g + j) = body ! j"
    using Cons.prems(4) by fastforce
  have q: "\<forall>b \<in> set body. quiet view (Action b)" and at: "at \<le> int (Suc g)" using Cons.prems(1,6) by simp_all
  obtain ctx' s' where "exec_n obs table (length body) (Suc k) (int (Suc g)) ctx2 s2 = Inr (int (Suc g + length body), ctx', s')"
      "ctx_ok ctx'" "view ctx' = view ctx2" "values_at obs table slot at (length body) (Suc k) (int (Suc g)) ctx2 s2 = []"
    using Cons.IH [OF q Cons.prems(2,3) body ok2(1) at, of "Suc k" s2] by blast
  then show ?case using st(1) ok2 Cons.prems(6) by auto
qed auto

text \<open>A loop as the compiler lays it out: a gate, the body, and a jump back to the gate.\<close>

definition loop_at :: "Instruction list \<Rightarrow> nat \<Rightarrow> InstructionFunc \<Rightarrow> Instruction list \<Rightarrow> InstructionFunc \<Rightarrow> bool" where
  "loop_at table g gate body back \<longleftrightarrow>
     g + length body + 2 \<le> length table \<and> length table < 2 ^ 15 \<and>
     Action (table ! g) = gate \<and> Action (table ! (g + Suc (length body))) = back \<and>
     (\<forall>j < length body. table ! (Suc g + j) = body ! j)"

lemma loop_at_layout:
  assumes "table = pre @ (gate # body @ [back]) @ post" "length table < 2 ^ 15"
  shows "loop_at table (length pre) (Action gate) body (Action back)"
  using assms by (auto simp: loop_at_def nth_append)

lemma loop_leave:
  assumes "loop_at table g gate body back" "gate ctx (s\<lparr>PC := int g\<rparr>) = Inr (int (g + length body + 2), ctx1, s1)"
  shows "\<exists>ctx' s'. exec_n obs table 1 k (int g) ctx s = Inr (int (g + length body + 2), ctx', s') \<and> same_store ctx' ctx1 \<and>
    values_at obs table slot (int (Suc g)) 1 k (int g) ctx s = []"
proof -
  have "int g < int (length table)" using assms(1) by (simp add: loop_at_def)
  then obtain ctx' s' where "exec_step obs table k (int g) ctx s = Inr (int (g + length body + 2), ctx', s')" "same_store ctx' ctx1"
    using exec_step_at [of "int g" table ctx s "int (g + length body + 2)" ctx1 s1 obs k] assms by (fastforce simp: loop_at_def)
  then show ?thesis by simp
qed

lemma loop_round:
  assumes w: "loop_at table g gate body back" and q: "\<forall>b \<in> set body. quiet view (Action b)" "store_view view"
    and gate: "gate ctx (s\<lparr>PC := int g\<rparr>) = Inr (int (Suc g), ctx1, s1)" "ctx_ok ctx1"
    and bk: "\<And>ctx2 s2. ctx_ok ctx2 \<Longrightarrow> view ctx2 = view ctx1 \<Longrightarrow> \<exists>ctx3 s3. back ctx2 s2 = Inr (int g, ctx3, s3) \<and> Q ctx3"
    and Q: "\<And>ctx3 ctx4. Q ctx3 \<Longrightarrow> same_store ctx4 ctx3 \<Longrightarrow> Q ctx4"
  shows "\<exists>ctx' s'. exec_n obs table (length body + 2) k (int g) ctx s = Inr (int g, ctx', s') \<and> Q ctx' \<and>
    values_at obs table slot (int (Suc g)) (length body + 2) k (int g) ctx s = [bslot slot ctx1]"
proof -
  let ?r = "g + Suc (length body)"
  have len: "int g < int (length table)" "?r < length table" "length table < 2 ^ 15" using w by (simp_all add: loop_at_def)
  obtain ctx2 s2 where g: "exec_step obs table k (int g) ctx s = Inr (int (Suc g), ctx2, s2)" "same_store ctx2 ctx1"
    using exec_step_at [of "int g" table ctx s "int (Suc g)" ctx1 s1 obs k] gate(1) len(1) w by (fastforce simp: loop_at_def)
  have body: "\<forall>j < length body. Suc g + j < length table \<and> table ! (Suc g + j) = body ! j" using w by (simp add: loop_at_def)
  have ok2: "ctx_ok ctx2" using same_store_ok [OF g(2)] gate(2) by blast
  obtain ctx3 s3 where b: "exec_n obs table (length body) (Suc k) (int (Suc g)) ctx2 s2 = Inr (int (Suc g + length body), ctx3, s3)"
    "ctx_ok ctx3" "view ctx3 = view ctx2"
    "values_at obs table slot (int (Suc g)) (length body) (Suc k) (int (Suc g)) ctx2 s2 = []"
    using exec_quiet [OF q(1,2) len(3) body ok2, of "int (Suc g)" obs "Suc k" s2 slot] by blast
  obtain ctx4 s4 where c4: "back ctx3 (s3\<lparr>PC := int ?r\<rparr>) = Inr (int g, ctx4, s4)" "Q ctx4"
    using bk [OF b(2)] b(3) store_view_eq [OF q(2) g(2)] by metis
  then have "Action (table ! nat (int ?r)) ctx3 (s3\<lparr>PC := int ?r\<rparr>) = Inr (int g, ctx4, s4)"
    using w by (simp only: nat_int) (simp add: loop_at_def)
  then obtain ctx5 s5 where r: "exec_step obs table (Suc k + length body) (int ?r) ctx3 s3 = Inr (int g, ctx5, s5)" "same_store ctx5 ctx4"
    using exec_step_at [of "int ?r" table ctx3 s3 "int g" ctx4 s4] len(2) by fastforce
  have n: "length body + 2 = 1 + (length body + 1)" by simp
  have g1: "exec_n obs table 1 k (int g) ctx s = Inr (int (Suc g), ctx2, s2)" using g(1) by simp
  have e: "exec_n obs table (length body + 2) k (int g) ctx s = Inr (int g, ctx5, s5)"
    unfolding n using g(1) b(1) r(1) by (simp only: exec_n_add) (simp add: exec_n_add)
  have "values_at obs table slot (int (Suc g)) (length body + 2) k (int g) ctx s = [bslot slot ctx2]"
    unfolding n values_at_add [OF g1] using values_at_add [OF b(1), of slot "int (Suc g)" 1] g(1) b(4) r(1) by simp
  then show ?thesis using e Q [OF c4(2) r(2)] same_store_ok [OF g(2), of slot] by auto
qed

subsection \<open>While loops\<close>

lemma WhileGate_pass:
  assumes "ctx_ok ctx" "ctx_GetInt slot ctx = Inr i" "0 \<le> slot" "slot < 32" "in_i64 maxIter" "0 \<le> i"
    and lim: "lim = (if maxIter \<le> 0 then 100 else maxIter)"
  shows "\<exists>ctx'. ctx_ok ctx' \<and>
     (if \<not> condFn ctx \<or> lim \<le> i
      then WhileGate condFn slot maxIter b e ctx s = Inr (e, ctx', s) \<and> ctx_GetInt slot ctx' = Inr 0
      else WhileGate condFn slot maxIter b e ctx s = Inr (b, ctx', s) \<and> ctx_GetInt slot ctx' = Inr (i + 1))"
proof (cases "\<not> condFn ctx \<or> lim \<le> i")
  case True
  obtain ctx' where "ctx_SetInt slot 0 ctx = Inr ctx'" "ctx_ok ctx'" "ctx_GetInt slot ctx' = Inr 0"
    using ctx_SetInt_ok [OF assms(1,3,4)] by blast
  then show ?thesis using True assms(2) lim by (auto simp: WhileGate_def Let_def)
next
  case False
  then have "i64 (i + 1) = i + 1"
    using assms(5,6) lim by (intro i64_id) (auto simp: in_i64_def split: if_splits)
  moreover obtain ctx' where "ctx_SetInt slot (i + 1) ctx = Inr ctx'" "ctx_ok ctx'" "ctx_GetInt slot ctx' = Inr (i + 1)"
    using ctx_SetInt_ok [OF assms(1,3,4)] by blast
  ultimately show ?thesis using False assms(2) lim by (auto simp: WhileGate_def Let_def)
qed

lemma store_view_GetInt: "store_view (ctx_GetInt slot)"
  using same_store_ok by (simp add: store_view_def)

lemma while_iterate:
  assumes w: "loop_at table g (WhileGate condFn slot maxIter (int (Suc g)) (int (g + length body + 2))) body (WhileRepeat (int g))"
    and q: "\<forall>b \<in> set body. quiet (ctx_GetInt slot) (Action b)" and slot: "0 \<le> slot" "slot < 32" "in_i64 maxIter"
    and ok: "ctx_ok ctx" "ctx_GetInt slot ctx = Inr i" "0 \<le> i" "d = nat ((if maxIter \<le> 0 then 100 else maxIter) - i)"
  shows "\<exists>n ctx' s'. exec_n obs table n k (int g) ctx s = Inr (int (g + length body + 2), ctx', s') \<and>
      n \<le> d * (length body + 2) + 1 \<and> ctx_ok ctx' \<and> ctx_GetInt slot ctx' = Inr 0"
proof -
  let ?lim = "if maxIter \<le> 0 then 100 else maxIter" and ?e = "int (g + length body + 2)"
  have leave: "\<exists>n ctx' s'. exec_n obs table n k (int g) ctx s = Inr (?e, ctx', s') \<and>
      n \<le> d * (length body + 2) + 1 \<and> ctx_ok ctx' \<and> ctx_GetInt slot ctx' = Inr 0"
    if h: "ctx_ok ctx" "ctx_GetInt slot ctx = Inr i" "0 \<le> i" "\<not> condFn ctx \<or> ?lim \<le> i" for ctx i k s d
  proof -
    obtain ctx1 where "ctx_ok ctx1" "WhileGate condFn slot maxIter (int (Suc g)) ?e ctx (s\<lparr>PC := int g\<rparr>) = Inr (?e, ctx1, s\<lparr>PC := int g\<rparr>)"
        "ctx_GetInt slot ctx1 = Inr 0"
      using WhileGate_pass [OF h(1,2) slot h(3) refl, of condFn "int (Suc g)" ?e "s\<lparr>PC := int g\<rparr>"] h(4) by auto
    moreover from this obtain ctx' s' where "exec_n obs table 1 k (int g) ctx s = Inr (?e, ctx', s')" "same_store ctx' ctx1"
      using loop_leave [OF w, of ctx s ctx1 _ obs k] by blast
    ultimately show ?thesis using same_store_ok [of ctx' ctx1 slot] by (intro exI [of _ 1]) simp
  qed
  show ?thesis
    using ok
  proof (induction d arbitrary: i k ctx s)
    case 0
    then have "?lim \<le> i" by simp
    then show ?case using leave [OF 0(1-3)] by blast
  next
    case (Suc d)
    show ?case
    proof (cases "\<not> condFn ctx \<or> ?lim \<le> i")
      case False
      let ?Q = "\<lambda>c. ctx_ok c \<and> ctx_GetInt slot c = Inr (i + 1)"
      obtain ctx1 where c: "WhileGate condFn slot maxIter (int (Suc g)) ?e ctx (s\<lparr>PC := int g\<rparr>) = Inr (int (Suc g), ctx1, s\<lparr>PC := int g\<rparr>)"
        "ctx_GetInt slot ctx1 = Inr (i + 1)" "ctx_ok ctx1"
        using WhileGate_pass [OF Suc.prems(1,2) slot Suc.prems(3) refl, of condFn "int (Suc g)" ?e "s\<lparr>PC := int g\<rparr>"] False by auto
      have again: "\<exists>ctx3 s3. WhileRepeat (int g) ctx2 s2 = Inr (int g, ctx3, s3) \<and> ?Q ctx3"
        if "ctx_ok ctx2" "ctx_GetInt slot ctx2 = ctx_GetInt slot ctx1" for ctx2 s2
        using that c(2) by (simp add: WhileRepeat_def)
      have keep: "?Q c'" if "?Q c" "same_store c' c" for c c' using same_store_ok [OF that(2)] that(1) by simp
      have "\<exists>ctx2 s2. exec_n obs table (length body + 2) k (int g) ctx s = Inr (int g, ctx2, s2) \<and> ?Q ctx2 \<and>
          values_at obs table 0 (int (Suc g)) (length body + 2) k (int g) ctx s = [bslot 0 ctx1]"
        by (rule loop_round [OF w q store_view_GetInt c(1,3)]) (erule (1) again, erule (1) keep)
      then obtain ctx2 s2 where r: "exec_n obs table (length body + 2) k (int g) ctx s = Inr (int g, ctx2, s2)" "?Q ctx2" by blast
      have "d = nat (?lim - (i + 1))" "0 \<le> i + 1" using Suc.prems(3,4) by auto
      then obtain n ctx' s' where "exec_n obs table n (k + (length body + 2)) (int g) ctx2 s2 = Inr (?e, ctx', s')"
        "n \<le> d * (length body + 2) + 1" "ctx_ok ctx'" "ctx_GetInt slot ctx' = Inr 0"
        using Suc.IH [of ctx2 "i + 1" "k + (length body + 2)" s2] r(2) by blast
      then show ?thesis using r(1)
        by (intro exI [of _ "length body + 2 + n"]) (simp add: exec_n_add [of _ _ "length body + 2" n] del: exec_n.simps add_2_eq_Suc')
    qed (rule leave [OF Suc.prems(1-3)])
  qed
qed

text \<open>C11. A while step gives way to the step after it, wherever it stands in a table of fewer than 2^15 instructions and
  whatever its condition, under these conditions: on every well-shaped context each instruction of its body succeeds, goes on
  to the next instruction, keeps the shape and leaves the loop counter alone; the counter is one of the 32 integer slots, is
  0 at the start, and the context is well-shaped. Then the gate is passed at most as often as the iteration limit allows
  (100 if none is set), the executor reaches the instruction after the loop, and the counter is 0 again.\<close>

theorem while_step_ends:
  assumes "table = pre @ compile_while condFn iterSlot maxIter (int (length pre)) body @ post" "length table < 2 ^ 15"
    and "\<forall>b \<in> set body. quiet (ctx_GetInt iterSlot) (Action b)" "0 \<le> iterSlot" "iterSlot < 32" "in_i64 maxIter"
    and "ctx_ok ctx" "ctx_GetInt iterSlot ctx = Inr 0"
  shows "\<exists>n ctx' s'. exec_n obs table n k (int (length pre)) ctx s = Inr (int (length pre + length body + 2), ctx', s') \<and>
    n \<le> nat (if maxIter \<le> 0 then 100 else maxIter) * (length body + 2) + 1 \<and> ctx_ok ctx' \<and> ctx_GetInt iterSlot ctx' = Inr 0"
proof -
  have "i16 (int (length pre) + 1) = int (Suc (length pre))"
    "i16 (int (length pre) + int (length body) + 2) = int (length pre + length body + 2)"
    using assms(1,2) by (simp_all add: i16_id compile_while_def)
  then have "loop_at table (length pre) (WhileGate condFn iterSlot maxIter (int (Suc (length pre))) (int (length pre + length body + 2)))
      body (WhileRepeat (int (length pre)))"
    using loop_at_layout [of table pre _ body _ post] assms(1,2) by (simp add: compile_while_def)
  from while_iterate [OF this assms(3-8), of _ obs k s] show ?thesis by simp
qed

theorem while_step_ends_witness:
  "\<exists>n ctx' s'. exec_n (\<lambda>_. None) (compile_while (\<lambda>_. True) 20 3 0 [instr ''SET'' (SetConstStep [65] 3)] @ [instr ''STOP'' newStopStep])
     n 0 0 (fresh_context 64) zero_state = Inr (3, ctx', s') \<and> n \<le> 10 \<and> ctx_GetInt 20 ctx' = Inr 0"
proof -
  let ?b = "[instr ''SET'' (SetConstStep [65] 3)]"
  let ?t = "compile_while (\<lambda>_. True) 20 3 0 ?b @ [instr ''STOP'' newStopStep]"
  have "length ?t < 2 ^ 15" by (simp add: compile_while_def)
  moreover have "quiet (ctx_GetInt 20) (SetConstStep [65] 3)"
    by (rule quiet_SetConstStep) (simp_all add: ctx_GetInt_def GetInt_def)
  ultimately show ?thesis
    using while_step_ends [of ?t "[]" "\<lambda>_. True" 20 3 ?b "[instr ''STOP'' newStopStep]" "fresh_context 64" "\<lambda>_. None" 0 zero_state]
    by (auto simp: ctx_ok_fresh in_i64_def)
qed

subsection \<open>Foreach loops\<close>

lemma u32_bytes:
  "(ucast (ucast w :: u8) :: u32) OR push_bit 8 (ucast (ucast (drop_bit 8 w) :: u8)) OR
    push_bit 16 (ucast (ucast (drop_bit 16 w) :: u8)) OR push_bit 24 (ucast (ucast (drop_bit 24 w) :: u8)) = w"
proof (rule bit_word_eqI)
  fix n
  assume "n < LENGTH(32)"
  then consider "n < 8" | "8 \<le> n \<and> n < 16" | "16 \<le> n \<and> n < 24" | "24 \<le> n \<and> n < 32" by fastforce
  then show "bit ((ucast (ucast w :: u8) :: u32) OR push_bit 8 (ucast (ucast (drop_bit 8 w) :: u8)) OR
      push_bit 16 (ucast (ucast (drop_bit 16 w) :: u8)) OR push_bit 24 (ucast (ucast (drop_bit 24 w) :: u8))) n = bit w n"
    by cases (auto simp: bit_simps)
qed

lemma get_put_u32: "get_u32 (xs @ put_u32 w @ ys) (int (length xs)) = Inr w"
  using u32_bytes [of w] by (simp add: get_u32_def slice_def put_u32_def)

lemma length_put_u32 [simp]: "length (put_u32 w) = 4"
  by (simp add: put_u32_def)

lemma pack_spans_append: "pack_spans (xs @ ys) = pack_spans xs @ pack_spans ys"
  by (simp add: pack_spans_def)

lemma length_pack_spans [simp]: "length (pack_spans els) = 8 * length els"
  by (induction els) (auto simp: pack_spans_def)

lemma pack_spans_get:
  assumes "i < length els" "els ! i = (start, len)"
  shows "get_u32 (pack_spans els) (int i * 8) = Inr (word_of_int start)"
    and "get_u32 (pack_spans els) (int i * 8 + 4) = Inr (word_of_int (start + len))"
proof -
  have e: "pack_spans els = pack_spans (take i els) @ put_u32 (word_of_int start) @
      put_u32 (word_of_int (start + len)) @ pack_spans (drop (Suc i) els)"
    using assms by (subst id_take_nth_drop [of i els]) (simp_all add: pack_spans_def)
  have l: "length (pack_spans (take i els)) = i * 8" using assms(1) by simp
  show "get_u32 (pack_spans els) (int i * 8) = Inr (word_of_int start)"
    unfolding e using get_put_u32 [of "pack_spans (take i els)" "word_of_int start"] l by (simp add: mult.commute)
  show "get_u32 (pack_spans els) (int i * 8 + 4) = Inr (word_of_int (start + len))"
    unfolding e using get_put_u32 [of "pack_spans (take i els) @ put_u32 (word_of_int start)" "word_of_int (start + len)"] l
    by (simp add: mult.commute)
qed


definition element :: "bytes \<Rightarrow> int \<times> int \<Rightarrow> bytes" where
  "element raw sp = take (nat (snd sp)) (drop (nat (fst sp)) raw)"

definition json_array :: "(bytes \<Rightarrow> (int \<times> int) list option) \<Rightarrow> bytes \<Rightarrow> (int \<times> int) list \<Rightarrow> bool" where
  \<comment> \<open>\<open>raw\<close> is a non-empty array whose elements lie where the parser says\<close>
  "json_array gjson raw els \<longleftrightarrow> gjson raw = Some els \<and> els \<noteq> [] \<and> raw \<noteq> [] \<and> length raw < 2 ^ 32 \<and>
     (\<forall>(start, len) \<in> set els. 0 \<le> start \<and> 0 \<le> len \<and> start + len \<le> int (length raw))"

lemma uint_u32: "0 \<le> x \<Longrightarrow> x < 2 ^ 32 \<Longrightarrow> uint (word_of_int x :: u32) = x"
  by (simp add: uint_word_of_int)

lemma slice_element:
  assumes "json_array gjson raw els" "j < length els"
  shows "\<exists>start e. get_u32 (pack_spans els) (int j * 8) = Inr start \<and> get_u32 (pack_spans els) (int j * 8 + 4) = Inr e \<and>
    slice raw (uint start) (uint e) = Inr (element raw (els ! j))"
proof -
  obtain start len where e: "els ! j = (start, len)" by (cases "els ! j")
  then have "(start, len) \<in> set els" using assms(2) nth_mem by metis
  then have b: "0 \<le> start" "0 \<le> len" "start + len \<le> int (length raw)" "int (length raw) < 2 ^ 32"
    using assms(1) by (auto simp: json_array_def)
  then have "uint (word_of_int start :: u32) = start" "uint (word_of_int (start + len) :: u32) = start + len"
    by (intro uint_u32; linarith)+
  then show ?thesis using pack_spans_get [OF assms(2) e] b e
    by (auto simp: slice_def element_def nat_add_distrib)
qed


lemma index_ready:
  assumes ok: "ctx_ok ctx" and nos: "byte_slot_no src" "byte_slot_no ind" "src \<noteq> ind" and arr: "json_array gjson raw els"
    and raw: "bslot src ctx = raw" and i: "ctx_GetInt iter ctx = Inr (int j)" and ix: "j = 0 \<or> bslot ind ctx = pack_spans els"
  shows "\<exists>ctx1. (if int j = 0 then build_index gjson ind raw ctx else Inr (Some ctx)) = Inr (Some ctx1) \<and> ctx_ok ctx1 \<and>
      bslot ind ctx1 = pack_spans els \<and> bslot src ctx1 = raw \<and> ctx_GetInt iter ctx1 = Inr (int j)"
proof (cases "j = 0")
  case True
  obtain ctx1 where c1: "alloc_copy (pack_spans els) ctx = Inr (pack_spans els, ctx1)" "ctx_ok ctx1" "slots ctx1 = slots ctx"
    using alloc_copy_law [OF ok] by blast
  obtain ctx2 where "set_byteSlot ind (pack_spans els) ctx1 = Inr ctx2" "ctx_ok ctx2" "bslot ind ctx2 = pack_spans els"
    "\<forall>j. byte_slot_no j \<longrightarrow> j \<noteq> ind \<longrightarrow> bslot j ctx2 = bslot j ctx1" "\<forall>j. ctx_GetInt j ctx2 = ctx_GetInt j ctx1"
    using set_byteSlot_law [OF c1(2) nos(2)] by blast
  then show ?thesis
    using True c1 arr nos(1,3) raw i by (auto simp: build_index_def json_array_def bslot_def ctx_GetInt_def)
next
  case False
  then show ?thesis using ok ix raw i by simp
qed

lemma LoopGateSlot_pass:
  assumes ok: "ctx_ok ctx" and nos: "byte_slot_no src" "byte_slot_no val" "byte_slot_no ind" "0 \<le> iter" "iter < 32"
    and dist: "src \<noteq> val" "src \<noteq> ind" "val \<noteq> ind" and arr: "json_array gjson raw els" "length els < 2 ^ 62"
    and raw: "bslot src ctx = raw" and i: "ctx_GetInt iter ctx = Inr (int j)" and ix: "j = 0 \<or> bslot ind ctx = pack_spans els"
  shows "\<exists>ctx'. ctx_ok ctx' \<and> (if j < length els
     then LoopGateSlot gjson src val ind iter b e ctx s = Inr (b, ctx', s) \<and> bslot val ctx' = element raw (els ! j) \<and>
       bslot src ctx' = raw \<and> bslot ind ctx' = pack_spans els \<and> ctx_GetInt iter ctx' = Inr (int j + 1)
     else LoopGateSlot gjson src val ind iter b e ctx s = Inr (e, ctx', s))"
proof -
  obtain ctx1 where c1: "(if int j = 0 then build_index gjson ind raw ctx else Inr (Some ctx)) = Inr (Some ctx1)" "ctx_ok ctx1"
    "bslot ind ctx1 = pack_spans els" "bslot src ctx1 = raw" "ctx_GetInt iter ctx1 = Inr (int j)"
    using index_ready [OF ok nos(1,3) dist(2) arr(1) raw i ix] by blast
  have "raw \<noteq> []" using arr(1) by (simp add: json_array_def)
  then have gate: "LoopGateSlot gjson src val ind iter b e ctx s =
      (if int (length (pack_spans els) div 8) \<le> int j
       then andThen (ctx_SetInt iter 0 ctx1) (\<lambda>ctx2. andThen (set_byteSlot ind [] ctx2) (\<lambda>ctx3. Inr (e, ctx3, s)))
       else andThen (get_u32 (pack_spans els) (int j * 8)) (\<lambda>start.
            andThen (get_u32 (pack_spans els) (int j * 8 + 4)) (\<lambda>en.
            andThen (slice raw (uint start) (uint en)) (\<lambda>v.
            andThen (set_byteSlot val v ctx1) (\<lambda>ctx2.
            andThen (ctx_SetInt iter (i64 (int j + 1)) ctx2) (\<lambda>ctx3. Inr (b, ctx3, s)))))))"
    by (simp only: LoopGateSlot_def byteSlot_law [OF ok nos(1)] raw i c1(1) byteSlot_law [OF c1(2) nos(3)] c1(3)
        andThen_Inr option.case length_0_conv if_False)
  show ?thesis
  proof (cases "j < length els")
    case True
    obtain start en where sl: "get_u32 (pack_spans els) (int j * 8) = Inr start" "get_u32 (pack_spans els) (int j * 8 + 4) = Inr en"
      "slice raw (uint start) (uint en) = Inr (element raw (els ! j))" using slice_element [OF arr(1) True] by blast
    obtain ctx2 where c2: "set_byteSlot val (element raw (els ! j)) ctx1 = Inr ctx2" "ctx_ok ctx2" "bslot val ctx2 = element raw (els ! j)"
      "\<forall>j. byte_slot_no j \<longrightarrow> j \<noteq> val \<longrightarrow> bslot j ctx2 = bslot j ctx1"
      using set_byteSlot_law [OF c1(2) nos(2)] by blast
    have "i64 (int j + 1) = int j + 1" using True arr(2) by (intro i64_id) (auto simp: in_i64_def)
    moreover obtain ctx3 where "ctx_SetInt iter (int j + 1) ctx2 = Inr ctx3" "ctx_ok ctx3" "ctx_GetInt iter ctx3 = Inr (int j + 1)"
      "\<forall>j. bslot j ctx3 = bslot j ctx2" using ctx_SetInt_ok [OF c2(2) nos(4,5)] by blast
    ultimately show ?thesis using True sl c1 c2 dist nos \<open>raw \<noteq> []\<close> by (auto simp: gate)
  next
    case False
    obtain ctx2 where c2: "ctx_SetInt iter 0 ctx1 = Inr ctx2" "ctx_ok ctx2" using ctx_SetInt_ok [OF c1(2) nos(4,5)] by blast
    obtain ctx3 where "set_byteSlot ind [] ctx2 = Inr ctx3" "ctx_ok ctx3" using set_byteSlot_law [OF c2(2) nos(3)] by blast
    then show ?thesis using False c2 \<open>raw \<noteq> []\<close> by (auto simp: gate)
  qed
qed


definition each_view :: "int \<Rightarrow> int \<Rightarrow> int \<Rightarrow> Context \<Rightarrow> bytes \<times> bytes \<times> int go" where
  \<comment> \<open>what the loop itself keeps in the context: the array, its index and the counter\<close>
  "each_view src ind iter ctx = (bslot src ctx, bslot ind ctx, ctx_GetInt iter ctx)"

lemma store_view_each: "store_view (each_view src ind iter)"
  by (simp add: store_view_def each_view_def same_store_ok)

definition each_ready :: "int \<Rightarrow> int \<Rightarrow> int \<Rightarrow> bytes \<Rightarrow> (int \<times> int) list \<Rightarrow> nat \<Rightarrow> Context \<Rightarrow> bool" where
  "each_ready src ind iter raw els j ctx \<longleftrightarrow> ctx_ok ctx \<and> bslot src ctx = raw \<and> ctx_GetInt iter ctx = Inr (int j) \<and>
     (j = 0 \<or> bslot ind ctx = pack_spans els)"

lemma each_ready_same: "each_ready src ind iter raw els j ctx \<Longrightarrow> same_store ctx' ctx \<Longrightarrow> each_ready src ind iter raw els j ctx'"
  by (simp add: each_ready_def same_store_ok [of ctx' ctx])

lemma LoopRepeat_adds_one:
  assumes "ctx_ok ctx2" "each_view src ind iter ctx2 = (raw, pack_spans els, Inr (int j + 1))" "0 \<le> iter" "iter < 32" "j < 2 ^ 62"
  shows "\<exists>ctx3 s3. LoopRepeat g iter ctx2 s2 = Inr (g, ctx3, s3) \<and> each_ready src ind iter raw els (j + 2) ctx3"
proof -
  have v: "bslot src ctx2 = raw" "bslot ind ctx2 = pack_spans els" "ctx_GetInt iter ctx2 = Inr (int j + 1)"
    using assms(2) by (simp_all add: each_view_def)
  have "i64 (int j + 1 + 1) = int j + 2" using assms(5) by (subst i64_id) (auto simp: in_i64_def)
  moreover obtain ctx3 where "ctx_SetInt iter (int j + 2) ctx2 = Inr ctx3" "ctx_ok ctx3" "ctx_GetInt iter ctx3 = Inr (int j + 2)"
      "\<forall>j. bslot j ctx3 = bslot j ctx2" using ctx_SetInt_ok [OF assms(1,3,4)] by blast
  ultimately show ?thesis using v by (simp add: LoopRepeat_def each_ready_def add.commute)
qed

definition every_second :: "bytes \<Rightarrow> (int \<times> int) list \<Rightarrow> nat \<Rightarrow> bytes list" where
  \<comment> \<open>the elements \<open>j\<close>, \<open>j + 2\<close>, ... of the array\<close>
  "every_second raw els j = map (\<lambda>p. element raw (els ! (j + 2 * p))) [0..<(length els + 1 - j) div 2]"

lemma every_second_step:
  assumes "j < length els"
  shows "every_second raw els j = element raw (els ! j) # every_second raw els (j + 2)"
proof -
  have "(length els + 1 - j) div 2 = Suc ((length els + 1 - (j + 2)) div 2)" using assms by linarith
  moreover have "[0..<Suc m] = 0 # map Suc [0..<m]" for m
    by (simp add: upt_conv_Cons map_Suc_upt del: upt_Suc)
  ultimately show ?thesis by (simp add: every_second_def del: upt_Suc)
qed

lemma foreach_iterate:
  assumes w: "loop_at table g (LoopGateSlot gjson src val ind iter (int (Suc g)) (int (g + length body + 2))) body (LoopRepeat (int g) iter)"
    and q: "\<forall>b \<in> set body. quiet (each_view src ind iter) (Action b)"
    and nos: "byte_slot_no src" "byte_slot_no val" "byte_slot_no ind" "0 \<le> iter" "iter < 32"
      "src \<noteq> val" "src \<noteq> ind" "val \<noteq> ind" "json_array gjson raw els" "length els < 2 ^ 62"
    and r: "each_ready src ind iter raw els j ctx"
  shows "\<exists>n ctx' s'. exec_n obs table n k (int g) ctx s = Inr (int (g + length body + 2), ctx', s') \<and> ctx_ok ctx' \<and>
    values_at obs table val (int (Suc g)) n k (int g) ctx s = every_second raw els j"
  using r
proof (induction "length els - j" arbitrary: j ctx k s rule: less_induct)
  case less
  let ?e = "int (g + length body + 2)" and ?gate = "LoopGateSlot gjson src val ind iter (int (Suc g)) (int (g + length body + 2))"
  have pass: "\<exists>ctx'. ctx_ok ctx' \<and> (if j < length els
     then ?gate ctx (s\<lparr>PC := int g\<rparr>) = Inr (int (Suc g), ctx', s\<lparr>PC := int g\<rparr>) \<and> bslot val ctx' = element raw (els ! j) \<and>
       bslot src ctx' = raw \<and> bslot ind ctx' = pack_spans els \<and> ctx_GetInt iter ctx' = Inr (int j + 1)
     else ?gate ctx (s\<lparr>PC := int g\<rparr>) = Inr (?e, ctx', s\<lparr>PC := int g\<rparr>))"
    using less.prems unfolding each_ready_def by (intro LoopGateSlot_pass [OF _ nos]) auto
  show ?case
  proof (cases "j < length els")
    case True
    then obtain ctx1 where c1: "?gate ctx (s\<lparr>PC := int g\<rparr>) = Inr (int (Suc g), ctx1, s\<lparr>PC := int g\<rparr>)" "ctx_ok ctx1"
      "bslot val ctx1 = element raw (els ! j)" "each_view src ind iter ctx1 = (raw, pack_spans els, Inr (int j + 1))"
      using pass by (auto simp: each_view_def)
    let ?Q = "each_ready src ind iter raw els (j + 2)"
    have again: "\<exists>ctx3 s3. LoopRepeat (int g) iter ctx2 s2 = Inr (int g, ctx3, s3) \<and> ?Q ctx3"
      if "ctx_ok ctx2" "each_view src ind iter ctx2 = each_view src ind iter ctx1" for ctx2 s2
      using LoopRepeat_adds_one [OF that(1) _ nos(4,5)] that(2) c1(4) True nos(10) by simp
    have "\<exists>ctx2 s2. exec_n obs table (length body + 2) k (int g) ctx s = Inr (int g, ctx2, s2) \<and> ?Q ctx2 \<and>
      values_at obs table val (int (Suc g)) (length body + 2) k (int g) ctx s = [bslot val ctx1]"
      by (rule loop_round [OF w q store_view_each c1(1,2)]) (erule (1) again, erule (1) each_ready_same)
    then obtain ctx2 s2 where r: "exec_n obs table (length body + 2) k (int g) ctx s = Inr (int g, ctx2, s2)" "?Q ctx2"
      "values_at obs table val (int (Suc g)) (length body + 2) k (int g) ctx s = [bslot val ctx1]" by blast
    have "length els - (j + 2) < length els - j" using True by simp
    from less.hyps [OF this r(2), of "k + (length body + 2)" s2]
    obtain n ctx' s' where n: "exec_n obs table n (k + (length body + 2)) (int g) ctx2 s2 = Inr (?e, ctx', s')" "ctx_ok ctx'"
      "values_at obs table val (int (Suc g)) n (k + (length body + 2)) (int g) ctx2 s2 = every_second raw els (j + 2)" by blast
    have "exec_n obs table (length body + 2 + n) k (int g) ctx s = Inr (?e, ctx', s')"
      unfolding exec_n_add [of _ _ "length body + 2" n] r(1) using n(1) by simp
    moreover have "values_at obs table val (int (Suc g)) (length body + 2 + n) k (int g) ctx s = every_second raw els j"
      unfolding values_at_add [OF r(1)] r(3) n(3) every_second_step [OF True] c1(3) by simp
    ultimately show ?thesis using n(2) by blast
  next
    case False
    then obtain ctx1 where "?gate ctx (s\<lparr>PC := int g\<rparr>) = Inr (?e, ctx1, s\<lparr>PC := int g\<rparr>)" "ctx_ok ctx1" using pass by auto
    moreover have "every_second raw els j = []" using False by (simp add: every_second_def)
    moreover from calculation obtain ctx' s' where "exec_n obs table 1 k (int g) ctx s = Inr (?e, ctx', s')" "same_store ctx' ctx1"
        "values_at obs table val (int (Suc g)) 1 k (int g) ctx s = []"
      using loop_leave [OF w, of ctx s ctx1 _ obs k val] by blast
    ultimately show ?thesis using same_store_ok [of ctx' ctx1 0] by (intro exI [of _ 1]) simp
  qed
qed

text \<open>C33. A compiled foreach step over a JSON array in a slot hands its body every second element only. The gate delivers
  the element at the counter and adds one to it, and the jump back to the gate adds one again. Wherever the step stands in a
  table of fewer than 2^15 instructions, as long as on every well-shaped context each instruction of its body succeeds, goes
  on to the next one, keeps the shape and leaves array, index and counter alone, and the loop starts on a well-shaped context
  with counter 0: the executor reaches the instruction after the loop, and over the whole run the element slot holds the
  elements 0, 2, 4, ... of the array when the body is entered. The three byte slots differ, and the elements lie in the array
  as the parser says.\<close>

theorem foreach_visits_every_second:
  assumes "table = pre @ compile_foreach gjson src val ind iter (int (length pre)) body @ post" "length table < 2 ^ 15"
    and "\<forall>b \<in> set body. quiet (each_view src ind iter) (Action b)"
    and "byte_slot_no src" "byte_slot_no val" "byte_slot_no ind" "0 \<le> iter" "iter < 32"
    and "src \<noteq> val" "src \<noteq> ind" "val \<noteq> ind" "json_array gjson raw els" "length els < 2 ^ 62"
    and "ctx_ok ctx" "bslot src ctx = raw" "ctx_GetInt iter ctx = Inr 0"
  shows "\<exists>n ctx' s'. exec_n obs table n k (int (length pre)) ctx s = Inr (int (length pre + length body + 2), ctx', s') \<and>
    values_at obs table val (int (Suc (length pre))) n k (int (length pre)) ctx s =
      map (\<lambda>p. element raw (els ! (2 * p))) [0..<(length els + 1) div 2]"
proof -
  have "i16 (int (length pre) + 1) = int (Suc (length pre))"
    "i16 (int (length pre) + int (length body) + 2) = int (length pre + length body + 2)"
    using assms(1,2) by (simp_all add: i16_id compile_foreach_def)
  then have "loop_at table (length pre) (LoopGateSlot gjson src val ind iter (int (Suc (length pre))) (int (length pre + length body + 2)))
      body (LoopRepeat (int (length pre)) iter)"
    using loop_at_layout [of table pre _ body _ post] assms(1,2) by (simp add: compile_foreach_def)
  moreover have "each_ready src ind iter raw els 0 ctx" using assms(14-16) by (simp add: each_ready_def)
  ultimately show ?thesis
    using foreach_iterate [OF _ assms(3-13), of table "length pre" 0 ctx obs k s] by (auto simp: every_second_def)
qed

definition json_ctx :: Context where
  \<comment> \<open>a context with the JSON text \<open>[1,2,3]\<close> in slot 0\<close>
  "json_ctx = (fresh_context 64)\<lparr>slots := zero_slots\<lparr>ByteSlots := (replicate 48 [])[0 := bytes_of ''[1,2,3]'']\<rparr>\<rparr>"

lemma ctx_ok_json_ctx: "ctx_ok json_ctx" "bslot 0 json_ctx = bytes_of ''[1,2,3]''" "ctx_GetInt 3 json_ctx = Inr 0"
  by (simp_all add: ctx_ok_def json_ctx_def fresh_context_def zero_slots_def int_slots_ok_def arena_inv_def bslot_def
      ctx_GetInt_def GetInt_def idx_def BaseByteSlots_def BaseBoolSlots_def BaseIntSlots_def ArenaInlineSize_def)

theorem foreach_visits_every_second_witness:
  "\<exists>n ctx' s'. exec_n (\<lambda>_. None)
      (compile_foreach (\<lambda>_. Some [(1, 1), (3, 1), (5, 1)]) 0 1 2 3 0 [instr ''SET'' (SetConstStep [65] 4)] @ [instr ''STOP'' newStopStep])
      n 0 0 json_ctx zero_state = Inr (3, ctx', s') \<and>
    values_at (\<lambda>_. None)
      (compile_foreach (\<lambda>_. Some [(1, 1), (3, 1), (5, 1)]) 0 1 2 3 0 [instr ''SET'' (SetConstStep [65] 4)] @ [instr ''STOP'' newStopStep])
      1 1 n 0 0 json_ctx zero_state = [bytes_of ''1'', bytes_of ''3'']"
proof -
  let ?g = "\<lambda>_. Some [(1, 1), (3, 1), (5, 1)] :: (int \<times> int) list option" and ?b = "[instr ''SET'' (SetConstStep [65] 4)]"
  let ?t = "compile_foreach ?g 0 1 2 3 0 ?b @ [instr ''STOP'' newStopStep]"
  have len: "length ?t < 2 ^ 15" by (simp add: compile_foreach_def)
  have q: "\<forall>b \<in> set ?b. quiet (each_view 0 2 3) (Action b)"
    by simp (rule quiet_SetConstStep; simp add: each_view_def bslot_def ctx_GetInt_def GetInt_def)
  have arr: "json_array ?g (bytes_of ''[1,2,3]'') [(1, 1), (3, 1), (5, 1)]"
    by (simp add: json_array_def bytes_of_def)
  have "[0..<(length [(1, 1), (3, 1), (5 :: int, 1 :: int)] + 1) div 2] = [0, 1]" by (simp add: upt_rec)
  moreover have "\<exists>n ctx' s'. exec_n (\<lambda>_. None) ?t n 0 (int (length ([] :: Instruction list))) json_ctx zero_state =
      Inr (int (length ([] :: Instruction list) + length ?b + 2), ctx', s') \<and>
    values_at (\<lambda>_. None) ?t 1 (int (Suc (length ([] :: Instruction list)))) n 0 (int (length ([] :: Instruction list))) json_ctx zero_state =
      map (\<lambda>p. element (bytes_of ''[1,2,3]'') ([(1, 1), (3, 1), (5, 1)] ! (2 * p))) [0..<(length [(1, 1), (3, 1), (5 :: int, 1 :: int)] + 1) div 2]"
    by (rule foreach_visits_every_second [OF _ len q _ _ _ _ _ _ _ _ arr _ ctx_ok_json_ctx(1,2,3)]) simp_all
  ultimately show ?thesis by (simp add: element_def bytes_of_def del: values_at.simps exec_n.simps)
qed

end
