(* ===== verification/Rah_Steps_Laws.thy ===== *)
theory Rah_Steps_Laws
  imports Rah_Steps Rah_Loop_Laws
begin

text \<open>
  Laws of the steps: staged header changes, captured error codes, error policies, and type soundness of whole flows.
\<close>

subsection \<open>Staged header changes\<close>

text \<open>C36. On contexts as the gateway's pool makes them, the steps that stage header changes for the upstream call do
  nothing: the pool allocates the mutation log with capacity 16 and length 0, resetting keeps it, and every such
  step checks the length. No header is ever set, removed, copied or renamed on an upstream request, and no cookie added.\<close>

theorem request_header_steps_do_nothing:
  "MutationLog (meta (Reset (ReleaseOverflow (fresh_context m)))) = [] \<and>
   (MutationLog (meta ctx) = [] \<longrightarrow>
      MutationLog (meta (Reset (ReleaseOverflow ctx))) = [] \<and>
      SetRequestHeader name slot ctx s = continue s ctx \<and>
      RemoveRequestHeader name ctx s = continue s ctx \<and>
      CopyHeader (Some hdr) name name' ctx s = continue s ctx \<and>
      RenameRequestHeader (Some hdr) name name' ctx s = continue s ctx \<and>
      (byteSlot slot ctx = Inr v \<longrightarrow> SetRequestCookie name slot ctx s = continue s ctx))"
  by (simp add: Reset_def ReleaseOverflow_def reset_meta_def fresh_context_def SetRequestHeader_def RemoveRequestHeader_def
      CopyHeader_def RenameRequestHeader_def SetRequestCookie_def Header_Get_def)

theorem request_header_steps_do_nothing_witness:
  "SetRequestHeader (bytes_of ''X-Tenant'') 0 (Reset (ReleaseOverflow (fresh_context 64))) zero_state =
     continue zero_state (Reset (ReleaseOverflow (fresh_context 64)))"
  using request_header_steps_do_nothing [of 64 "Reset (ReleaseOverflow (fresh_context 64))"]
    request_header_steps_do_nothing [of 64] by blast

subsection \<open>Error handling\<close>

lemma rev_code_digits: "0 < c \<Longrightarrow> rev (code_digits c) = dec_digits (nat c)"
proof (induction c rule: code_digits.induct)
  case (1 c)
  show ?case
  proof (cases "c < 10")
    case True
    then have "c div 10 = 0" "c mod 10 = c" "nat c < 10" "(of_nat (nat c) :: u8) = word_of_int c" using 1 by auto
    then show ?thesis using 1 True
      by (simp add: code_digits.simps [of c] code_digits.simps [of 0] dec_digits.simps [of "nat c"])
  next
    case False
    have "nat (c div 10) = nat c div 10" "int (nat c mod 10) = c mod 10" using "1.prems" by (simp_all add: nat_div_distrib zmod_int)
    moreover from this have "int (48 + nat c mod 10) = 48 + c mod 10" by simp
    then have "(of_nat (48 + nat c mod 10) :: u8) = word_of_int (48 + c mod 10)" by (metis of_int_of_nat_eq)
    ultimately show ?thesis using 1 False
      by (simp add: code_digits.simps [of c] dec_digits.simps [of "nat c"])
  qed
qed

text \<open>\<open>capture_error\<close> stores the error code as its decimal number, for every code but the least \<open>int16\<close>, whose negation
  overflows and which is stored as a bare minus sign.\<close>

theorem captured_code_is_decimal:
  "(- (2 ^ 15) < code \<and> code < 2 ^ 15 \<longrightarrow> code_text code = Itoa code) \<and> code_text (- (2 ^ 15)) = [45]"
proof (intro conjI impI)
  assume "- (2 ^ 15) < code \<and> code < 2 ^ 15"
  then show "code_text code = Itoa code"
    by (auto simp: code_text_def Itoa_def i16_id rev_code_digits Let_def dec_digits.simps [of 0])
next
  show "code_text (- (2 ^ 15)) = [45]"
    by (simp add: code_text_def i16_def Let_def code_digits.simps)
qed

theorem captured_code_is_decimal_witness: "code_text (-403) = Itoa (-403)"
  using captured_code_is_decimal [of "-403"] by simp

definition contained :: "InstructionFunc \<Rightarrow> bool" where
  \<comment> \<open>never leaves an unfailed context as failed\<close>
  "contained a \<longleftrightarrow> (\<forall>ctx s pc ctx' s'. \<not> Failed (outcome ctx) \<longrightarrow> a ctx s = Inr (pc, ctx', s') \<longrightarrow> \<not> Failed (outcome ctx'))"

definition fails_by_stopping :: "InstructionFunc \<Rightarrow> bool" where
  \<comment> \<open>marks the context as failed only when it stops the flow\<close>
  "fails_by_stopping a \<longleftrightarrow> (\<forall>ctx s pc ctx' s'. \<not> Failed (outcome ctx) \<longrightarrow> a ctx s = Inr (pc, ctx', s') \<longrightarrow>
     Failed (outcome ctx') \<longrightarrow> pc = StopPlan)"

inductive guarded :: "InstructionFunc \<Rightarrow> bool" where
  guarded_plain: "contained a \<Longrightarrow> guarded a"
| guarded_continue: "fails_by_stopping a \<Longrightarrow> guarded (WrapOnErrorContinue a)"
| guarded_jump: "fails_by_stopping a \<Longrightarrow> guarded (WrapOnErrorJump a errPC)"
| guarded_status: "fails_by_stopping a \<Longrightarrow> guarded (WrapOnErrorStatus a status body)"

lemma Failed_wrap [simp]:
  "\<not> Failed (outcome (with_outcome clear_error ctx))"
  "\<not> Failed (outcome (with_outcome (\<lambda>out. out\<lparr>Failed := False\<rparr>) ctx))"
  by (simp_all add: with_outcome_def clear_error_def)

lemma fails_by_stoppingD:
  "fails_by_stopping a \<Longrightarrow> a ctx s = Inr (pc, ctx', s') \<Longrightarrow> \<not> Failed (outcome ctx) \<Longrightarrow> Failed (outcome ctx') \<Longrightarrow> pc = StopPlan"
  unfolding fails_by_stopping_def by metis

lemma guarded_contained: "guarded a \<Longrightarrow> contained a"
proof (induction rule: guarded.induct)
  case (guarded_continue a)
  then show ?case unfolding contained_def WrapOnErrorContinue_def
    by (auto simp: andThen_def step_failed_def split: sum.splits if_splits dest: fails_by_stoppingD)
next
  case (guarded_jump a errPC)
  then show ?case unfolding contained_def WrapOnErrorJump_def
    by (auto simp: andThen_def step_failed_def split: sum.splits if_splits dest: fails_by_stoppingD)
next
  case (guarded_status a status body)
  then show ?case unfolding contained_def WrapOnErrorStatus_def
    by (auto simp: andThen_def step_failed_def Let_def split: sum.splits if_splits dest: fails_by_stoppingD)
qed

lemma contained_exec_step:
  assumes "\<forall>i \<in> set table. contained (Action i)" "0 \<le> pc \<and> pc < i16 (int (length table))" "\<not> Failed (outcome ctx)"
    and "exec_step obs table k pc ctx s = Inr (pc', ctx', s')"
  shows "\<not> Failed (outcome ctx')"
proof -
  obtain i where i: "idx table pc = Inr i" using assms(4) by (cases "idx table pc") (auto simp: exec_step_def)
  then have "i \<in> set table" by (auto simp: idx_def split: if_splits)
  moreover obtain pc1 ctx1 s1 where "Action i ctx (s\<lparr>PC := pc\<rparr>) = Inr (pc1, ctx1, s1)" "outcome ctx' = outcome ctx1"
    using assms(4) i by (auto simp: exec_step_def andThen_def log_instr_def Let_def split: sum.splits prod.splits option.splits)
  ultimately show ?thesis using assms(1,3) unfolding contained_def by metis
qed

lemma exec_path_contained:
  "exec_path obs table k pc ctx s pcs r \<Longrightarrow> \<forall>i \<in> set table. contained (Action i) \<Longrightarrow> \<not> Failed (outcome ctx) \<Longrightarrow>
   r = Inr (ctx', s') \<Longrightarrow> \<not> Failed (outcome ctx')"
proof (induction rule: exec_path.induct)
  case (path_stop pc k ctx s ctx1 s1)
  then show ?case using contained_exec_step [of table pc ctx obs k s StopPlan ctx1 s1] by simp
next
  case (path_next pc k ctx s pc1 ctx1 s1 pcs r)
  then show ?case using contained_exec_step [of table pc ctx obs k s pc1 ctx1 s1] by simp
qed simp_all

text \<open>C35. Error policies contain failures: in a flow each of whose instructions either never marks the context as failed, or
  is a step wrapped by one of the three error policies (continue, jump, answer with a status) that marks it as failed only
  when it stops, no run that starts on an unfailed context and ends without a panic ends as failed, wherever the run starts
  and whatever it jumps to.\<close>

theorem guarded_flow_never_fails:
  assumes "\<forall>i \<in> set table. guarded (Action i)" "\<not> Failed (outcome ctx)"
    and "Execute obs table startID maxCallDepth ctx = Some (Inr ctx')"
  shows "\<not> Failed (outcome ctx')"
proof -
  obtain s' where "exec_loop obs table 0 startID ctx
      (if maxCallDepth > 15 then zero_state\<lparr>LinkExt := Some BorrowLinkExt\<rparr> else zero_state) = Some (Inr (ctx', s'))"
    using assms(3) unfolding Execute_def by (auto simp: andThen_eq_Inr_iff)
  then obtain pcs where "exec_path obs table 0 startID ctx
      (if maxCallDepth > 15 then zero_state\<lparr>LinkExt := Some BorrowLinkExt\<rparr> else zero_state) pcs (Inr (ctx', s'))"
    using exec_loop_path by blast
  from exec_path_contained [OF this _ assms(2) refl] show ?thesis using assms(1) guarded_contained by blast
qed

theorem guarded_flow_never_fails_witness:
  "\<exists>ctx'. Execute (\<lambda>_. None)
      [instr ''FAIL'' (WrapOnErrorContinue (Fail 400 (-1) [])), instr ''FAIL'' (WrapOnErrorStatus (Fail 401 (-1) []) 503 None)]
      0 0 (fresh_context 64) = Some (Inr ctx') \<and> ResponseStatus (resp ctx') = 503 \<and> \<not> Failed (outcome ctx')"
proof -
  let ?t = "[instr ''FAIL'' (WrapOnErrorContinue (Fail 400 (-1) [])), instr ''FAIL'' (WrapOnErrorStatus (Fail 401 (-1) []) 503 None)]"
  have f: "Fail c (-1) [] ctx s = Inr (StopPlan, with_outcome (\<lambda>out. out\<lparr>Failed := True, ErrorCode := c, ErrorMsg := []\<rparr>) ctx, s)"
    for c ctx s by (simp add: Fail_def stop_def)
  have "fails_by_stopping (Fail c (-1) [])" for c by (simp add: fails_by_stopping_def f)
  then have g: "\<forall>i \<in> set ?t. guarded (Action i)" by (simp add: guarded.intros)
  have "\<exists>ctx'. Execute (\<lambda>_. None) ?t 0 0 (fresh_context 64) = Some (Inr ctx') \<and> ResponseStatus (resp ctx') = 503"
    by (simp add: Execute_def exec_loop.simps exec_step_def idx_def WrapOnErrorContinue_def WrapOnErrorStatus_def f step_failed_def
        with_outcome_def clear_error_def set_status_def with_resp_def fresh_context_def zero_state_def i16_def redirect_def StopPlan_def
        log_instr_def Let_def)
  moreover have "\<not> Failed (outcome (fresh_context 64))" by (simp add: fresh_context_def)
  ultimately show ?thesis using guarded_flow_never_fails [OF g] by blast
qed

subsection \<open>Type soundness: well-typed flows do not panic\<close>

text \<open>
  A typing judgement for instructions: the operands of a step are slots of the kind it uses them as. A well-typed step run in a
  context of the right shape returns, and the context keeps its shape.
\<close>

definition meta_ok :: "RequestMeta \<Rightarrow> bool" where
  \<comment> \<open>path parameters lie within the path\<close>
  "meta_ok m \<longleftrightarrow> ParamCount m \<le> length (Params m) \<and>
     (\<forall>(st, e) \<in> set (take (ParamCount m) (Params m)). st \<le> e \<and> unat e \<le> length (Path m))"

definition tx_ok :: "Outcome \<Rightarrow> bool" where
  "tx_ok out \<longleftrightarrow> 0 \<le> TxDepth out \<and> TxDepth out \<le> maxTxDepth \<and> (ActiveTx out \<longleftrightarrow> TxDepth out \<noteq> 0)"

definition flow_ok :: "Context \<Rightarrow> bool" where
  "flow_ok ctx \<longleftrightarrow> ctx_ok ctx \<and> meta_ok (meta ctx) \<and> tx_ok (outcome ctx)"

definition ok_res :: "(int \<times> Context \<times> ExecutionState) go \<Rightarrow> bool" where
  "ok_res r \<longleftrightarrow> (\<exists>pc ctx s. r = Inr (pc, ctx, s) \<and> flow_ok ctx)"

abbreviation int_slot_no :: "int \<Rightarrow> bool" where "int_slot_no i \<equiv> 0 \<le> i \<and> i < 16"
abbreviation bool_slot_no :: "int \<Rightarrow> bool" where "bool_slot_no i \<equiv> 0 \<le> i \<and> i < 8"

named_theorems ok_intros

lemma ok_Inr [ok_intros]: "flow_ok ctx \<Longrightarrow> ok_res (Inr (pc, ctx, s))"
  by (simp add: ok_res_def)

lemma ok_continue [ok_intros]: "flow_ok ctx \<Longrightarrow> ok_res (continue s ctx)"
  by (simp add: ok_res_def continue_def)

lemma ok_stop [ok_intros]: "flow_ok ctx \<Longrightarrow> ok_res (stop s ctx)"
  by (simp add: ok_res_def stop_def)

lemma flow_ok_resp [simp]: "flow_ok (with_resp f ctx) = flow_ok ctx"
  by (simp add: flow_ok_def ctx_ok_def int_slots_ok_def with_resp_def)

lemma flow_ok_status [simp]: "flow_ok (set_status n ctx) = flow_ok ctx" "flow_ok (set_body b ctx) = flow_ok ctx"
  by (simp_all add: set_status_def set_body_def)

lemma flow_ok_clear [simp]: "flow_ok (with_outcome clear_error ctx) = flow_ok ctx"
  "flow_ok (with_outcome (\<lambda>out. out\<lparr>Failed := b\<rparr>) ctx) = flow_ok ctx"
  "flow_ok (with_outcome (\<lambda>out. out\<lparr>Failed := b, ErrorCode := c, ErrorMsg := g out\<rparr>) ctx) = flow_ok ctx"
  by (simp_all add: flow_ok_def ctx_ok_def int_slots_ok_def with_outcome_def clear_error_def tx_ok_def)

lemma set_byteSlot_frame: "set_byteSlot i v ctx = Inr ctx' \<Longrightarrow> meta ctx' = meta ctx \<and> outcome ctx' = outcome ctx"
  by (auto simp: set_byteSlot_def andThen_def split: sum.splits)

lemma set_byteSlot_flow:
  assumes "flow_ok ctx" "byte_slot_no i" obtains ctx' where "set_byteSlot i v ctx = Inr ctx'" "flow_ok ctx'"
  using set_byteSlot_law [of ctx i v] set_byteSlot_frame [of i v ctx] assms unfolding flow_ok_def by metis

lemma ok_put_slot [ok_intros]: "flow_ok ctx \<Longrightarrow> byte_slot_no i \<Longrightarrow> ok_res (put_slot i v s ctx)"
  by (rule set_byteSlot_flow [of ctx i v]) (auto simp: put_slot_def intro: ok_intros)

lemma ok_byteSlot [ok_intros]:
  "flow_ok ctx \<Longrightarrow> byte_slot_no i \<Longrightarrow> (\<And>v. ok_res (f v)) \<Longrightarrow> ok_res (andThen (byteSlot i ctx) f)"
  using byteSlot_law [of ctx i] by (simp add: flow_ok_def)

lemma ok_alloc_copy [ok_intros]:
  assumes "flow_ok ctx" "\<And>v' ctx'. flow_ok ctx' \<Longrightarrow> ok_res (f (v', ctx'))"
  shows "ok_res (andThen (alloc_copy v ctx) f)"
proof -
  obtain ctx' where a: "alloc_copy v ctx = Inr (v, ctx')" "ctx_ok ctx'"
    using alloc_copy_law [of ctx v] assms(1) by (auto simp: flow_ok_def)
  then have "meta ctx' = meta ctx \<and> outcome ctx' = outcome ctx"
    by (auto simp: alloc_copy_def andThen_def split: sum.splits if_splits)
  then show ?thesis using a assms by (simp add: flow_ok_def)
qed

lemma ok_intSlot [ok_intros]:
  "flow_ok ctx \<Longrightarrow> int_slot_no i \<Longrightarrow> (\<And>v. ok_res (f v)) \<Longrightarrow> ok_res (andThen (intSlot i ctx) f)"
  by (simp add: flow_ok_def ctx_ok_def int_slots_ok_def intSlot_def idx_def BaseIntSlots_def)

lemma ok_put_int [ok_intros]: "flow_ok ctx \<Longrightarrow> int_slot_no i \<Longrightarrow> ok_res (put_int i v s ctx)"
  by (simp add: flow_ok_def ctx_ok_def int_slots_ok_def put_int_def set_idx_def BaseIntSlots_def ok_res_def continue_def)

lemma ok_put_bool [ok_intros]: "flow_ok ctx \<Longrightarrow> bool_slot_no i \<Longrightarrow> ok_res (put_bool i v s ctx)"
  by (simp add: flow_ok_def ctx_ok_def int_slots_ok_def put_bool_def set_idx_def BaseBoolSlots_def ok_res_def continue_def)

lemma ok_Header_Get [ok_intros]: "(\<And>v. ok_res (f v)) \<Longrightarrow> ok_res (andThen (Header_Get (Some hdr) key) f)"
  by (simp add: Header_Get_def)

lemma flow_ok_push [simp]: "flow_ok (push_mutation mut ctx) = flow_ok ctx"
  by (simp add: flow_ok_def ctx_ok_def int_slots_ok_def push_mutation_def Let_def meta_ok_def)

lemma flow_ok_log [simp]: "flow_ok (ctx\<lparr>ilog := l\<rparr>) = flow_ok ctx"
  by (simp add: flow_ok_def ctx_ok_def int_slots_ok_def)

lemma flow_ok_fail500 [simp]: "flow_ok (fail500 ctx) = flow_ok ctx"
  by (simp add: flow_ok_def ctx_ok_def int_slots_ok_def fail500_def tx_ok_def)

subsection \<open>The typing judgement\<close>

inductive typed :: "InstructionFunc \<Rightarrow> bool" where
  "0 \<le> i \<Longrightarrow> byte_slot_no dst \<Longrightarrow> typed (BindPath i dst)"
| "byte_slot_no dst \<Longrightarrow> typed (BindHeader (Some hdr) key dst)"
| "byte_slot_no a \<Longrightarrow> byte_slot_no dst \<Longrightarrow> typed (BindHeaderDynamic (Some hdr) a dst)"
| "byte_slot_no dst \<Longrightarrow> typed (BindQuery key dst)"
| "byte_slot_no a \<Longrightarrow> byte_slot_no dst \<Longrightarrow> typed (BindQueryDynamic a dst)"
| "byte_slot_no a \<Longrightarrow> byte_slot_no dst \<Longrightarrow> typed (BindJSON gjson a path dst)"
| "byte_slot_no dst \<Longrightarrow> typed (BindBody gjson rbody path dst)"
| "typed (LogFieldStep name src)"
| "byte_slot_no a \<Longrightarrow> typed (SetRequestHeader name a)"
| "byte_slot_no a \<Longrightarrow> typed (SetRequestBody a contentType)"
| "byte_slot_no dst \<Longrightarrow> typed (BindRequestURL dst includeQuery)"
| "typed (CopyHeader (Some hdr) name name')"
| "typed (RemoveRequestHeader name)"
| "typed (RenameRequestHeader (Some hdr) name name')"
| "byte_slot_no a \<Longrightarrow> typed (SwitchGate a table exit)"
| "typed (RetryGate cond target exit)"
| "byte_slot_no a \<Longrightarrow> byte_slot_no b \<Longrightarrow> byte_slot_no dst \<Longrightarrow> typed (ConcatStep a b dst sep)"
| "byte_slot_no a \<Longrightarrow> byte_slot_no dst \<Longrightarrow> typed (ToLowerStep a dst)"
| "byte_slot_no a \<Longrightarrow> byte_slot_no dst \<Longrightarrow> typed (ToUpperStep a dst)"
| "byte_slot_no a \<Longrightarrow> byte_slot_no dst \<Longrightarrow> in_i64 (start + len) \<Longrightarrow> typed (SubstringStep a dst start len)"
| "byte_slot_no a \<Longrightarrow> int_slot_no dst \<Longrightarrow> typed (ToIntStep a dst)"
| "int_slot_no a \<Longrightarrow> int_slot_no b \<Longrightarrow> int_slot_no dst \<Longrightarrow> typed (AddStep a b dst)"
| "int_slot_no a \<Longrightarrow> int_slot_no b \<Longrightarrow> int_slot_no dst \<Longrightarrow> typed (SubStep a b dst)"
| "int_slot_no a \<Longrightarrow> int_slot_no b \<Longrightarrow> int_slot_no dst \<Longrightarrow> typed (MulStep a b dst)"
| "int_slot_no a \<Longrightarrow> int_slot_no b \<Longrightarrow> int_slot_no dst \<Longrightarrow> typed (ModStep a b dst)"
| "int_slot_no a \<Longrightarrow> int_slot_no b \<Longrightarrow> int_slot_no dst \<Longrightarrow> typed (DivStep a b dst)"
| "byte_slot_no a \<Longrightarrow> int_slot_no dst \<Longrightarrow> typed (ByteLengthStep a dst)"
| "byte_slot_no a \<Longrightarrow> byte_slot_no dst \<Longrightarrow> typed (TrimStep a dst)"
| "byte_slot_no a \<Longrightarrow> bool_slot_no dst \<Longrightarrow> typed (ContainsStep a dst needle)"
| "byte_slot_no a \<Longrightarrow> bool_slot_no dst \<Longrightarrow> typed (StartsWithStep a dst pre)"
| "byte_slot_no a \<Longrightarrow> bool_slot_no dst \<Longrightarrow> typed (EndsWithStep a dst suf)"
| "byte_slot_no a \<Longrightarrow> int_slot_no dst \<Longrightarrow> typed (IndexOfStep a dst needle)"
| "byte_slot_no a \<Longrightarrow> typed (SetResponseHeaderFromSlot name a)"
| "typed (SetStreamResponseBodyStep stream)"
| "byte_slot_no a \<Longrightarrow> typed (SetResponseBodyStep a)"
| "typed (SetResponseStatusStep code)"
| "int_slot_no a \<Longrightarrow> typed (SetResponseStatusFromSlotStep a)"
| "int_slot_no a \<Longrightarrow> typed (MapStatusStep a mappings dflt)"
| "byte_slot_no dst \<Longrightarrow> typed (SetConstStep v dst)"
| "typed (RespondTokenCountStep a)"
| "byte_slot_no a \<Longrightarrow> typed (RespondStep a)"
| "typed (RemoveResponseHeaderStep name)"
| "byte_slot_no a \<Longrightarrow> typed (SetCookieStep pre suf a)"
| "byte_slot_no a \<Longrightarrow> typed (RedirectStep url a status)"
| "byte_slot_no dst \<Longrightarrow> typed (ExtractCookie (Some hdr) name dst)"
| "byte_slot_no a \<Longrightarrow> typed (SetRequestCookie name a)"
| "typed (RemoveResponseCookie name path)"
| "\<forall>(name, a) \<in> set cs. byte_slot_no a \<Longrightarrow> byte_slot_no dst \<Longrightarrow> typed (CookieFlattenStep cs dst)"
| "typed (EarlyReturn status a body)"
| "typed (Fail code a msg)"
| "typed (CaptureError a b)"
| "typed (BeginTx found begun execs rollbackPC)"
| "typed (CommitTx committed execs)"
| "typed RollbackTx"
| "typed newStopStep"
| "typed (newInternalJump target)"
| "typed (WhileRepeat target)"
| "0 \<le> i \<Longrightarrow> i < 32 \<Longrightarrow> typed (WhileGate cond i maxIter body exit)"
| "0 \<le> i \<Longrightarrow> i < 32 \<Longrightarrow> typed (LoopRepeat gate i)"
| "typed a \<Longrightarrow> typed (WrapOnErrorContinue a)"
| "typed a \<Longrightarrow> typed (WrapOnErrorJump a errPC)"
| "typed a \<Longrightarrow> typed (WrapOnErrorStatus a status body)"


lemma ok_fail_step [ok_intros]: "flow_ok ctx \<Longrightarrow> ok_res (fail_step s ctx)"
  by (simp add: fail_step_def ok_intros)

lemma ok_ctx_GetInt [ok_intros]:
  assumes "flow_ok ctx" "0 \<le> i" "i < 32" "\<And>v. ok_res (f v)" shows "ok_res (andThen (ctx_GetInt i ctx) f)"
proof -
  have "\<exists>v. ctx_GetInt i ctx = Inr v"
    using assms(1-3) by (auto simp: flow_ok_def ctx_ok_def int_slots_ok_def ctx_GetInt_def GetInt_def idx_def BaseIntSlots_def
        ExtIntSlots_def split: option.splits)
  then show ?thesis using assms(4) by auto
qed

lemma ok_ctx_SetInt [ok_intros]:
  assumes "flow_ok ctx" "0 \<le> i" "i < 32" "\<And>ctx'. flow_ok ctx' \<Longrightarrow> ok_res (f ctx')"
  shows "ok_res (andThen (ctx_SetInt i v ctx) f)"
proof -
  obtain ctx' where c: "ctx_SetInt i v ctx = Inr ctx'" "ctx_ok ctx'"
    using ctx_SetInt_ok [of ctx i v] assms(1-3) by (auto simp: flow_ok_def)
  then have "meta ctx' = meta ctx \<and> outcome ctx' = outcome ctx"
    by (auto simp: ctx_SetInt_def andThen_def split: sum.splits)
  then show ?thesis using c assms by (simp add: flow_ok_def)
qed

lemma ok_idx [ok_intros]: "0 \<le> i \<Longrightarrow> i < int (length xs) \<Longrightarrow> ok_res (f (xs ! nat i)) \<Longrightarrow> ok_res (andThen (idx xs i) f)"
  by (simp add: idx_def)

lemma ok_slice [ok_intros]: "0 \<le> a \<Longrightarrow> a \<le> b \<Longrightarrow> b \<le> int (length xs) \<Longrightarrow> (\<And>v. ok_res (f v)) \<Longrightarrow> ok_res (andThen (slice xs a b) f)"
  by (simp add: slice_def)

lemma with_outcome_sel [simp]: "ctx_ok (with_outcome f ctx) = ctx_ok ctx" "meta (with_outcome f ctx) = meta ctx"
  "outcome (with_outcome f ctx) = f (outcome ctx)"
  by (simp_all add: ctx_ok_def int_slots_ok_def with_outcome_def)

lemma ok_bind_first [ok_intros]: "flow_ok ctx \<Longrightarrow> byte_slot_no i \<Longrightarrow> ok_res (bind_first gjson body path i ctx s)"
  by (auto simp: bind_first_def intro!: ok_intros split: option.split)

lemma ok_BindPath: "flow_ok ctx \<Longrightarrow> byte_slot_no dst \<Longrightarrow> 0 \<le> i \<Longrightarrow> ok_res (BindPath i dst ctx s)"
proof -
  assume f: "flow_ok ctx" "byte_slot_no dst" "0 \<le> i"
  show ?thesis
  proof (cases "i < int (ParamCount (meta ctx))")
    case True
    obtain st e where p: "Params (meta ctx) ! nat i = (st, e)" by fastforce
    have n: "nat i < ParamCount (meta ctx)" using True f(3) by simp
    then have "(st, e) \<in> set (take (ParamCount (meta ctx)) (Params (meta ctx)))"
      using f(1) p by (auto simp: flow_ok_def meta_ok_def in_set_conv_nth)
    then have b: "st \<le> e" "unat e \<le> length (Path (meta ctx))" "nat i < length (Params (meta ctx))"
      using f(1) n by (auto simp: flow_ok_def meta_ok_def)
    have "uint e \<le> int (length (Path (meta ctx)))" using b(2) by (metis uint_nat of_nat_le_iff)
    then show ?thesis using f True p b
      by (auto simp: BindPath_def word_le_def intro!: ok_intros)
  qed (use f in \<open>auto simp: BindPath_def intro!: ok_intros\<close>)
qed

lemma flow_ok_meta: "meta_ok (f (meta ctx)) \<Longrightarrow> flow_ok ctx \<Longrightarrow> flow_ok (ctx\<lparr>meta := f (meta ctx)\<rparr>)"
  by (simp add: flow_ok_def ctx_ok_def int_slots_ok_def)

lemma meta_ok_upd [simp]: "meta_ok (m\<lparr>RequestBuffer := b\<rparr>) = meta_ok m" "meta_ok (m\<lparr>ExtraLogFields := fs, ExtraLogCount := n\<rparr>) = meta_ok m"
  "meta_ok (m\<lparr>StagedRequestBody := b, StagedContentType := b'\<rparr>) = meta_ok m"
  by (simp_all add: meta_ok_def)

lemma flow_ok_upd [simp]:
  "flow_ok (ctx\<lparr>meta := (meta ctx)\<lparr>RequestBuffer := b\<rparr>\<rparr>) = flow_ok ctx"
  "flow_ok (ctx\<lparr>meta := (meta ctx)\<lparr>ExtraLogFields := fs, ExtraLogCount := n\<rparr>\<rparr>) = flow_ok ctx"
  "flow_ok (ctx\<lparr>meta := (meta ctx)\<lparr>StagedRequestBody := b, StagedContentType := b'\<rparr>\<rparr>) = flow_ok ctx"
  by (simp_all add: flow_ok_def ctx_ok_def int_slots_ok_def)

lemma ok_cookie_pairs: "flow_ok ctx \<Longrightarrow> \<forall>(name, a) \<in> set cs. byte_slot_no a \<Longrightarrow> \<exists>ps. cookie_pairs cs ctx = Inr ps"
  by (induction cs) (auto simp: flow_ok_def byteSlot_law)

lemma ok_CaptureError: "flow_ok ctx \<Longrightarrow> ok_res (CaptureError a b ctx s)"
proof -
  have set_ok: "\<exists>ctx'. set_byteSlot i v ctx = Inr ctx' \<and> flow_ok ctx'"
    if "flow_ok ctx" "0 \<le> i" "i < int (length (ByteSlots (slots ctx)))" for ctx i v
    using set_byteSlot_flow [of ctx i v] that by (auto simp: flow_ok_def ctx_ok_def BaseByteSlots_def)
  assume f: "flow_ok ctx"
  have "\<exists>ctx1. (if a \<ge> 0 \<and> a < int (length (ByteSlots (slots ctx)))
      then andThen (alloc_copy (code_text (ErrorCode (outcome ctx))) ctx) (\<lambda>(v, ctx'). set_byteSlot a v ctx')
      else Inr ctx) = Inr ctx1 \<and> flow_ok ctx1" (is "\<exists>ctx1. ?e = _ \<and> _")
  proof (cases "a \<ge> 0 \<and> a < int (length (ByteSlots (slots ctx)))")
    case True
    obtain ctx' where c: "alloc_copy (code_text (ErrorCode (outcome ctx))) ctx = Inr (code_text (ErrorCode (outcome ctx)), ctx')"
      "ctx_ok ctx'" "slots ctx' = slots ctx"
      using alloc_copy_law f by (auto simp: flow_ok_def)
    moreover have "meta ctx' = meta ctx \<and> outcome ctx' = outcome ctx"
      using c(1) by (auto simp: alloc_copy_def andThen_def split: sum.splits if_splits)
    ultimately show ?thesis using True f set_ok [of ctx' a] by (simp add: flow_ok_def)
  qed (use f in auto)
  then obtain ctx1 where c1: "?e = Inr ctx1" "flow_ok ctx1" by blast
  then show ?thesis using set_ok [of ctx1 b "ErrorMsg (outcome ctx1)"]
    unfolding CaptureError_def c1(1) by (auto intro!: ok_intros)
qed

lemmas tx_defs = Let_def flow_ok_def tx_ok_def tx_log_def maxTxDepth_def

lemma ok_BeginTx: "flow_ok ctx \<Longrightarrow> ok_res (BeginTx found begun execs pc ctx s)"
  unfolding BeginTx_def by (auto simp: tx_defs txSavepointSQL_def intro!: ok_intros)

lemma ok_CommitTx: "flow_ok ctx \<Longrightarrow> ok_res (CommitTx committed execs ctx s)"
  unfolding CommitTx_def by (auto simp: tx_defs txReleaseSQL_def txRollbackToSQL_def intro!: ok_intros)

lemma ok_RollbackTx: "flow_ok ctx \<Longrightarrow> ok_res (RollbackTx ctx s)"
  unfolding RollbackTx_def by (auto simp: tx_defs txRollbackToSQL_def intro!: ok_intros)

lemma ok_WrapOnError:
  assumes "ok_res (a ctx s)"
  shows "ok_res (WrapOnErrorContinue a ctx s)" "ok_res (WrapOnErrorJump a errPC ctx s)" "ok_res (WrapOnErrorStatus a status body ctx s)"
  using assms
  by (auto simp: ok_res_def WrapOnErrorContinue_def WrapOnErrorJump_def WrapOnErrorStatus_def Let_def split: option.splits)

lemma ok_CookieFlatten:
  "flow_ok ctx \<Longrightarrow> \<forall>(name, a) \<in> set cs. byte_slot_no a \<Longrightarrow> byte_slot_no dst \<Longrightarrow> ok_res (CookieFlattenStep cs dst ctx s)"
  using ok_cookie_pairs [of ctx cs] by (auto simp: CookieFlattenStep_def intro!: ok_intros)

lemma ok_Substring:
  "flow_ok ctx \<Longrightarrow> byte_slot_no a \<Longrightarrow> byte_slot_no dst \<Longrightarrow> in_i64 (start + len) \<Longrightarrow> ok_res (SubstringStep a dst start len ctx s)"
  by (auto simp: SubstringStep_def i64_id Let_def intro!: ok_intros)

lemma ok_BindBody: "flow_ok ctx \<Longrightarrow> byte_slot_no dst \<Longrightarrow> ok_res (BindBody gjson rbody path dst ctx s)"
  by (auto simp: BindBody_def Let_def split_beta intro!: ok_intros)

lemmas step_defs = BindHeader_def BindHeaderDynamic_def BindQuery_def BindQueryDynamic_def BindJSON_def LogFieldStep_def
  SetRequestHeader_def SetRequestBody_def BindRequestURL_def CopyHeader_def RemoveRequestHeader_def RenameRequestHeader_def
  SwitchGate_def RetryGate_def ConcatStep_def ToLowerStep_def ToUpperStep_def ToIntStep_def AddStep_def SubStep_def MulStep_def
  ModStep_def DivStep_def int_op_def div_op_def ByteLengthStep_def TrimStep_def ContainsStep_def StartsWithStep_def EndsWithStep_def
  IndexOfStep_def SetResponseHeaderFromSlot_def SetStreamResponseBodyStep_def SetResponseBodyStep_def SetResponseStatusStep_def
  SetResponseStatusFromSlotStep_def MapStatusStep_def SetConstStep_def RespondTokenCountStep_def RespondStep_def
  RemoveResponseHeaderStep_def SetCookieStep_def ExtractCookie_def SetRequestCookie_def RemoveResponseCookie_def
  EarlyReturn_def Fail_def newStopStep_def newInternalJump_def WhileRepeat_def WhileGate_def LoopRepeat_def

lemma ok_Redirect: "flow_ok ctx \<Longrightarrow> byte_slot_no a \<Longrightarrow> ok_res (RedirectStep url a status ctx s)"
proof (cases url)
  case None
  assume "flow_ok ctx" "byte_slot_no a"
  moreover from this have "byteSlot a ctx = Inr (bslot a ctx)" by (simp add: flow_ok_def byteSlot_law)
  ultimately show ?thesis using None by (auto simp: RedirectStep_def intro!: ok_intros)
qed (auto simp: RedirectStep_def intro!: ok_intros)

lemma typed_step_ok: "typed a \<Longrightarrow> flow_ok ctx \<Longrightarrow> ok_res (a ctx s)"
  by (induction arbitrary: ctx s rule: typed.induct)
    (auto intro!: ok_intros ok_BindPath ok_Redirect ok_BindBody ok_Substring ok_CookieFlatten ok_WrapOnError ok_CaptureError
      ok_BeginTx ok_CommitTx ok_RollbackTx simp: step_defs Let_def split: option.splits prod.splits)

lemma exec_path_typed:
  assumes "exec_path obs table k pc ctx s pcs r" "\<forall>i \<in> set table. typed (Action i)" "flow_ok ctx"
  shows "\<exists>ctx' s'. r = Inr (ctx', s') \<and> flow_ok ctx'"
proof -
  have step: "\<exists>pc' ctx' s'. exec_step obs table k pc ctx s = Inr (pc', ctx', s') \<and> flow_ok ctx'"
    if bounds: "0 \<le> pc \<and> pc < i16 (int (length table))" and ok: "flow_ok ctx" for k pc ctx s
  proof -
    have pc: "0 \<le> pc" "pc < int (length table)" using bounds i16_le [of "int (length table)"] by auto
    then have "typed (Action (table ! nat pc))" using assms(2) by (simp add: nat_less_iff)
    then obtain pc1 ctx1 s1 where "Action (table ! nat pc) ctx (s\<lparr>PC := pc\<rparr>) = Inr (pc1, ctx1, s1)" "flow_ok ctx1"
      using typed_step_ok [OF _ ok] unfolding ok_res_def by blast
    then show ?thesis using pc
      by (auto simp: exec_step_def idx_def log_instr_def Let_def split: prod.splits option.splits)
  qed
  from assms(1,3) show ?thesis
  proof (induction rule: exec_path.induct)
    case (path_panic pc k ctx s p)
    then show ?case using step [OF path_panic(1,3), of k s] by simp
  next
    case (path_stop pc k ctx s ctx' s')
    then show ?case using step [OF path_stop(1,3), of k s] by simp
  next
    case (path_next pc k ctx s pc' ctx' s' pcs r)
    then show ?case using step [OF path_next(1) path_next.prems, of k s] by simp
  qed simp
qed

text \<open>C13. A flow all of whose instructions are well typed never panics, wherever it starts, whatever it jumps to and however
  its steps fail: a run on a context of the right shape that ends, ends without a panic, and then the context has its shape,
  the path parameters lie in the path, and the transaction depth is within its bounds and zero exactly without an open
  transaction. The judgement \<open>typed\<close> covers the steps that bind from the request, on text, integers, cookies, headers, the
  response and transactions, jumps, switch and retry gates, the while loop, the jump back of a foreach loop, the error steps
  and the three error wrappers. It asks that byte slots are below 48, integer slots below 16 (loop counters below 32) and
  boolean slots below 8 where the step uses them unchecked, that path indices are not negative, that the sum of start and
  length of a substring step does not overflow, and that the request is present where headers or cookies are read; fragment
  calls, RET and the gate of a foreach loop are not typed.\<close>

theorem typed_flow_never_panics:
  assumes "\<forall>i \<in> set table. typed (Action i)" "flow_ok ctx" "Execute obs table startID maxCallDepth ctx = Some r"
  shows "\<exists>ctx'. r = Inr ctx' \<and> flow_ok ctx'"
proof -
  obtain r' where "exec_loop obs table 0 startID ctx
      (if maxCallDepth > 15 then zero_state\<lparr>LinkExt := Some BorrowLinkExt\<rparr> else zero_state) = Some r'"
    and r: "r = andThen r' (\<lambda>(ctx', _). Inr ctx')"
    using assms(3) unfolding Execute_def by auto
  then obtain pcs where "exec_path obs table 0 startID ctx
      (if maxCallDepth > 15 then zero_state\<lparr>LinkExt := Some BorrowLinkExt\<rparr> else zero_state) pcs r'"
    using exec_loop_path by blast
  from exec_path_typed [OF this assms(1,2)] show ?thesis using r by auto
qed

lemma flow_ok_fresh: "flow_ok (fresh_context n)"
  by (simp add: flow_ok_def ctx_ok_def int_slots_ok_def fresh_context_def zero_slots_def arena_inv_def meta_ok_def tx_ok_def
      maxTxDepth_def ArenaInlineSize_def)

theorem typed_flow_never_panics_witness:
  "\<exists>r ctx'. Execute (\<lambda>_. None) [instr ''SET'' (SetConstStep [65] 3), instr ''FAIL'' (Fail 400 3 [])] 0 0 (fresh_context 64) = Some r \<and>
     r = Inr ctx' \<and> flow_ok ctx'"
proof -
  let ?t = "[instr ''SET'' (SetConstStep [65] 3), instr ''FAIL'' (Fail 400 3 [])]"
  obtain r where r: "Execute (\<lambda>_. None) ?t 0 0 (fresh_context 64) = Some r"
    by (simp add: Execute_def exec_loop.simps exec_step_def idx_def SetConstStep_def put_slot_def set_byteSlot_def set_idx_def
        fresh_context_def zero_slots_def BaseByteSlots_def continue_def next_pc_def zero_state_def i16_def redirect_def StopPlan_def
        log_instr_def Fail_def stop_def with_outcome_def Let_def)
  moreover have "\<forall>i \<in> set ?t. typed (Action i)" by (simp add: typed.intros)
  ultimately show ?thesis using typed_flow_never_panics [OF _ flow_ok_fresh r] by blast
qed

end
