(* ===== verification/Rah_Flow.thy ===== *)
theory Rah_Flow
  imports Rah_Loop_Laws
begin

text \<open>
  Reasoning about code placed in an instruction table: where code lies, and total-correctness triples for the executor
  from one program counter to another, with rules for single instructions, blocks and failing steps.
\<close>

definition code_at :: "Instruction list \<Rightarrow> nat \<Rightarrow> Instruction list \<Rightarrow> bool" where
  "code_at table g code \<longleftrightarrow> length table < 2 ^ 15 \<and> g + length code \<le> length table \<and> take (length code) (drop g table) = code"

lemma code_at_nth: "code_at table g code \<Longrightarrow> j < length code \<Longrightarrow> table ! (g + j) = code ! j \<and> g + j < length table"
  unfolding code_at_def by (metis add_less_cancel_left length_drop nth_drop nth_take order_less_le_trans le_add1 le_trans)

lemma code_at_append: "code_at table g (xs @ ys) \<longleftrightarrow> code_at table g xs \<and> code_at table (g + length xs) ys"
  unfolding code_at_def by (auto simp: take_add add.commute)

lemma code_at_Cons: "code_at table g (x # ys) \<longleftrightarrow> code_at table g [x] \<and> code_at table (g + 1) ys"
  using code_at_append [of table g "[x]" ys] by simp

type_synonym assn = "Context \<Rightarrow> ExecutionState \<Rightarrow> bool"

definition runs :: "(nat \<Rightarrow> int option) \<Rightarrow> Instruction list \<Rightarrow> assn \<Rightarrow> int \<Rightarrow> assn \<Rightarrow> int \<Rightarrow> bool" where
  \<comment> \<open>total correctness: from \<open>pc\<close> in a state with \<open>P\<close> the executor gets to \<open>pc'\<close> in a state with \<open>Q\<close>\<close>
  "runs obs table P pc Q pc' \<longleftrightarrow>
     (\<forall>k ctx s. P ctx s \<longrightarrow> (\<exists>n ctx' s'. exec_n obs table n k pc ctx s = Inr (pc', ctx', s') \<and> Q ctx' s'))"

definition stable :: "assn \<Rightarrow> bool" where
  \<comment> \<open>does not depend on what the executor itself writes\<close>
  "stable P \<longleftrightarrow> (\<forall>ctx s m p ctx' s'. P ctx s \<longrightarrow> P ctx (s\<lparr>PC := p\<rparr>) \<and> (log_instr m ctx s = (ctx', s') \<longrightarrow> P ctx' s'))"

lemma stable_PC: "stable P \<Longrightarrow> P ctx s \<Longrightarrow> P ctx (s\<lparr>PC := p\<rparr>)"
  by (simp add: stable_def)

lemma stable_log: "stable P \<Longrightarrow> P ctx s \<Longrightarrow> log_instr m ctx s = (ctx', s') \<Longrightarrow> P ctx' s'"
  unfolding stable_def by blast

lemma runs_refl: "runs obs table P pc P pc"
  unfolding runs_def by (metis exec_n.simps(1))

lemma runs_trans: "runs obs table P pc Q pc1 \<Longrightarrow> runs obs table Q pc1 R pc2 \<Longrightarrow> runs obs table P pc R pc2"
  unfolding runs_def by (metis (no_types, lifting) exec_n_add andThen_Inr case_prod_conv)

lemma runs_instr:
  assumes "code_at table g [i]" "stable P" "stable Q" "0 \<le> pc'"
    and "\<And>ctx s. P ctx s \<Longrightarrow> PC s = int g \<Longrightarrow> \<exists>ctx' s'. Action i ctx s = Inr (pc', ctx', s') \<and> Q ctx' s'"
  shows "runs obs table P (int g) Q pc'"
  unfolding runs_def
proof (intro allI impI)
  fix k ctx s assume "P ctx s"
  then have "P ctx (s\<lparr>PC := int g\<rparr>)" by (rule stable_PC [OF assms(2)])
  then obtain ctx1 s1 where a: "Action i ctx (s\<lparr>PC := int g\<rparr>) = Inr (pc', ctx1, s1)" "Q ctx1 s1"
    using assms(5) [of ctx "s\<lparr>PC := int g\<rparr>"] by auto
  have g: "g < length table" "table ! g = i" using code_at_nth [OF assms(1), of 0] by simp_all
  obtain ctx' s' where l: "log_instr (obs k) ctx1 s1 = (ctx', s')" by fastforce
  then have "exec_n obs table 1 k (int g) ctx s = Inr (pc', ctx', s')"
    using g a(1) assms(4) by (simp add: exec_step_def idx_def redirect_def StopPlan_def)
  then show "\<exists>n ctx' s'. exec_n obs table n k (int g) ctx s = Inr (pc', ctx', s') \<and> Q ctx' s'"
    using stable_log [OF assms(3) a(2) l] by blast
qed

lemma next_pc_at: "code_at table g [i] \<Longrightarrow> PC s = int g \<Longrightarrow> next_pc s = int (g + 1)"
  using code_at_nth [of table g "[i]" 0] by (simp add: code_at_def next_pc_def i16_id)

lemma runs_next:
  assumes "code_at table g [i]" "stable P" "stable Q"
    and "\<And>ctx s. P ctx s \<Longrightarrow> \<exists>ctx' s'. Action i ctx s = Inr (next_pc s, ctx', s') \<and> Q ctx' s'"
  shows "runs obs table P (int g) Q (int (g + 1))"
proof (rule runs_instr [OF assms(1-3)])
  show "\<exists>ctx' s'. Action i ctx s = Inr (int (g + 1), ctx', s') \<and> Q ctx' s'" if "P ctx s" "PC s = int g" for ctx s
    using assms(4) [OF that(1)] next_pc_at [OF assms(1) that(2)] by simp
qed simp

lemma runs_block:
  assumes "code_at table g body" "stable P"
    and "\<And>i ctx s. i \<in> set body \<Longrightarrow> P ctx s \<Longrightarrow> \<exists>ctx' s'. Action i ctx s = Inr (next_pc s, ctx', s') \<and> P ctx' s'"
  shows "runs obs table P (int g) P (int (g + length body))"
  using assms
proof (induction body arbitrary: g)
  case Nil
  show ?case using runs_refl by simp
next
  case (Cons i body)
  have "code_at table g [i]" "code_at table (g + 1) body" using Cons.prems(1) code_at_Cons by blast+
  moreover have "runs obs table P (int g) P (int (g + 1))"
    by (rule runs_next [OF calculation(1) Cons.prems(2,2)]) (simp add: Cons.prems(3))
  moreover have "runs obs table P (int (g + 1)) P (int (g + 1 + length body))"
    by (rule Cons.IH [OF calculation(2) Cons.prems(2)]) (simp add: Cons.prems(3))
  ultimately show ?case using runs_trans by fastforce
qed

lemma runs_failing:
  \<comment> \<open>a failing step is sent to the error handler, which is then cleared\<close>
  assumes "code_at table g [i]" "stable P" "stable Q" "0 < h"
    and "\<And>ctx s. P ctx s \<Longrightarrow> \<exists>ctx' s'. Action i ctx s = Inr (StopPlan, ctx', s') \<and> Failed (outcome ctx') \<and>
      ErrorHandlerPC s' = h \<and> Q ctx' (s'\<lparr>ErrorHandlerPC := 0\<rparr>)"
  shows "runs obs table P (int g) Q h"
  unfolding runs_def
proof (intro allI impI)
  fix k ctx s assume "P ctx s"
  then have "P ctx (s\<lparr>PC := int g\<rparr>)" by (rule stable_PC [OF assms(2)])
  then obtain ctx1 s1 where a: "Action i ctx (s\<lparr>PC := int g\<rparr>) = Inr (StopPlan, ctx1, s1)" "Failed (outcome ctx1)"
      "ErrorHandlerPC s1 = h" "Q ctx1 (s1\<lparr>ErrorHandlerPC := 0\<rparr>)"
    using assms(5) by blast
  have g: "g < length table" "table ! g = i" using code_at_nth [OF assms(1), of 0] by simp_all
  obtain ctx' s' where l: "log_instr (obs k) ctx1 (s1\<lparr>ErrorHandlerPC := 0\<rparr>) = (ctx', s')" by fastforce
  then have "exec_n obs table 1 k (int g) ctx s = Inr (h, ctx', s')"
    using g a(1-3) assms(4) by (simp add: exec_step_def idx_def redirect_def)
  then show "\<exists>n ctx' s'. exec_n obs table n k (int g) ctx s = Inr (h, ctx', s') \<and> Q ctx' s'"
    using stable_log [OF assms(3) a(4) l] by blast
qed

end
