(* ===== verification/Rah_Tx.thy ===== *)
theory Rah_Tx
  imports Rah_Steps_Laws Rah_Flow
begin

section \<open>Transaction steps as compiled (\<open>internal/engine/steps/tx.go\<close>, \<open>internal/control/compiler.go\<close>)\<close>

text \<open>
  What the database sees of a transaction step: the compiled begin, body, commit and rollback run by the executor.
\<close>

abbreviation tx_all_ok :: "int \<Rightarrow> Instruction list \<Rightarrow> Instruction list" where
  \<comment> \<open>a transaction all of whose database calls succeed\<close>
  "tx_all_ok \<equiv> compile_transaction True True (\<lambda>_. True) True"

definition txv :: "Context \<Rightarrow> bool \<times> int \<times> tx_event list" where
  "txv ctx = (ActiveTx (outcome ctx), TxDepth (outcome ctx), txLog (outcome ctx))"

definition tx_state :: "bool \<times> int \<times> tx_event list \<Rightarrow> int \<Rightarrow> assn" where
  "tx_state v h ctx s \<longleftrightarrow> flow_ok ctx \<and> txv ctx = v \<and> ErrorHandlerPC s = h"

lemma stable_tx [simp]: "stable (tx_state v h)"
  by (auto simp: stable_def tx_state_def txv_def log_instr_def split: option.splits)

definition tx_neutral :: "InstructionFunc \<Rightarrow> bool" where
  \<comment> \<open>goes on to the next instruction and leaves the transaction and the error handler alone\<close>
  "tx_neutral a \<longleftrightarrow> (\<forall>ctx s. flow_ok ctx \<longrightarrow>
     (\<exists>ctx' s'. a ctx s = Inr (next_pc s, ctx', s') \<and> tx_state (txv ctx) (ErrorHandlerPC s) ctx' s'))"

definition tx_failing :: "InstructionFunc \<Rightarrow> bool" where
  \<comment> \<open>fails, and leaves the transaction and the error handler alone\<close>
  "tx_failing a \<longleftrightarrow> (\<forall>ctx s. flow_ok ctx \<longrightarrow>
     (\<exists>ctx' s'. a ctx s = Inr (StopPlan, ctx', s') \<and> Failed (outcome ctx') \<and> tx_state (txv ctx) (ErrorHandlerPC s) ctx' s'))"

lemma tx_neutral_step:
  "tx_neutral a \<Longrightarrow> tx_state v h ctx s \<Longrightarrow> \<exists>ctx' s'. a ctx s = Inr (next_pc s, ctx', s') \<and> tx_state v h ctx' s'"
  unfolding tx_neutral_def tx_state_def by metis

lemma tx_sql_idx:
  "1 \<le> d \<Longrightarrow> d < 8 \<Longrightarrow> idx txSavepointSQL d = Inr (tx_sql ''SAVEPOINT'' (d + 1))"
  "2 \<le> d \<Longrightarrow> d \<le> 8 \<Longrightarrow> idx txReleaseSQL d = Inr (tx_sql ''RELEASE SAVEPOINT'' d)"
  "2 \<le> d \<Longrightarrow> d \<le> 8 \<Longrightarrow> idx txRollbackToSQL d = Inr (tx_sql ''ROLLBACK TO SAVEPOINT'' d)"
proof -
  assume "1 \<le> d" "d < 8"
  then have "d = 1 \<or> d = 2 \<or> d = 3 \<or> d = 4 \<or> d = 5 \<or> d = 6 \<or> d = 7" by arith
  then show "idx txSavepointSQL d = Inr (tx_sql ''SAVEPOINT'' (d + 1))"
    by (elim disjE) (simp_all add: txSavepointSQL_def idx_def)
next
  assume "2 \<le> d" "d \<le> 8"
  then have d: "d = 2 \<or> d = 3 \<or> d = 4 \<or> d = 5 \<or> d = 6 \<or> d = 7 \<or> d = 8" by arith
  then show "idx txReleaseSQL d = Inr (tx_sql ''RELEASE SAVEPOINT'' d)"
    by (elim disjE) (simp_all add: txReleaseSQL_def idx_def)
  from d show "idx txRollbackToSQL d = Inr (tx_sql ''ROLLBACK TO SAVEPOINT'' d)"
    by (elim disjE) (simp_all add: txRollbackToSQL_def idx_def)
qed

definition tx_open_event :: "int \<Rightarrow> tx_event" where
  "tx_open_event d = (if d = 0 then TxBegin else TxExec (tx_sql ''SAVEPOINT'' (d + 1)))"

definition tx_commit_event :: "int \<Rightarrow> tx_event" where
  "tx_commit_event d = (if d = 1 then TxCommit else TxExec (tx_sql ''RELEASE SAVEPOINT'' d))"

definition tx_rollback_event :: "int \<Rightarrow> tx_event" where
  "tx_rollback_event d = (if d = 1 then TxRollback else TxExec (tx_sql ''ROLLBACK TO SAVEPOINT'' d))"

lemma BeginTx_pass:
  assumes "tx_state (d \<noteq> 0, d, l) h ctx s" "0 \<le> d" "d < 8"
  shows "\<exists>ctx' s'. BeginTx True True (\<lambda>_. True) r ctx s = Inr (next_pc s, ctx', s') \<and>
    tx_state (True, d + 1, l @ [tx_open_event d]) r ctx' s'"
  using assms tx_sql_idx(1) [of d]
  by (cases "d = 0") (auto simp: BeginTx_def tx_state_def txv_def continue_def next_pc_def tx_open_event_def tx_defs)

lemma CommitTx_pass:
  assumes "tx_state (True, d, l) h ctx s" "1 \<le> d" "d \<le> 8"
  shows "\<exists>ctx' s'. CommitTx True (\<lambda>_. True) ctx s = Inr (next_pc s, ctx', s') \<and>
    tx_state (d - 1 \<noteq> 0, d - 1, l @ [tx_commit_event d]) 0 ctx' s'"
  using assms tx_sql_idx(2) [of d]
  by (cases "d = 1") (auto simp: CommitTx_def tx_state_def txv_def continue_def next_pc_def tx_commit_event_def tx_defs)

lemma RollbackTx_pass:
  assumes "tx_state (d \<noteq> 0, d, l) h ctx s" "0 \<le> d" "d \<le> 8"
  shows "\<exists>ctx' s'. RollbackTx ctx s = Inr (next_pc s, ctx', s') \<and>
    tx_state (if d = 0 then (False, 0, l) else (d - 1 \<noteq> 0, d - 1, l @ [tx_rollback_event d])) 0 ctx' s'"
  using assms tx_sql_idx(3) [of d]
  by (cases "d = 0"; cases "d = 1") (auto simp: RollbackTx_def tx_state_def txv_def continue_def next_pc_def tx_rollback_event_def tx_defs)

lemma code_at_tx:
  assumes "code_at table g (tx_all_ok (int g) body)"
  obtains b c r where "code_at table g [b]" "code_at table (g + 1) body" "code_at table (g + 1 + length body) [c]"
    "code_at table (g + 2 + length body) [r]" "Action b = BeginTx True True (\<lambda>_. True) (int (g + 2 + length body))"
    "Action c = CommitTx True (\<lambda>_. True)" "Action r = RollbackTx"
proof -
  have r: "i16 (int g + int (length body) + 2) = int (g + 2 + length body)"
    using assms by (simp add: code_at_def compile_transaction_def Let_def i16_id)
  let ?b = "\<lparr>Name = ''BEGIN_TX'', Action = BeginTx True True (\<lambda>_. True) (int (g + 2 + length body)), StepIdx = int g\<rparr>"
  let ?c = "\<lparr>Name = ''COMMIT_TX'', Action = CommitTx True (\<lambda>_. True), StepIdx = int g\<rparr>"
  let ?r = "\<lparr>Name = ''ROLLBACK_TX'', Action = RollbackTx, StepIdx = int g\<rparr>"
  have "code_at table g ([?b] @ body @ [?c] @ [?r])" using assms by (simp add: compile_transaction_def Let_def r)
  then have "code_at table g [?b]" "code_at table (g + 1) body" "code_at table (g + 1 + length body) [?c]"
    "code_at table (g + 2 + length body) [?r]"
    unfolding code_at_append by (simp_all add: add.commute add.left_commute)
  then show thesis by (rule that) simp_all
qed

lemma tx_opens:
  assumes at: "code_at table g (tx_all_ok (int g) (pre @ rest))" and "\<forall>b \<in> set pre. tx_neutral (Action b)" "0 \<le> d" "d < 8"
  shows "runs obs table (tx_state (d \<noteq> 0, d, l) h) (int g)
    (tx_state (True, d + 1, l @ [tx_open_event d]) (int (g + 2 + length (pre @ rest)))) (int (g + 1 + length pre))"
proof -
  let ?Q = "tx_state (True, d + 1, l @ [tx_open_event d]) (int (g + 2 + length (pre @ rest)))"
  obtain b where b: "code_at table g [b]" "code_at table (g + 1) pre"
    "Action b = BeginTx True True (\<lambda>_. True) (int (g + 2 + length (pre @ rest)))"
    using code_at_tx [OF at] code_at_append by metis
  have "runs obs table (tx_state (d \<noteq> 0, d, l) h) (int g) ?Q (int (g + 1))"
    by (rule runs_next [OF b(1)]) (use BeginTx_pass assms(3,4) b(3) in simp_all)
  moreover have "runs obs table ?Q (int (g + 1)) ?Q (int (g + 1 + length pre))"
    by (rule runs_block [OF b(2)]) (use assms(2) tx_neutral_step in \<open>simp, blast\<close>)
  ultimately show ?thesis by (rule runs_trans)
qed

lemma tx_closes:
  assumes at: "code_at table g (tx_all_ok (int g) body)"
  shows "0 \<le> d \<Longrightarrow> d \<le> 8 \<Longrightarrow> runs obs table (tx_state (d \<noteq> 0, d, l) h) (int (g + 2 + length body))
      (tx_state (if d = 0 then (False, 0, l) else (d - 1 \<noteq> 0, d - 1, l @ [tx_rollback_event d])) 0) (int (g + 3 + length body))"
    "1 \<le> d \<Longrightarrow> d \<le> 8 \<Longrightarrow> runs obs table (tx_state (True, d, l) h) (int (g + 1 + length body))
      (tx_state (d - 1 \<noteq> 0, d - 1, l @ [tx_commit_event d]) 0) (int (g + 2 + length body))"
proof -
  obtain c r where c: "code_at table (g + 1 + length body) [c]" "Action c = CommitTx True (\<lambda>_. True)"
    and r: "code_at table (g + 2 + length body) [r]" "Action r = RollbackTx"
    using code_at_tx [OF at] by metis
  show "0 \<le> d \<Longrightarrow> d \<le> 8 \<Longrightarrow> runs obs table (tx_state (d \<noteq> 0, d, l) h) (int (g + 2 + length body))
      (tx_state (if d = 0 then (False, 0, l) else (d - 1 \<noteq> 0, d - 1, l @ [tx_rollback_event d])) 0) (int (g + 3 + length body))"
    using runs_next [OF r(1), of "tx_state (d \<noteq> 0, d, l) h"] RollbackTx_pass r(2) by (simp add: add.commute add.left_commute)
  show "1 \<le> d \<Longrightarrow> d \<le> 8 \<Longrightarrow> runs obs table (tx_state (True, d, l) h) (int (g + 1 + length body))
      (tx_state (d - 1 \<noteq> 0, d - 1, l @ [tx_commit_event d]) 0) (int (g + 2 + length body))"
    using runs_next [OF c(1), of "tx_state (True, d, l) h"] CommitTx_pass c(2) by (simp add: add.commute add.left_commute)
qed

text \<open>C10. A transaction step that is not inside another one commits or rolls back as a whole, under these conditions: the
  calls of the database (begin, commit, savepoints) succeed, and the instructions of the body are straight-line code that leaves
  the transaction and the error handler alone, each going on to the next one, up to the end of the body or up to a first one that
  always fails. When the body goes through the database sees a begin and a
  commit, when it has a failing instruction the database sees a begin and a rollback, and in both cases the flow goes on after the
  step with no transaction open and no error handler left.\<close>

theorem transaction_atomic:
  assumes at: "code_at table g (tx_all_ok (int g) (pre @ rest))" and neutral: "\<forall>b \<in> set pre. tx_neutral (Action b)"
    and rest: "rest = [] \<or> (\<exists>f post. rest = f # post \<and> tx_failing (Action f))"
  shows "runs obs table (tx_state (False, 0, l) h) (int g)
    (tx_state (False, 0, l @ [TxBegin, if rest = [] then TxCommit else TxRollback]) 0) (int (g + 3 + length (pre @ rest)))"
proof -
  let ?P = "tx_state (True, 1, l @ [TxBegin])"
  have opened: "runs obs table (tx_state (False, 0, l) h) (int g) (?P (int (g + 2 + length (pre @ rest)))) (int (g + 1 + length pre))"
    using tx_opens [OF at neutral, of 0 obs l h] by (simp add: tx_open_event_def)
  show ?thesis
  proof (cases "rest = []")
    case True
    have 1: "runs obs table (?P (int (g + 2 + length (pre @ rest)))) (int (g + 1 + length (pre @ rest)))
        (tx_state (False, 0, l @ [TxBegin, TxCommit]) 0) (int (g + 2 + length (pre @ rest)))"
      using tx_closes(2) [OF at, of 1 obs "l @ [TxBegin]"] by (simp add: tx_commit_event_def)
    have 2: "runs obs table (tx_state (False, 0, l @ [TxBegin, TxCommit]) 0) (int (g + 2 + length (pre @ rest)))
        (tx_state (False, 0, l @ [TxBegin, TxCommit]) 0) (int (g + 3 + length (pre @ rest)))"
      using tx_closes(1) [OF at, of 0 obs "l @ [TxBegin, TxCommit]" 0] by simp
    have eq: "g + 1 + length pre = g + 1 + length (pre @ rest)" using True by simp
    show ?thesis using runs_trans [OF opened [unfolded eq] runs_trans [OF 1 2]] True by simp
  next
    case False
    then obtain f post where f: "rest = f # post" "tx_failing (Action f)" using rest by blast
    have "code_at table (g + 1 + length pre) [f]"
      using code_at_tx [OF at] f(1) by (metis code_at_append code_at_Cons)
    then have 1: "runs obs table (?P (int (g + 2 + length (pre @ rest)))) (int (g + 1 + length pre)) (?P 0) (int (g + 2 + length (pre @ rest)))"
    proof (rule runs_failing)
      show "\<exists>ctx' s'. Action f ctx s = Inr (StopPlan, ctx', s') \<and> Failed (outcome ctx') \<and>
          ErrorHandlerPC s' = int (g + 2 + length (pre @ rest)) \<and> ?P 0 ctx' (s'\<lparr>ErrorHandlerPC := 0\<rparr>)"
        if "?P (int (g + 2 + length (pre @ rest))) ctx s" for ctx s
        using f(2) that unfolding tx_failing_def tx_state_def by fastforce
    qed simp_all
    have 2: "runs obs table (?P 0) (int (g + 2 + length (pre @ rest)))
        (tx_state (False, 0, l @ [TxBegin, TxRollback]) 0) (int (g + 3 + length (pre @ rest)))"
      using tx_closes(1) [OF at, of 1 obs "l @ [TxBegin]" 0] by (simp add: tx_rollback_event_def)
    show ?thesis using runs_trans [OF opened runs_trans [OF 1 2]] False by simp
  qed
qed

lemma tx_neutral_status: "tx_neutral (SetResponseStatusStep code)"
  by (auto simp: tx_neutral_def tx_state_def txv_def SetResponseStatusStep_def continue_def)
    (simp_all add: set_status_def with_resp_def)

lemma tx_failing_fail: "tx_failing (Fail code slot msg)"
  by (auto simp: tx_failing_def tx_state_def txv_def Fail_def stop_def)

theorem transaction_atomic_witness:
  "runs (\<lambda>_. None) (tx_all_ok 0 [instr ''STATUS'' (SetResponseStatusStep 201), instr ''FAIL'' (Fail 500 (-1) [])])
     (tx_state (False, 0, []) 0) 0 (tx_state (False, 0, [TxBegin, TxRollback]) 0) 5"
  using transaction_atomic [of _ 0 "[instr ''STATUS'' (SetResponseStatusStep 201)]" "[instr ''FAIL'' (Fail 500 (-1) [])]"
      "\<lambda>_. None" "[]" 0, OF _ _ disjI2]
  by (simp add: tx_neutral_status tx_failing_fail code_at_def compile_transaction_def Let_def)

text \<open>C37. A transaction step inside another one destroys it: after the inner commit, which releases the savepoint, the flow runs
  into the inner step's rollback instruction, which at that depth rolls the outer transaction back. What follows of the
  outer body runs outside any transaction, and the outer commit does nothing. The flow does not fail.\<close>

theorem nested_transaction_rolled_back:
  assumes at: "code_at table g (tx_all_ok (int g) (pre @ tx_all_ok (int (g + 1 + length pre)) body @ post))"
    and neutral: "\<forall>b \<in> set (pre @ body @ post). tx_neutral (Action b)"
  shows "runs obs table (tx_state (False, 0, l) h) (int g)
    (tx_state (False, 0, l @ [TxBegin, TxExec ''SAVEPOINT rah_sp_2'', TxExec ''RELEASE SAVEPOINT rah_sp_2'', TxRollback]) 0)
    (int (g + 6 + length (pre @ body @ post)))"
proof -
  let ?g = "g + 1 + length pre" and ?inner = "tx_all_ok (int (g + 1 + length pre)) body"
  let ?l = "l @ [TxBegin, TxExec ''SAVEPOINT rah_sp_2'', TxExec ''RELEASE SAVEPOINT rah_sp_2'']"
  have sql: "tx_open_event 1 = TxExec ''SAVEPOINT rah_sp_2''" "tx_commit_event 2 = TxExec ''RELEASE SAVEPOINT rah_sp_2''"
    "tx_open_event 0 = TxBegin" "tx_rollback_event 1 = TxRollback"
    by code_simp+
  have len: "length ?inner = length body + 3" by (simp add: compile_transaction_def Let_def)
  obtain c r where code: "code_at table (g + 1) (pre @ ?inner @ post)" "code_at table (g + 1 + length (pre @ ?inner @ post)) [c]"
    "code_at table (g + 2 + length (pre @ ?inner @ post)) [r]" "Action c = CommitTx True (\<lambda>_. True)" "Action r = RollbackTx"
    using code_at_tx [OF at] by metis
  then have inner: "code_at table ?g (tx_all_ok (int ?g) (body @ []))" and post: "code_at table (?g + length body + 3) post"
    unfolding code_at_append using len by (simp_all add: add.commute add.left_commute)
  let ?fin = "tx_state (False, 0, ?l @ [TxRollback])" and ?h = "int (g + 2 + length (pre @ ?inner @ post))"
  let ?l2 = "l @ [TxBegin, TxExec ''SAVEPOINT rah_sp_2'']"
  have 1: "runs obs table (tx_state (False, 0, l) h) (int g) (tx_state (True, 1, l @ [TxBegin]) ?h) (int ?g)"
    using tx_opens [OF at, of 0 obs l h] neutral sql by simp
  have 2: "runs obs table (tx_state (True, 1, l @ [TxBegin]) ?h) (int ?g)
      (tx_state (True, 2, ?l2) (int (?g + 2 + length body))) (int (?g + 1 + length body))"
    using tx_opens [OF inner, of 1 obs "l @ [TxBegin]" ?h] neutral sql by simp
  have 3: "runs obs table (tx_state (True, 2, ?l2) (int (?g + 2 + length body))) (int (?g + 1 + length body))
      (tx_state (True, 1, ?l) 0) (int (?g + 2 + length body))"
    using tx_closes(2) [OF inner, of 2 obs ?l2 "int (?g + 2 + length body)"] sql by simp
  have 4: "runs obs table (tx_state (True, 1, ?l) 0) (int (?g + 2 + length body)) (?fin 0) (int (?g + length body + 3))"
    using tx_closes(1) [OF inner, of 1 obs ?l 0] sql by (simp add: add.commute add.left_commute)
  have 5: "runs obs table (?fin 0) (int (?g + length body + 3)) (?fin 0) (int (?g + length body + 3 + length post))"
    by (rule runs_block [OF post stable_tx], rule tx_neutral_step) (use neutral in auto)
  have 6: "runs obs table (?fin 0) (int (?g + length body + 3 + length post)) (?fin 0) ?h"
  proof -
    have "runs obs table (?fin 0) (int (g + 1 + length (pre @ ?inner @ post))) (?fin 0) (int (g + 1 + length (pre @ ?inner @ post) + 1))"
      by (rule runs_next [OF code(2) stable_tx stable_tx], unfold code(4))
        (auto simp: CommitTx_def tx_state_def txv_def continue_def next_pc_def Let_def)
    then show ?thesis using len by (simp add: add.commute add.left_commute)
  qed
  have 7: "runs obs table (?fin 0) ?h (?fin 0) (int (g + 6 + length (pre @ body @ post)))"
    using tx_closes(1) [OF at, of 0 obs "?l @ [TxRollback]" 0] len by (simp add: add.commute add.left_commute)
  show ?thesis
    using runs_trans [OF 1 runs_trans [OF 2 runs_trans [OF 3 runs_trans [OF 4 runs_trans [OF 5 runs_trans [OF 6 7]]]]]] by simp
qed

theorem nested_transaction_rolled_back_witness:
  "runs (\<lambda>_. None) (tx_all_ok 0 (tx_all_ok 1 [] @ [instr ''STATUS'' (SetResponseStatusStep 201)])) (tx_state (False, 0, []) 0) 0
     (tx_state (False, 0, [TxBegin, TxExec ''SAVEPOINT rah_sp_2'', TxExec ''RELEASE SAVEPOINT rah_sp_2'', TxRollback]) 0) 7"
  using nested_transaction_rolled_back [of "tx_all_ok 0 (tx_all_ok 1 [] @ [instr ''STATUS'' (SetResponseStatusStep 201)])" 0 "[]" "[]"
      "[instr ''STATUS'' (SetResponseStatusStep 201)]" "\<lambda>_. None" "[]" 0]
  by (simp add: tx_neutral_status code_at_def compile_transaction_def Let_def)

end
