(* ===== verification/Rah_Cond.thy ===== *)
theory Rah_Cond
  imports Rah_Steps
begin

section \<open>Conditions (\<open>internal/engine/steps/cond_expr.go\<close>, \<open>internal/engine/steps/logic.go\<close>)\<close>

text \<open>
  The condition language of flows: the lexer, the recursive-descent parser that builds closures over the context, and the
  older evaluator it falls back to. The parser's position in the token slice is the list of tokens that remain. Its mutual
  recursion carries fuel; \<open>None\<close> is running out of it, which the fuel \<open>CompileCondition\<close> starts with excludes. Regular
  expressions are a parameter: \<open>regex\<close> gives the matcher of a pattern, \<open>None\<close> for an invalid one. Slot numbers come from the
  compiler's slot map and are never negative.
\<close>

datatype tokenKind =
  tkIdent | tkStr | tkNum | tkAnd | tkOr | tkNot | tkEq | tkNe | tkLt | tkLe | tkGt | tkGe | tkLParen | tkRParen | tkComma | tkEOF

datatype token = Tok (kind: tokenKind) (val: bytes)

datatype cond_error = Unterminated | UnexpectedChar u8 | UnexpectedToken token | InvalidOperator token | InvalidNumber bytes
  | InvalidRegex bytes | TrailingTokens

definition IsLetter :: "u8 \<Rightarrow> bool" where
  \<comment> \<open>\<open>unicode.IsLetter(rune(ch))\<close>: the byte read as a Latin-1 character\<close>
  "IsLetter c \<longleftrightarrow> 65 \<le> c \<and> c \<le> 90 \<or> 97 \<le> c \<and> c \<le> 122 \<or> c = 0xAA \<or> c = 0xB5 \<or> c = 0xBA \<or>
     0xC0 \<le> c \<and> c \<noteq> 0xD7 \<and> c \<noteq> 0xF7"

definition ident_start :: "u8 \<Rightarrow> bool" where
  "ident_start c \<longleftrightarrow> c = 0x5F \<or> IsLetter c"

definition ident_char :: "u8 \<Rightarrow> bool" where
  "ident_char c \<longleftrightarrow> c = 0x5F \<or> c = 0x2E \<or> IsLetter c \<or> is_digit c"

definition two :: "u8 \<Rightarrow> u8 \<Rightarrow> u8 \<Rightarrow> bytes \<Rightarrow> bool" where
  \<comment> \<open>\<open>ch == a \<and> i+1 < len(expr) \<and> expr[i+1] == b\<close>\<close>
  "two c a b cs \<longleftrightarrow> c = a \<and> cs \<noteq> [] \<and> hd cs = b"

definition next_token :: "u8 \<Rightarrow> bytes \<Rightarrow> cond_error + token \<times> bytes" where
  \<comment> \<open>one pass of the lexer's switch at a character that is not a space: the token and the rest\<close>
  "next_token c cs =
     (if two c 0x26 0x26 cs then Inr (Tok tkAnd (bytes_of ''&&''), tl cs)
      else if two c 0x7C 0x7C cs then Inr (Tok tkOr (bytes_of ''||''), tl cs)
      else if two c 0x21 0x3D cs then Inr (Tok tkNe (bytes_of ''!=''), tl cs)
      else if c = 0x21 then Inr (Tok tkNot (bytes_of ''!''), cs)
      else if two c 0x3D 0x3D cs then Inr (Tok tkEq (bytes_of ''==''), tl cs)
      else if c = 0x3D then Inr (Tok tkEq (bytes_of ''==''), cs)
      else if two c 0x3C 0x3D cs then Inr (Tok tkLe (bytes_of ''<=''), tl cs)
      else if c = 0x3C then Inr (Tok tkLt (bytes_of ''<''), cs)
      else if two c 0x3E 0x3D cs then Inr (Tok tkGe (bytes_of ''>=''), tl cs)
      else if c = 0x3E then Inr (Tok tkGt (bytes_of ''>''), cs)
      else if c = 0x28 then Inr (Tok tkLParen (bytes_of ''(''), cs)
      else if c = 0x29 then Inr (Tok tkRParen (bytes_of '')''), cs)
      else if c = 0x2C then Inr (Tok tkComma (bytes_of '',''), cs)
      else if c = 0x22 \<or> c = 0x27 then
        (let body = takeWhile (\<lambda>x. x \<noteq> c) cs in
         if length body = length cs then Inl Unterminated else Inr (Tok tkStr body, drop (length body + 1) cs))
      else if is_digit c \<or> c = 0x2D \<and> cs \<noteq> [] \<and> is_digit (hd cs) then
        Inr (Tok tkNum (c # takeWhile is_digit cs), dropWhile is_digit cs)
      else if ident_start c then Inr (Tok tkIdent (c # takeWhile ident_char cs), dropWhile ident_char cs)
      else Inl (UnexpectedChar c))"

lemma next_token_shorter: "next_token c cs = Inr (t, r) \<Longrightarrow> length r \<le> length cs"
  by (auto simp: next_token_def two_def Let_def length_dropWhile_le split: if_splits)

definition space_char :: "u8 \<Rightarrow> bool" where
  "space_char c \<longleftrightarrow> c = 0x20 \<or> c = 0x09 \<or> c = 0x0D \<or> c = 0x0A"

function tokenize :: "bytes \<Rightarrow> cond_error + token list" where
  "tokenize [] = Inr [Tok tkEOF []]"
| "tokenize (c # cs) =
     (if space_char c then tokenize cs
      else case next_token c cs of
             Inl e \<Rightarrow> Inl e
           | Inr (t, r) \<Rightarrow> (case tokenize r of Inl e \<Rightarrow> Inl e | Inr ts \<Rightarrow> Inr (t # ts)))"
  by pat_completeness auto
termination
  by (relation "measure length") (auto dest!: next_token_shorter simp: less_Suc_eq_le)

declare tokenize.simps(2) [simp del]

subsection \<open>Reading operands\<close>

definition CutPrefix :: "bytes \<Rightarrow> bytes \<Rightarrow> bytes" where
  \<comment> \<open>\<open>strings.CutPrefix\<close>, its first result\<close>
  "CutPrefix s p = (if HasPrefix s p then drop (length p) s else s)"

type_synonym slot_map = "bytes \<rightharpoonup> int"

definition slot_text :: "int \<Rightarrow> Context \<Rightarrow> bytes" where
  \<comment> \<open>the value of a byte slot, empty out of range\<close>
  "slot_text i ctx = (if i < int (length (ByteSlots (slots ctx))) then ByteSlots (slots ctx) ! nat i else [])"

definition resolveStringReader :: "slot_map \<Rightarrow> bytes \<Rightarrow> Context \<Rightarrow> bytes" where
  "resolveStringReader slotMap name0 ctx =
     (let name = CutPrefix name0 (bytes_of ''slot.'') in
      if name = bytes_of ''status'' then Itoa (ResponseStatus (resp ctx))
      else if name = bytes_of ''method'' then Method (meta ctx)
      else if name = bytes_of ''path'' then Path (meta ctx)
      else case slotMap name of Some i \<Rightarrow> slot_text i ctx | None \<Rightarrow> [])"

definition resolveIntReader :: "slot_map \<Rightarrow> bytes \<Rightarrow> Context \<Rightarrow> int" where
  "resolveIntReader slotMap name0 ctx =
     (let name = CutPrefix name0 (bytes_of ''slot.'') in
      if name = bytes_of ''status'' then ResponseStatus (resp ctx)
      else case slotMap name of
             Some i \<Rightarrow> if i < int (length (ByteSlots (slots ctx))) then fst (ParseInt (slot_text i ctx)) else 0
           | None \<Rightarrow> 0)"

definition truthy :: "slot_map \<Rightarrow> bytes \<Rightarrow> ConditionFunc" where
  \<comment> \<open>a bare identifier\<close>
  "truthy slotMap name0 ctx =
     (let name = CutPrefix name0 (bytes_of ''slot.'') in
      if name = bytes_of ''status'' then ResponseStatus (resp ctx) \<noteq> 0
      else if name = bytes_of ''method'' then length (Method (meta ctx)) > 0
      else if name = bytes_of ''path'' then length (Path (meta ctx)) > 0
      else case slotMap name of Some i \<Rightarrow> length (slot_text i ctx) > 0 | None \<Rightarrow> False)"

definition isStringPredicate :: "bytes \<Rightarrow> bool" where
  "isStringPredicate name \<longleftrightarrow> name \<in> set (map bytes_of [''contains'', ''startsWith'', ''endsWith'', ''matches''])"

type_synonym regexp = "bytes \<Rightarrow> (bytes \<Rightarrow> bool) option"

definition string_predicate :: "regexp \<Rightarrow> bytes \<Rightarrow> bytes \<Rightarrow> (bytes \<Rightarrow> bool) option" where
  \<comment> \<open>the test a string predicate makes of its operand; \<open>None\<close>: an invalid regular expression\<close>
  "string_predicate regex name arg =
     (if name = bytes_of ''contains'' then Some (\<lambda>s. Contains s arg)
      else if name = bytes_of ''startsWith'' then Some (\<lambda>s. HasPrefix s arg)
      else if name = bytes_of ''endsWith'' then Some (\<lambda>s. HasSuffix s arg)
      else regex arg)"

definition compare_int :: "tokenKind \<Rightarrow> int \<Rightarrow> int \<Rightarrow> bool" where
  "compare_int op a b =
     (case op of tkEq \<Rightarrow> a = b | tkNe \<Rightarrow> a \<noteq> b | tkLt \<Rightarrow> a < b | tkLe \<Rightarrow> a \<le> b | tkGt \<Rightarrow> a > b | _ \<Rightarrow> a \<ge> b)"

definition null_check :: "slot_map \<Rightarrow> bytes \<Rightarrow> bool \<Rightarrow> ConditionFunc" where
  \<comment> \<open>the comparison with null: for equality or for difference. The name is looked up as written.\<close>
  "null_check slotMap name eq ctx =
     (case slotMap name of
        Some i \<Rightarrow> (if eq then i \<ge> int (length (ByteSlots (slots ctx))) \<or> length (slot_text i ctx) = 0
                   else i < int (length (ByteSlots (slots ctx))) \<and> length (slot_text i ctx) > 0)
      | None \<Rightarrow> eq)"

subsection \<open>The parser\<close>

type_synonym 'a parsed = "(cond_error + 'a \<times> token list) option"

definition peek :: "token list \<Rightarrow> token" where
  "peek ts = (case ts of [] \<Rightarrow> Tok tkEOF [] | t # _ \<Rightarrow> t)"

definition consume :: "token list \<Rightarrow> token \<times> token list" where
  "consume ts = (peek ts, tl ts)"

definition expect :: "tokenKind \<Rightarrow> token list \<Rightarrow> cond_error + token \<times> token list" where
  "expect k ts = (let (t, r) = consume ts in if kind t \<noteq> k then Inl (UnexpectedToken t) else Inr (t, r))"

definition bind_e :: "'e + 'a \<Rightarrow> ('a \<Rightarrow> 'e + 'b) \<Rightarrow> 'e + 'b" where
  \<comment> \<open>\<open>if err != nil { return err }\<close>\<close>
  "bind_e m f = (case m of Inl e \<Rightarrow> Inl e | Inr x \<Rightarrow> f x)"

definition bind_p :: "'a parsed \<Rightarrow> ('a \<Rightarrow> token list \<Rightarrow> 'b parsed) \<Rightarrow> 'b parsed" where
  "bind_p m f = (case m of None \<Rightarrow> None | Some (Inl e) \<Rightarrow> Some (Inl e) | Some (Inr (x, ts)) \<Rightarrow> f x ts)"

definition parse_predicate :: "regexp \<Rightarrow> slot_map \<Rightarrow> bytes \<Rightarrow> token list \<Rightarrow> cond_error + ConditionFunc \<times> token list" where
  \<comment> \<open>after the name of a string predicate\<close>
  "parse_predicate regex slotMap name ts =
     bind_e (expect tkLParen ts) (\<lambda>(_, ts1).
     bind_e (expect tkIdent ts1) (\<lambda>(slotTok, ts2).
     bind_e (expect tkComma ts2) (\<lambda>(_, ts3).
     bind_e (expect tkStr ts3) (\<lambda>(argTok, ts4).
     bind_e (expect tkRParen ts4) (\<lambda>(_, ts5).
       case string_predicate regex name (val argTok) of
         None \<Rightarrow> Inl (InvalidRegex (val argTok))
       | Some p \<Rightarrow> Inr (\<lambda>ctx. p (resolveStringReader slotMap (val slotTok) ctx), ts5))))))"

definition parse_comparison :: "slot_map \<Rightarrow> bytes \<Rightarrow> token \<Rightarrow> token list \<Rightarrow> cond_error + ConditionFunc \<times> token list" where
  \<comment> \<open>after the operator of a comparison\<close>
  "parse_comparison slotMap name op ts =
     (let rhs = peek ts in
      if kind rhs = tkStr then
        if kind op = tkEq then Inr (\<lambda>ctx. resolveStringReader slotMap name ctx = val rhs, tl ts)
        else if kind op = tkNe then Inr (\<lambda>ctx. resolveStringReader slotMap name ctx \<noteq> val rhs, tl ts)
        else Inl (InvalidOperator op)
      else if kind rhs = tkIdent \<and> (val rhs = bytes_of ''null'' \<or> val rhs = bytes_of ''nil'') then
        if kind op = tkEq then Inr (null_check slotMap name True, tl ts)
        else if kind op = tkNe then Inr (null_check slotMap name False, tl ts)
        else Inl (InvalidOperator op)
      else if kind rhs = tkNum then
        let (rhsInt, err) = ParseInt (val rhs) in
        if err then Inl (InvalidNumber (val rhs))
        else Inr (\<lambda>ctx. compare_int (kind op) (resolveIntReader slotMap name ctx) rhsInt, tl ts)
      else Inl (UnexpectedToken rhs))"

definition parse_ident :: "regexp \<Rightarrow> slot_map \<Rightarrow> bytes \<Rightarrow> token list \<Rightarrow> cond_error + ConditionFunc \<times> token list" where
  \<comment> \<open>after an identifier\<close>
  "parse_ident regex slotMap name ts =
     (if isStringPredicate name then parse_predicate regex slotMap name ts
      else if kind (peek ts) \<in> {tkEq, tkNe, tkLt, tkLe, tkGt, tkGe} then parse_comparison slotMap name (peek ts) (tl ts)
      else Inr (truthy slotMap name, ts))"

datatype rule = ParseOr | OrLoop ConditionFunc | ParseAnd | AndLoop ConditionFunc | ParseUnary | ParsePrimary
  \<comment> \<open>the parser's methods, and the loops of two of them with what has been built so far\<close>

type_synonym parse_rec = "rule \<Rightarrow> token list \<Rightarrow> ConditionFunc parsed"

definition parseOr :: "parse_rec \<Rightarrow> token list \<Rightarrow> ConditionFunc parsed" where
  "parseOr rec ts = bind_p (rec ParseAnd ts) (\<lambda>l ts1. rec (OrLoop l) ts1)"

definition orLoop :: "parse_rec \<Rightarrow> ConditionFunc \<Rightarrow> token list \<Rightarrow> ConditionFunc parsed" where
  "orLoop rec l ts =
     (if kind (peek ts) = tkOr
      then bind_p (rec ParseAnd (tl ts)) (\<lambda>r ts1. rec (OrLoop (\<lambda>ctx. l ctx \<or> r ctx)) ts1)
      else Some (Inr (l, ts)))"

definition parseAnd :: "parse_rec \<Rightarrow> token list \<Rightarrow> ConditionFunc parsed" where
  "parseAnd rec ts = bind_p (rec ParseUnary ts) (\<lambda>l ts1. rec (AndLoop l) ts1)"

definition andLoop :: "parse_rec \<Rightarrow> ConditionFunc \<Rightarrow> token list \<Rightarrow> ConditionFunc parsed" where
  "andLoop rec l ts =
     (if kind (peek ts) = tkAnd
      then bind_p (rec ParseUnary (tl ts)) (\<lambda>r ts1. rec (AndLoop (\<lambda>ctx. l ctx \<and> r ctx)) ts1)
      else Some (Inr (l, ts)))"

definition parseUnary :: "parse_rec \<Rightarrow> token list \<Rightarrow> ConditionFunc parsed" where
  "parseUnary rec ts =
     (if kind (peek ts) = tkNot
      then bind_p (rec ParseUnary (tl ts)) (\<lambda>f ts1. Some (Inr (\<lambda>ctx. \<not> f ctx, ts1)))
      else rec ParsePrimary ts)"

definition parsePrimary :: "regexp \<Rightarrow> slot_map \<Rightarrow> parse_rec \<Rightarrow> token list \<Rightarrow> ConditionFunc parsed" where
  "parsePrimary regex slotMap rec ts =
     (let t = peek ts in
      if kind t = tkLParen then
        bind_p (rec ParseOr (tl ts)) (\<lambda>f ts1. Some (bind_e (expect tkRParen ts1) (\<lambda>(_, ts2). Inr (f, ts2))))
      else if kind t = tkIdent then Some (parse_ident regex slotMap (val t) (tl ts))
      else Some (Inl (UnexpectedToken t)))"

fun parse_body :: "regexp \<Rightarrow> slot_map \<Rightarrow> parse_rec \<Rightarrow> parse_rec" where
  "parse_body rx sm rec ParseOr ts = parseOr rec ts"
| "parse_body rx sm rec (OrLoop l) ts = orLoop rec l ts"
| "parse_body rx sm rec ParseAnd ts = parseAnd rec ts"
| "parse_body rx sm rec (AndLoop l) ts = andLoop rec l ts"
| "parse_body rx sm rec ParseUnary ts = parseUnary rec ts"
| "parse_body rx sm rec ParsePrimary ts = parsePrimary rx sm rec ts"

primrec parse :: "nat \<Rightarrow> regexp \<Rightarrow> slot_map \<Rightarrow> parse_rec" where
  "parse 0 rx sm = (\<lambda>r ts. None)"
| "parse (Suc n) rx sm = parse_body rx sm (parse n rx sm)"

definition parse_fuel :: "token list \<Rightarrow> nat" where
  "parse_fuel ts = 4 * length ts + 4"

definition CompileCondition :: "regexp \<Rightarrow> slot_map \<Rightarrow> bytes \<Rightarrow> (cond_error + ConditionFunc) option" where
  "CompileCondition regex slotMap expr0 =
     (let expr = TrimSpace expr0 in
      if expr = [] then Some (Inr (\<lambda>_. False))
      else case tokenize expr of
             Inl e \<Rightarrow> Some (Inl e)
           | Inr tokens \<Rightarrow>
               map_option (\<lambda>r. bind_e r (\<lambda>(f, _). Inr f))
                 (bind_p (parse (parse_fuel tokens) regex slotMap ParseOr tokens) (\<lambda>f ts.
                   Some (if kind (peek ts) \<noteq> tkEOF then Inl TrailingTokens else Inr (f, ts)))))"

subsection \<open>The fallback evaluator\<close>

definition OpAnd :: int where "OpAnd = -1"
definition OpOr :: int where "OpOr = -2"

function Fields_from :: "bytes \<Rightarrow> bytes \<Rightarrow> bytes list" where
  \<comment> \<open>the words of the text, the first of them begun already (its bytes reversed)\<close>
  "Fields_from word s =
     (if s = [] then (if word = [] then [] else [rev word])
      else case find (HasPrefix s) white_space of
             Some sp \<Rightarrow> (if word = [] then [] else [rev word]) @ Fields_from [] (drop (length sp) s)
           | None \<Rightarrow> Fields_from (hd s # word) (tl s))"
  by pat_completeness auto
termination
  by (relation "measure (length \<circ> snd)") (auto dest!: find_SomeD white_space_nonempty)

declare Fields_from.simps [simp del]

definition Fields :: "bytes \<Rightarrow> bytes list" where
  \<comment> \<open>\<open>strings.Fields\<close>\<close>
  "Fields s = Fields_from [] s"

definition Trim_parens :: "bytes \<Rightarrow> bytes" where
  \<comment> \<open>\<open>strings.Trim(tok, "()")\<close>\<close>
  "Trim_parens s = (let p = (\<lambda>c. c = 0x28 \<or> c = 0x29) in rev (dropWhile p (rev (dropWhile p s))))"

fun rpn_tokens :: "slot_map \<Rightarrow> bytes list \<Rightarrow> int option \<Rightarrow> int list" where
  "rpn_tokens slotMap [] pendingOp = []"
| "rpn_tokens slotMap (tok # toks) pendingOp =
     (let t = Trim_parens tok in
      if t = bytes_of ''&&'' then rpn_tokens slotMap toks (Some OpAnd)
      else if t = bytes_of ''||'' then rpn_tokens slotMap toks (Some OpOr)
      else case slotMap t of
             None \<Rightarrow> rpn_tokens slotMap toks pendingOp
           | Some i \<Rightarrow> i # (case pendingOp of None \<Rightarrow> [] | Some opr \<Rightarrow> [opr]) @ rpn_tokens slotMap toks None)"

definition parseToRPN :: "slot_map \<Rightarrow> bytes \<Rightarrow> int list" where
  "parseToRPN slotMap cond0 =
     (let cond = TrimSpace cond0 in if cond = [] then [] else rpn_tokens slotMap (Fields cond) None)"

fun rpn_loop :: "int list \<Rightarrow> bool list \<Rightarrow> Context \<Rightarrow> bool" where
  \<comment> \<open>the evaluation stack, the top first\<close>
  "rpn_loop [] results ctx = (if results = [] then False else last results)"
| "rpn_loop (v # vs) results ctx =
     (if v = OpAnd then (case results of r # l # rs \<Rightarrow> rpn_loop vs ((l \<and> r) # rs) ctx | _ \<Rightarrow> False)
      else if v = OpOr then (case results of r # l # rs \<Rightarrow> rpn_loop vs ((l \<or> r) # rs) ctx | _ \<Rightarrow> False)
      else rpn_loop vs ((v \<ge> 0 \<and> length (slot_text v ctx) > 0) # results) ctx)"

definition evaluateRPN :: "int list \<Rightarrow> ConditionFunc" where
  "evaluateRPN stack ctx = (if stack = [] then False else rpn_loop stack [] ctx)"

definition NewComplexLogicGate :: "regexp \<Rightarrow> bytes \<Rightarrow> int \<Rightarrow> int \<Rightarrow> slot_map \<Rightarrow> Instruction" where
  "NewComplexLogicGate regex condition thenID elseID slotMap =
     (let condFn = (case CompileCondition regex slotMap condition of
                      Some (Inr f) \<Rightarrow> f
                    | _ \<Rightarrow> evaluateRPN (parseToRPN slotMap condition))
      in instr ''IF_GATE'' (\<lambda>ctx s. Inr (if condFn ctx then thenID else elseID, ctx, s)))"

end
