(* ===== verification/Rah_Cond_Laws.thy ===== *)
theory Rah_Cond_Laws
  imports Rah_Cond
begin

text \<open>
  Laws of the condition compiler: it always returns, and the text of an expression compiles to the meaning of the expression.
\<close>

subsection \<open>The parser returns\<close>

fun rule_bound :: "rule \<Rightarrow> token list \<Rightarrow> nat" where
  "rule_bound ParseOr ts = 4 * length ts + 4"
| "rule_bound ParseAnd ts = 4 * length ts + 3"
| "rule_bound ParseUnary ts = 4 * length ts + 2"
| "rule_bound _ ts = 4 * length ts + 1"

fun is_loop :: "rule \<Rightarrow> bool" where
  "is_loop (OrLoop _) = True" | "is_loop (AndLoop _) = True" | "is_loop _ = False"

lemma peek_nonempty: "kind (peek ts) \<noteq> tkEOF \<Longrightarrow> ts \<noteq> []"
  by (auto simp: peek_def)

lemma parse_ident_shorter: "parse_ident rx sm name ts = Inr (f, ts') \<Longrightarrow> length ts' \<le> length ts"
  by (auto simp: parse_ident_def parse_predicate_def parse_comparison_def bind_e_def expect_def consume_def Let_def
      split: if_splits sum.splits option.splits prod.splits)

lemma expect_shorter: "expect k ts = Inr (t, ts') \<Longrightarrow> length ts' \<le> length ts"
  by (auto simp: expect_def consume_def split: if_splits)

definition rule_returns :: "rule \<Rightarrow> token list \<Rightarrow> ConditionFunc parsed \<Rightarrow> bool" where
  "rule_returns r ts res \<longleftrightarrow> (case res of None \<Rightarrow> False | Some (Inl _) \<Rightarrow> True
     | Some (Inr (_, ts')) \<Rightarrow> length ts' < length ts \<or> is_loop r \<and> length ts' \<le> length ts)"

lemma returns_bind:
  assumes "rule_returns r1 ts1 m" "length ts1 \<le> length ts" "\<not> is_loop r1"
    and "\<And>f ts2. length ts2 < length ts1 \<Longrightarrow> rule_returns r ts (g f ts2)"
  shows "rule_returns r ts (bind_p m g)"
proof (cases m)
  case None
  then show ?thesis using assms(1) by (simp add: rule_returns_def)
next
  case (Some x)
  show ?thesis
  proof (cases x)
    case (Inl e)
    then show ?thesis using Some by (simp add: rule_returns_def bind_p_def)
  next
    case (Inr y)
    obtain f ts2 where y: "y = (f, ts2)" by fastforce
    then have "length ts2 < length ts1" using assms(1,3) Some Inr by (simp add: rule_returns_def)
    then show ?thesis using assms(4) Some Inr y by (simp add: bind_p_def)
  qed
qed

lemma returns_weaken: "rule_returns r' ts' res \<Longrightarrow> length ts' < length ts \<or> length ts' = length ts \<and> (is_loop r' \<longrightarrow> is_loop r) \<Longrightarrow> rule_returns r ts res"
  by (auto simp: rule_returns_def split: option.splits sum.splits)

lemma parse_returns: "rule_bound r ts \<le> n \<Longrightarrow> rule_returns r ts (parse n rx sm r ts)"
proof (induction n arbitrary: r ts)
  case 0
  then show ?case by (cases r) auto
next
  case (Suc n)
  have L: "kind (peek ts) \<noteq> tkEOF \<Longrightarrow> length (tl ts) < length ts" using peek_nonempty [of ts] by (cases ts) auto
  show ?case
  proof (cases r)
    case ParseOr
    show ?thesis unfolding ParseOr parse.simps parse_body.simps parseOr_def
      by (rule returns_bind [OF Suc.IH]) (use Suc.prems ParseOr in \<open>auto intro!: returns_weaken [OF Suc.IH]\<close>)
  next
    case ParseAnd
    show ?thesis unfolding ParseAnd parse.simps parse_body.simps parseAnd_def
      by (rule returns_bind [OF Suc.IH]) (use Suc.prems ParseAnd in \<open>auto intro!: returns_weaken [OF Suc.IH]\<close>)
  next
    case (OrLoop l)
    show ?thesis unfolding OrLoop parse.simps parse_body.simps orLoop_def
    proof (cases "kind (peek ts) = tkOr")
      case True
      have "rule_returns (OrLoop l) ts (bind_p (parse n rx sm ParseAnd (tl ts)) (\<lambda>ra. parse n rx sm (OrLoop (\<lambda>ctx. l ctx \<or> ra ctx))))"
        by (rule returns_bind [OF Suc.IH]) (use Suc.prems OrLoop L True in \<open>auto intro!: returns_weaken [OF Suc.IH]\<close>)
      then show "rule_returns (OrLoop l) ts (if kind (peek ts) = tkOr
          then bind_p (parse n rx sm ParseAnd (tl ts)) (\<lambda>ra. parse n rx sm (OrLoop (\<lambda>ctx. l ctx \<or> ra ctx))) else Some (Inr (l, ts)))"
        using True by simp
    qed (simp add: rule_returns_def)
  next
    case (AndLoop l)
    show ?thesis unfolding AndLoop parse.simps parse_body.simps andLoop_def
    proof (cases "kind (peek ts) = tkAnd")
      case True
      have "rule_returns (AndLoop l) ts (bind_p (parse n rx sm ParseUnary (tl ts)) (\<lambda>ra. parse n rx sm (AndLoop (\<lambda>ctx. l ctx \<and> ra ctx))))"
        by (rule returns_bind [OF Suc.IH]) (use Suc.prems AndLoop L True in \<open>auto intro!: returns_weaken [OF Suc.IH]\<close>)
      then show "rule_returns (AndLoop l) ts (if kind (peek ts) = tkAnd
          then bind_p (parse n rx sm ParseUnary (tl ts)) (\<lambda>ra. parse n rx sm (AndLoop (\<lambda>ctx. l ctx \<and> ra ctx))) else Some (Inr (l, ts)))"
        using True by simp
    qed (simp add: rule_returns_def)
  next
    case ParseUnary
    show ?thesis
    proof (cases "kind (peek ts) = tkNot")
      case True
      have "rule_returns ParseUnary ts (bind_p (parse n rx sm ParseUnary (tl ts)) (\<lambda>f ts1. Some (Inr (\<lambda>ctx. \<not> f ctx, ts1))))"
        by (rule returns_bind [OF Suc.IH]) (use Suc.prems ParseUnary L True in \<open>auto simp: rule_returns_def\<close>)
      then show ?thesis using True ParseUnary by (simp add: parseUnary_def)
    next
      case False
      have "rule_returns ParseUnary ts (parse n rx sm ParsePrimary ts)"
        by (rule returns_weaken [OF Suc.IH]) (use Suc.prems ParseUnary in auto)
      then show ?thesis using False ParseUnary by (simp add: parseUnary_def)
    qed
  next
    case ParsePrimary
    show ?thesis
    proof (cases "kind (peek ts) = tkLParen")
      case True
      have "rule_returns ParsePrimary ts (bind_p (parse n rx sm ParseOr (tl ts))
          (\<lambda>f ts1. Some (bind_e (expect tkRParen ts1) (\<lambda>(_, ts2). Inr (f, ts2)))))"
        by (rule returns_bind [OF Suc.IH])
          (use Suc.prems ParsePrimary L True in \<open>auto simp: rule_returns_def bind_e_def dest: expect_shorter split: sum.splits\<close>)
      then show ?thesis using True ParsePrimary by (simp add: parsePrimary_def)
    next
      case False
      then show ?thesis using ParsePrimary L
        by (auto simp: parsePrimary_def rule_returns_def Let_def dest!: parse_ident_shorter split: sum.splits)
    qed
  qed
qed

lemma CompileCondition_returns: "\<exists>r. CompileCondition rx sm e = Some r"
proof (cases "tokenize (TrimSpace e)")
  case (Inr ts)
  have "rule_returns ParseOr ts (parse (parse_fuel ts) rx sm ParseOr ts)" by (rule parse_returns) (simp add: parse_fuel_def)
  then obtain x where "parse (parse_fuel ts) rx sm ParseOr ts = Some x"
    by (cases "parse (parse_fuel ts) rx sm ParseOr ts") (simp_all add: rule_returns_def)
  then show ?thesis using Inr by (cases x) (auto simp: CompileCondition_def bind_p_def Let_def)
qed (simp add: CompileCondition_def Let_def)

subsection \<open>Expressions and their text\<close>

datatype pred = Contains_p | StartsWith_p | EndsWith_p | Matches_p

datatype cexpr =
    Truthy bytes
  | CmpStr bytes bool bytes
  | CmpNull bytes bool
  | CmpNum bytes tokenKind int
  | Pred pred bytes bytes
  | Neg cexpr
  | Conj cexpr cexpr
  | Disj cexpr cexpr

fun pred_name :: "pred \<Rightarrow> bytes" where
  "pred_name Contains_p = bytes_of ''contains''"
| "pred_name StartsWith_p = bytes_of ''startsWith''"
| "pred_name EndsWith_p = bytes_of ''endsWith''"
| "pred_name Matches_p = bytes_of ''matches''"

fun pred_holds :: "regexp \<Rightarrow> pred \<Rightarrow> bytes \<Rightarrow> bytes \<Rightarrow> bool" where
  "pred_holds rx Contains_p arg s = Contains s arg"
| "pred_holds rx StartsWith_p arg s = HasPrefix s arg"
| "pred_holds rx EndsWith_p arg s = HasSuffix s arg"
| "pred_holds rx Matches_p arg s = the (rx arg) s"

fun holds :: "regexp \<Rightarrow> slot_map \<Rightarrow> cexpr \<Rightarrow> Context \<Rightarrow> bool" where
  \<comment> \<open>what an expression means\<close>
  "holds rx sm (Truthy x) ctx = truthy sm x ctx"
| "holds rx sm (CmpStr x eq v) ctx = ((resolveStringReader sm x ctx = v) = eq)"
| "holds rx sm (CmpNull x eq) ctx = null_check sm x eq ctx"
| "holds rx sm (CmpNum x opr n) ctx = compare_int opr (resolveIntReader sm x ctx) n"
| "holds rx sm (Pred p x arg) ctx = pred_holds rx p arg (resolveStringReader sm x ctx)"
| "holds rx sm (Neg e) ctx = (\<not> holds rx sm e ctx)"
| "holds rx sm (Conj a b) ctx = (holds rx sm a ctx \<and> holds rx sm b ctx)"
| "holds rx sm (Disj a b) ctx = (holds rx sm a ctx \<or> holds rx sm b ctx)"

abbreviation symb :: "tokenKind \<Rightarrow> string \<Rightarrow> token" where "symb k s \<equiv> Tok k (bytes_of s)"

fun op_token :: "tokenKind \<Rightarrow> token" where
  "op_token tkEq = symb tkEq ''==''" | "op_token tkNe = symb tkNe ''!=''" | "op_token tkLt = symb tkLt ''<''"
| "op_token tkLe = symb tkLe ''<=''" | "op_token tkGt = symb tkGt ''>''" | "op_token k = symb tkGe ''>=''"

definition parens :: "bool \<Rightarrow> token list \<Rightarrow> token list" where
  "parens b ts = (if b then symb tkLParen ''('' # ts @ [symb tkRParen '')''] else ts)"

fun toks :: "nat \<Rightarrow> cexpr \<Rightarrow> token list" where
  \<comment> \<open>the tokens of an expression as an operand of level 0 (of nothing), 1 (of a disjunction) or 2 (of a conjunction or negation)\<close>
  "toks l (Truthy x) = [Tok tkIdent x]"
| "toks l (CmpStr x eq v) = [Tok tkIdent x, if eq then op_token tkEq else op_token tkNe, Tok tkStr v]"
| "toks l (CmpNull x eq) = [Tok tkIdent x, if eq then op_token tkEq else op_token tkNe, Tok tkIdent (bytes_of ''null'')]"
| "toks l (CmpNum x opr n) = [Tok tkIdent x, op_token opr, Tok tkNum (Itoa n)]"
| "toks l (Pred p x arg) =
     [Tok tkIdent (pred_name p), symb tkLParen ''('', Tok tkIdent x, symb tkComma '','', Tok tkStr arg, symb tkRParen '')'']"
| "toks l (Neg e) = symb tkNot ''!'' # toks 2 e"
| "toks l (Conj a b) = parens (l > 1) (toks 1 a @ symb tkAnd ''&&'' # toks 2 b)"
| "toks l (Disj a b) = parens (l > 0) (toks 0 a @ symb tkOr ''||'' # toks 1 b)"

definition plain_ident :: "bytes \<Rightarrow> bool" where
  \<comment> \<open>an ASCII identifier, dots allowed after the first character\<close>
  "plain_ident x \<longleftrightarrow> x \<noteq> [] \<and> ident_start (hd x) \<and> list_all (\<lambda>c. ident_char c \<and> c < 0x80) x"

fun wf_cond :: "regexp \<Rightarrow> cexpr \<Rightarrow> bool" where
  "wf_cond rx (Truthy x) = (plain_ident x \<and> \<not> isStringPredicate x)"
| "wf_cond rx (CmpStr x eq v) = (plain_ident x \<and> \<not> isStringPredicate x \<and> 0x22 \<notin> set v)"
| "wf_cond rx (CmpNull x eq) = (plain_ident x \<and> \<not> isStringPredicate x)"
| "wf_cond rx (CmpNum x opr n) = (plain_ident x \<and> \<not> isStringPredicate x \<and> opr \<in> {tkEq, tkNe, tkLt, tkLe, tkGt, tkGe} \<and> in_i64 n)"
| "wf_cond rx (Pred p x arg) = (plain_ident x \<and> 0x22 \<notin> set arg \<and> (p = Matches_p \<longrightarrow> rx arg \<noteq> None))"
| "wf_cond rx (Neg e) = wf_cond rx e"
| "wf_cond rx (Conj a b) = (wf_cond rx a \<and> wf_cond rx b)"
| "wf_cond rx (Disj a b) = (wf_cond rx a \<and> wf_cond rx b)"

subsection \<open>Parsing the tokens of an expression\<close>

lemma bind_p_mono:
  assumes "bind_p m g = Some x" "\<And>y. m = Some y \<Longrightarrow> m' = Some y" "\<And>f ts y. g f ts = Some y \<Longrightarrow> g' f ts = Some y"
  shows "bind_p m' g' = Some x"
  using assms by (auto simp: bind_p_def split: option.splits sum.splits)

definition le_rec :: "parse_rec \<Rightarrow> parse_rec \<Rightarrow> bool" where
  "le_rec p p' \<longleftrightarrow> (\<forall>r ts x. p r ts = Some x \<longrightarrow> p' r ts = Some x)"

lemma rule_mono:
  assumes "le_rec p p'"
  shows "parseOr p ts = Some x \<Longrightarrow> parseOr p' ts = Some x" "orLoop p l ts = Some x \<Longrightarrow> orLoop p' l ts = Some x"
    "parseAnd p ts = Some x \<Longrightarrow> parseAnd p' ts = Some x" "andLoop p l ts = Some x \<Longrightarrow> andLoop p' l ts = Some x"
    "parseUnary p ts = Some x \<Longrightarrow> parseUnary p' ts = Some x" "parsePrimary rx sm p ts = Some x \<Longrightarrow> parsePrimary rx sm p' ts = Some x"
  using assms unfolding le_rec_def parseOr_def orLoop_def parseAnd_def andLoop_def parseUnary_def parsePrimary_def Let_def
  by (auto elim!: bind_p_mono split: if_splits)

lemma parse_mono: "parse n rx sm r ts = Some x \<Longrightarrow> parse (Suc n) rx sm r ts = Some x"
proof -
  have body: "le_rec (parse_body rx sm p) (parse_body rx sm p')" if "le_rec p p'" for p p'
    unfolding le_rec_def
  proof (intro allI impI)
    fix r ts x assume "parse_body rx sm p r ts = Some x"
    then show "parse_body rx sm p' r ts = Some x" using rule_mono [OF that] by (cases r) simp_all
  qed
  have "le_rec (parse n rx sm) (parse (Suc n) rx sm)"
    by (induction n) (use body in \<open>simp_all add: le_rec_def\<close>)
  then show "parse n rx sm r ts = Some x \<Longrightarrow> parse (Suc n) rx sm r ts = Some x" unfolding le_rec_def by blast
qed

lemma parse_mono_le: "n \<le> m \<Longrightarrow> parse n rx sm r ts = Some x \<Longrightarrow> parse m rx sm r ts = Some x"
  by (induction m rule: dec_induct) (auto intro: parse_mono simp del: parse.simps)

definition parses :: "regexp \<Rightarrow> slot_map \<Rightarrow> rule \<Rightarrow> token list \<Rightarrow> ConditionFunc \<Rightarrow> token list \<Rightarrow> bool" where
  \<comment> \<open>with enough fuel\<close>
  "parses rx sm r ts f rest \<longleftrightarrow> (\<exists>n. parse n rx sm r ts = Some (Inr (f, rest)))"

lemma parses_two:
  assumes "parses rx sm r1 ts1 f1 rest1" "parses rx sm r2 ts2 f2 rest2"
  obtains n where "parse n rx sm r1 ts1 = Some (Inr (f1, rest1))" "parse n rx sm r2 ts2 = Some (Inr (f2, rest2))"
proof -
  obtain n1 n2 where "parse n1 rx sm r1 ts1 = Some (Inr (f1, rest1))" "parse n2 rx sm r2 ts2 = Some (Inr (f2, rest2))"
    using assms unfolding parses_def by blast
  then show thesis using that [of "max n1 n2"] parse_mono_le [of n1 "max n1 n2"] parse_mono_le [of n2 "max n1 n2"] by simp
qed

lemma parses_Suc: "parse (Suc n) rx sm r ts = Some (Inr (f, rest)) \<Longrightarrow> parses rx sm r ts f rest"
  unfolding parses_def by blast

lemma peek_Cons [simp]: "peek (t # ts) = t"
  by (simp add: peek_def)

lemma parses_or: "parses rx sm ParseAnd ts l ts1 \<Longrightarrow> parses rx sm (OrLoop l) ts1 f rest \<Longrightarrow> parses rx sm ParseOr ts f rest"
  by (erule (1) parses_two, rule_tac n = n in parses_Suc) (simp add: parseOr_def bind_p_def)

lemma parses_or_stop: "kind (peek ts) \<noteq> tkOr \<Longrightarrow> parses rx sm (OrLoop l) ts l ts"
  by (rule parses_Suc [of 0]) (simp add: orLoop_def)

lemma parses_or_step:
  "parses rx sm ParseAnd ts r ts1 \<Longrightarrow> parses rx sm (OrLoop (\<lambda>ctx. l ctx \<or> r ctx)) ts1 f rest \<Longrightarrow>
   parses rx sm (OrLoop l) (Tok tkOr v # ts) f rest"
  by (erule (1) parses_two, rule_tac n = n in parses_Suc) (simp add: orLoop_def bind_p_def)

lemma parses_and: "parses rx sm ParseUnary ts l ts1 \<Longrightarrow> parses rx sm (AndLoop l) ts1 f rest \<Longrightarrow> parses rx sm ParseAnd ts f rest"
  by (erule (1) parses_two, rule_tac n = n in parses_Suc) (simp add: parseAnd_def bind_p_def)

lemma parses_and_stop: "kind (peek ts) \<noteq> tkAnd \<Longrightarrow> parses rx sm (AndLoop l) ts l ts"
  by (rule parses_Suc [of 0]) (simp add: andLoop_def)

lemma parses_and_step:
  "parses rx sm ParseUnary ts r ts1 \<Longrightarrow> parses rx sm (AndLoop (\<lambda>ctx. l ctx \<and> r ctx)) ts1 f rest \<Longrightarrow>
   parses rx sm (AndLoop l) (Tok tkAnd v # ts) f rest"
  by (erule (1) parses_two, rule_tac n = n in parses_Suc) (simp add: andLoop_def bind_p_def)

lemma parses_not: "parses rx sm ParseUnary ts f rest \<Longrightarrow> parses rx sm ParseUnary (Tok tkNot v # ts) (\<lambda>ctx. \<not> f ctx) rest"
  unfolding parses_def [of rx sm ParseUnary ts] by (elim exE, rule_tac n = n in parses_Suc) (simp add: parseUnary_def bind_p_def)

lemma parses_paren:
  "parses rx sm ParseOr ts f (Tok tkRParen v' # rest) \<Longrightarrow> parses rx sm ParseUnary (Tok tkLParen v # ts) f rest"
  unfolding parses_def [of rx sm ParseOr] 
  by (elim exE, rule_tac n = "Suc n" in parses_Suc)
    (simp add: parseUnary_def parsePrimary_def bind_p_def bind_e_def expect_def consume_def)

lemma parses_ident:
  "parse_ident rx sm x ts = Inr (f, rest) \<Longrightarrow> parses rx sm ParseUnary (Tok tkIdent x # ts) f rest"
  by (rule parses_Suc [of 1]) (simp add: parseUnary_def parsePrimary_def)

definition ends :: "nat \<Rightarrow> token list \<Rightarrow> bool" where
  \<comment> \<open>what may follow an operand of the level\<close>
  "ends l ts \<longleftrightarrow> kind (peek ts) \<in> {tkEOF, tkRParen} \<union> (if l > 0 then {tkOr} else {}) \<union> (if l > 1 then {tkAnd} else {})"

lemma op_token_kind: "opr \<in> {tkEq, tkNe, tkLt, tkLe, tkGt, tkGe} \<Longrightarrow> kind (op_token opr) = opr"
  by auto

lemma pred_name_simps: "isStringPredicate (pred_name p)" "wf_cond rx (Pred p x arg) \<Longrightarrow> string_predicate rx (pred_name p) arg = Some (pred_holds rx p arg)"
  by (cases p; fastforce simp: isStringPredicate_def string_predicate_def bytes_of_def)+

lemma parse_atoms:
  "wf_cond rx (Truthy x) \<Longrightarrow> ends 2 rest \<Longrightarrow> parse_ident rx sm x rest = Inr (holds rx sm (Truthy x), rest)"
  "wf_cond rx (CmpStr x eq v) \<Longrightarrow>
    parse_ident rx sm x ((if eq then op_token tkEq else op_token tkNe) # Tok tkStr v # rest) = Inr (holds rx sm (CmpStr x eq v), rest)"
  "wf_cond rx (CmpNull x eq) \<Longrightarrow>
    parse_ident rx sm x ((if eq then op_token tkEq else op_token tkNe) # Tok tkIdent (bytes_of ''null'') # rest) =
      Inr (holds rx sm (CmpNull x eq), rest)"
  "wf_cond rx (CmpNum x opr n) \<Longrightarrow>
    parse_ident rx sm x (op_token opr # Tok tkNum (Itoa n) # rest) = Inr (holds rx sm (CmpNum x opr n), rest)"
  "wf_cond rx (Pred p x arg) \<Longrightarrow>
    parse_ident rx sm (pred_name p) (symb tkLParen ''('' # Tok tkIdent x # symb tkComma '','' # Tok tkStr arg # symb tkRParen '')'' # rest) =
      Inr (holds rx sm (Pred p x arg), rest)"
proof -
  show "wf_cond rx (CmpNum x opr n) \<Longrightarrow>
    parse_ident rx sm x (op_token opr # Tok tkNum (Itoa n) # rest) = Inr (holds rx sm (CmpNum x opr n), rest)"
    using ParseInt_Itoa [of n]
    by (auto simp: parse_ident_def parse_comparison_def fun_eq_iff)
  show "wf_cond rx (Pred p x arg) \<Longrightarrow>
    parse_ident rx sm (pred_name p) (symb tkLParen ''('' # Tok tkIdent x # symb tkComma '','' # Tok tkStr arg # symb tkRParen '')'' # rest) =
      Inr (holds rx sm (Pred p x arg), rest)"
    using pred_name_simps(1) [of p] pred_name_simps(2) [of rx p x arg]
    by (simp add: parse_ident_def parse_predicate_def expect_def consume_def bind_e_def fun_eq_iff)
qed (auto simp: parse_ident_def parse_comparison_def ends_def fun_eq_iff split: if_splits)

lemma parses_expr:
  assumes "wf_cond rx e"
  shows "(\<forall>rest. ends 2 rest \<longrightarrow> parses rx sm ParseUnary (toks 2 e @ rest) (holds rx sm e) rest) \<and>
    (\<forall>rest f rest'. ends 2 rest \<longrightarrow> parses rx sm (AndLoop (holds rx sm e)) rest f rest' \<longrightarrow>
       parses rx sm ParseAnd (toks 1 e @ rest) f rest') \<and>
    (\<forall>rest f rest'. ends 1 rest \<longrightarrow> parses rx sm (OrLoop (holds rx sm e)) rest f rest' \<longrightarrow>
       parses rx sm ParseOr (toks 0 e @ rest) f rest')" (is "?A e \<and> ?B e \<and> ?C e")
proof -
  have ends12: "ends 1 rest \<Longrightarrow> ends 2 rest" for rest by (auto simp: ends_def)
  have AB: "?B e" if "?A e" "toks 1 e = toks 2 e" for e
    using that parses_and by metis
  have BC: "?C e" if "?B e" "toks 0 e = toks 1 e" for e
  proof (intro allI impI)
    fix rest f rest' assume r: "ends 1 rest" "parses rx sm (OrLoop (holds rx sm e)) rest f rest'"
    have "kind (peek rest) \<noteq> tkAnd" using r(1) by (auto simp: ends_def)
    then have "parses rx sm ParseAnd (toks 1 e @ rest) (holds rx sm e) rest"
      using that(1) parses_and_stop ends12 [OF r(1)] by blast
    then show "parses rx sm ParseOr (toks 0 e @ rest) f rest'" using parses_or r(2) that(2) by metis
  qed
  have CA: "?A e" if "?C e" "toks 2 e = parens True (toks 0 e)" for e
  proof (intro allI impI)
    fix rest assume "ends 2 rest"
    have "parses rx sm ParseOr (toks 0 e @ symb tkRParen '')'' # rest) (holds rx sm e) (symb tkRParen '')'' # rest)"
      using that(1) parses_or_stop [of "symb tkRParen '')'' # rest"] by (simp add: ends_def)
    from parses_paren [OF this] show "parses rx sm ParseUnary (toks 2 e @ rest) (holds rx sm e) rest"
      using that(2) by (simp add: parens_def)
  qed
  show ?thesis using assms
  proof (induction e)
    case (Conj a b)
    have B: "?B (Conj a b)"
    proof (intro allI impI)
      fix rest f rest' assume r: "ends 2 rest" "parses rx sm (AndLoop (holds rx sm (Conj a b))) rest f rest'"
      have "parses rx sm ParseUnary (toks 2 b @ rest) (holds rx sm b) rest" using Conj r(1) by simp
      then have "parses rx sm (AndLoop (holds rx sm a)) (symb tkAnd ''&&'' # toks 2 b @ rest) f rest'"
        by (rule parses_and_step) (use r(2) in \<open>simp add: holds.simps(7) [abs_def]\<close>)
      then show "parses rx sm ParseAnd (toks 1 (Conj a b) @ rest) f rest'" using Conj by (simp add: parens_def ends_def)
    qed
    have C: "?C (Conj a b)" by (rule BC [OF B]) (simp add: parens_def)
    have "?A (Conj a b)" by (rule CA [OF C]) (simp add: parens_def)
    then show ?case using B C by blast
  next
    case (Disj a b)
    have C: "?C (Disj a b)"
    proof (intro allI impI)
      fix rest f rest' assume r: "ends 1 rest" "parses rx sm (OrLoop (holds rx sm (Disj a b))) rest f rest'"
      have "kind (peek rest) \<noteq> tkAnd" using r(1) by (auto simp: ends_def)
      then have "parses rx sm ParseAnd (toks 1 b @ rest) (holds rx sm b) rest"
        using Disj parses_and_stop ends12 [OF r(1)] by simp
      then have "parses rx sm (OrLoop (holds rx sm a)) (symb tkOr ''||'' # toks 1 b @ rest) f rest'"
        by (rule parses_or_step) (use r(2) in \<open>simp add: holds.simps(8) [abs_def]\<close>)
      then show "parses rx sm ParseOr (toks 0 (Disj a b) @ rest) f rest'" using Disj by (simp add: parens_def ends_def)
    qed
    have A: "?A (Disj a b)" by (rule CA [OF C]) (simp add: parens_def)
    have "?B (Disj a b)" by (rule AB [OF A]) (simp add: parens_def)
    then show ?case using A C by blast
  next
    case (Neg e)
    have A: "?A (Neg e)" using Neg parses_not by (simp add: holds.simps(6) [abs_def])
    have B: "?B (Neg e)" by (rule AB [OF A]) simp
    have "?C (Neg e)" by (rule BC [OF B]) simp
    then show ?case using A B by blast
  next
    case (Truthy x)
    have A: "?A (Truthy x)" using Truthy by (auto simp del: holds.simps wf_cond.simps op_token.simps split del: if_split intro!: parses_ident parse_atoms(1))
    have B: "?B (Truthy x)" by (rule AB [OF A]) simp
    have "?C (Truthy x)" by (rule BC [OF B]) simp
    then show ?case using A B by blast
  next
    case (CmpStr x eq v)
    have A: "?A (CmpStr x eq v)" using CmpStr by (auto simp del: holds.simps wf_cond.simps op_token.simps split del: if_split intro!: parses_ident parse_atoms(2))
    have B: "?B (CmpStr x eq v)" by (rule AB [OF A]) simp
    have "?C (CmpStr x eq v)" by (rule BC [OF B]) simp
    then show ?case using A B by blast
  next
    case (CmpNull x eq)
    have A: "?A (CmpNull x eq)" using CmpNull by (auto simp del: holds.simps wf_cond.simps op_token.simps split del: if_split intro!: parses_ident parse_atoms(3))
    have B: "?B (CmpNull x eq)" by (rule AB [OF A]) simp
    have "?C (CmpNull x eq)" by (rule BC [OF B]) simp
    then show ?case using A B by blast
  next
    case (CmpNum x opr n)
    have A: "?A (CmpNum x opr n)" using CmpNum by (auto simp del: holds.simps wf_cond.simps op_token.simps split del: if_split intro!: parses_ident parse_atoms(4))
    have B: "?B (CmpNum x opr n)" by (rule AB [OF A]) simp
    have "?C (CmpNum x opr n)" by (rule BC [OF B]) simp
    then show ?case using A B by blast
  next
    case (Pred p x arg)
    have A: "?A (Pred p x arg)" using Pred by (auto simp del: holds.simps wf_cond.simps op_token.simps split del: if_split intro!: parses_ident parse_atoms(5))
    have B: "?B (Pred p x arg)" by (rule AB [OF A]) simp
    have "?C (Pred p x arg)" by (rule BC [OF B]) simp
    then show ?case using A B by blast
  qed
qed

subsection \<open>Lexing the text of an expression\<close>

definition tok_text :: "token \<Rightarrow> bytes" where
  "tok_text t = (if kind t = tkStr then 0x22 # val t @ [0x22] else val t)"

fun text_of :: "token list \<Rightarrow> bytes" where
  \<comment> \<open>the tokens separated by spaces\<close>
  "text_of [] = []"
| "text_of [t] = tok_text t"
| "text_of (t # u # ts) = tok_text t @ 0x20 # text_of (u # ts)"

definition tok_ok :: "token \<Rightarrow> bool" where
  "tok_ok t \<longleftrightarrow> (case kind t of
     tkIdent \<Rightarrow> plain_ident (val t) | tkStr \<Rightarrow> 0x22 \<notin> set (val t) | tkNum \<Rightarrow> \<exists>n. val t = Itoa n | tkEOF \<Rightarrow> False
   | tkAnd \<Rightarrow> t = symb tkAnd ''&&'' | tkOr \<Rightarrow> t = symb tkOr ''||'' | tkNot \<Rightarrow> t = symb tkNot ''!''
   | tkLParen \<Rightarrow> t = symb tkLParen ''('' | tkRParen \<Rightarrow> t = symb tkRParen '')'' | tkComma \<Rightarrow> t = symb tkComma '',''
   | k \<Rightarrow> t = op_token k)"

lemma ident_start_other:
  "ident_start c \<Longrightarrow> \<not> space_char c \<and> \<not> is_digit c \<and>
     c \<notin> {0x26, 0x7C, 0x21, 0x3D, 0x3C, 0x3E, 0x28, 0x29, 0x2C, 0x22, 0x27, 0x2D}"
proof -
  assume c: "ident_start c"
  then have "\<not> is_digit c" by (auto simp: ident_start_def IsLetter_def is_digit_def word_le_nat_alt)
  with c show ?thesis by (auto simp: ident_start_def IsLetter_def space_char_def)
qed

lemma digit_other:
  "is_digit c \<Longrightarrow> \<not> space_char c \<and> c \<notin> {0x26, 0x7C, 0x21, 0x3D, 0x3C, 0x3E, 0x28, 0x29, 0x2C, 0x22, 0x27}"
  by (auto simp: is_digit_def space_char_def)

lemma takeWhile_all: "list_all P xs \<Longrightarrow> rest = [] \<or> \<not> P (hd rest) \<Longrightarrow> takeWhile P (xs @ rest) = xs \<and> dropWhile P (xs @ rest) = rest"
  by (induction xs) (cases rest; auto)+

lemma not_ident_space: "\<not> ident_char 0x20" "\<not> is_digit 0x20"
  by (simp_all add: ident_char_def IsLetter_def is_digit_def)

lemma next_token_num:
  assumes "rest = [] \<or> hd rest = 0x20"
  obtains c cs where "Itoa n @ rest = c # cs" "\<not> space_char c" "next_token c cs = Inr (Tok tkNum (Itoa n), rest)"
proof -
  have r: "rest = [] \<or> \<not> is_digit (hd rest)" using assms not_ident_space by auto
  obtain d ds where d: "dec_digits (nat \<bar>n\<bar>) = d # ds" "is_digit d" "list_all is_digit ds"
    using dec_digits_law [of "nat \<bar>n\<bar>"] by (cases "dec_digits (nat \<bar>n\<bar>)") auto
  show thesis
  proof (cases "n < 0")
    case True
    then have "Itoa n = 0x2D # d # ds" using d(1) by (simp add: Itoa_def)
    then show thesis using that [of "0x2D" "d # ds @ rest"] d takeWhile_all [of is_digit "d # ds" rest] r
      by (simp add: next_token_def two_def space_char_def)
  next
    case False
    then have "Itoa n = d # ds" using d(1) by (simp add: Itoa_def)
    then show thesis using that [of d "ds @ rest"] d takeWhile_all [of is_digit ds rest] r digit_other [OF d(2)]
      by (simp add: next_token_def two_def)
  qed
qed

lemma sym_bytes: "bytes_of ''&&'' = [0x26, 0x26]" "bytes_of ''||'' = [0x7C, 0x7C]" "bytes_of ''!'' = [0x21]" "bytes_of ''('' = [0x28]"
  "bytes_of '')'' = [0x29]" "bytes_of '','' = [0x2C]" "bytes_of ''=='' = [0x3D, 0x3D]" "bytes_of ''!='' = [0x21, 0x3D]"
  "bytes_of ''<'' = [0x3C]" "bytes_of ''<='' = [0x3C, 0x3D]" "bytes_of ''>'' = [0x3E]" "bytes_of ''>='' = [0x3E, 0x3D]"
  by (simp_all add: bytes_of_def)

lemma next_token_sym:
  assumes "rest = [] \<or> hd rest = 0x20" "kind t \<notin> {tkIdent, tkStr, tkNum}" "tok_ok t"
  shows "\<exists>c cs. val t @ rest = c # cs \<and> \<not> space_char c \<and> next_token c cs = Inr (t, rest)"
proof -
  have s: "\<not> (rest \<noteq> [] \<and> hd rest = 0x3D)" using assms(1) by auto
  obtain k v where "t = Tok k v" by (cases t)
  then show ?thesis using assms(2,3) s
    by (cases k) (simp_all add: tok_ok_def sym_bytes next_token_def two_def space_char_def)
qed

lemma next_token_text:
  assumes "tok_ok t" "rest = [] \<or> hd rest = 0x20"
  shows "\<exists>c cs. tok_text t @ rest = c # cs \<and> \<not> space_char c \<and> next_token c cs = Inr (t, rest)"
proof -
  consider (ident) "kind t = tkIdent" | (str) "kind t = tkStr" | (num) "kind t = tkNum" | (sym) "kind t \<notin> {tkIdent, tkStr, tkNum}"
    by blast
  then show ?thesis
  proof cases
    case ident
    then obtain x xs where x: "t = Tok tkIdent (x # xs)" "ident_start x" "list_all ident_char xs"
      using assms(1) by (cases t; cases "val t") (auto simp: tok_ok_def plain_ident_def list_all_iff)
    have "rest = [] \<or> \<not> ident_char (hd rest)" using assms(2) not_ident_space by auto
    then show ?thesis using x takeWhile_all [of ident_char xs rest] ident_start_other [OF x(2)]
      by (simp add: tok_text_def next_token_def two_def)
  next
    case str
    then obtain v where v: "t = Tok tkStr v" "0x22 \<notin> set v" using assms(1) by (cases t) (auto simp: tok_ok_def)
    have "takeWhile (\<lambda>x. x \<noteq> 0x22) (v @ 0x22 # rest) = v" using v(2) by (induction v) auto
    then show ?thesis using v by (simp add: tok_text_def next_token_def two_def space_char_def)
  next
    case num
    then obtain n where "t = Tok tkNum (Itoa n)" using assms(1) by (cases t) (auto simp: tok_ok_def)
    then show ?thesis using next_token_num [OF assms(2), of n] by (simp add: tok_text_def) blast
  next
    case sym
    then show ?thesis using next_token_sym [OF assms(2) _ assms(1)] by (simp add: tok_text_def)
  qed
qed

lemma tokenize_text: "\<forall>t \<in> set ts. tok_ok t \<Longrightarrow> tokenize (text_of ts) = Inr (ts @ [Tok tkEOF []])"
proof (induction ts rule: text_of.induct)
  case (2 t)
  obtain c cs where "tok_text t = c # cs" "\<not> space_char c" "next_token c cs = Inr (t, [])"
    using next_token_text [of t "[]"] 2 by auto
  then show ?case by (simp add: tokenize.simps(2))
next
  case (3 t u ts)
  obtain c cs where "tok_text t @ 0x20 # text_of (u # ts) = c # cs" "\<not> space_char c" "next_token c cs = Inr (t, 0x20 # text_of (u # ts))"
    using next_token_text [of t "0x20 # text_of (u # ts)"] "3.prems" by auto
  moreover have "tokenize (0x20 # text_of (u # ts)) = tokenize (text_of (u # ts))"
    by (simp add: tokenize.simps(2) space_char_def)
  ultimately show ?case using 3 by (simp add: tokenize.simps(2))
qed simp

definition solid :: "u8 \<Rightarrow> bool" where
  \<comment> \<open>an ASCII character that is not a space\<close>
  "solid c \<longleftrightarrow> c < 0x80 \<and> c \<notin> {0x09, 0x0A, 0x0B, 0x0C, 0x0D, 0x20}"

lemma white_space_not_solid: "sp \<in> set white_space \<Longrightarrow> \<not> solid (hd sp) \<and> \<not> solid (last sp)"
  unfolding white_space_def solid_def by (auto simp: word_less_nat_alt)

lemma TrimSpace_solid:
  assumes "s \<noteq> []" "solid (hd s)" "solid (last s)"
  shows "TrimSpace s = s"
proof -
  have "find (HasPrefix s) white_space = None"
  proof (rule ccontr)
    assume "\<not> ?thesis"
    then obtain sp where sp: "sp \<in> set white_space" "HasPrefix s sp" using find_SomeD by fastforce
    then have "hd s = hd sp" using white_space_nonempty [of sp] by (auto simp: HasPrefix_iff prefix_def)
    then show False using white_space_not_solid [OF sp(1)] assms(2) by simp
  qed
  moreover have "find (HasSuffix s) white_space = None"
  proof (rule ccontr)
    assume "\<not> ?thesis"
    then obtain sp where sp: "sp \<in> set white_space" "HasSuffix s sp" using find_SomeD by fastforce
    then have "last s = last sp" using white_space_nonempty [of sp] by (auto simp: HasSuffix_iff suffix_def)
    then show False using white_space_not_solid [OF sp(1)] assms(3) by simp
  qed
  ultimately show ?thesis by (simp add: TrimSpace_def TrimLeft_space.simps [of s] TrimRight_space.simps [of s])
qed

lemma digit_solid: "is_digit c \<Longrightarrow> solid c"
  by (auto simp: is_digit_def solid_def word_le_nat_alt word_less_nat_alt)

lemma ident_solid: "ident_char c \<Longrightarrow> c < 0x80 \<Longrightarrow> solid c"
  by (auto simp: ident_char_def IsLetter_def is_digit_def solid_def)

lemma Itoa_solid: "Itoa n \<noteq> [] \<and> solid (hd (Itoa n)) \<and> solid (last (Itoa n))"
proof -
  have d: "dec_digits k \<noteq> [] \<and> solid (hd (dec_digits k)) \<and> solid (last (dec_digits k))" for k
    using dec_digits_law [of k] digit_solid by (auto simp: list_all_iff)
  then show ?thesis by (auto simp: Itoa_def) (simp add: solid_def)
qed

lemma tok_text_solid:
  assumes "tok_ok t" shows "tok_text t \<noteq> [] \<and> solid (hd (tok_text t)) \<and> solid (last (tok_text t))"
proof -
  obtain k v where t: "t = Tok k v" by (cases t)
  have i: "solid (hd v) \<and> solid (last v)" if "plain_ident v"
    using that ident_solid by (auto simp: plain_ident_def list_all_iff)
  show ?thesis
  proof (cases "k = tkIdent \<or> k = tkNum")
    case True
    then consider "k = tkIdent" "plain_ident v" | n where "k = tkNum" "v = Itoa n" using assms t by (auto simp: tok_ok_def)
    then show ?thesis by cases (use t i Itoa_solid in \<open>auto simp: tok_text_def plain_ident_def\<close>)
  next
    case False
    then show ?thesis using assms t
      by (cases k) (simp_all add: tok_ok_def tok_text_def sym_bytes solid_def)
  qed
qed

lemma text_of_solid: "ts \<noteq> [] \<Longrightarrow> \<forall>t \<in> set ts. tok_ok t \<Longrightarrow> text_of ts \<noteq> [] \<and> solid (hd (text_of ts)) \<and> solid (last (text_of ts))"
  by (induction ts rule: text_of.induct) (use tok_text_solid in auto)

lemma toks_ok: "wf_cond rx e \<Longrightarrow> \<forall>t \<in> set (toks l e). tok_ok t"
proof (induction e arbitrary: l)
  case (Pred p x arg)
  have "plain_ident (pred_name p)" 
    by (cases p) (simp_all add: plain_ident_def bytes_of_def ident_start_def ident_char_def IsLetter_def)
  then show ?case using Pred by (auto simp: tok_ok_def)
next
  case (CmpNum x opr n)
  then show ?case by (auto simp: tok_ok_def)
next
  case (CmpNull x eq)
  have "plain_ident (bytes_of ''null'')"
    by (simp add: plain_ident_def bytes_of_def ident_start_def ident_char_def IsLetter_def)
  then show ?case using CmpNull by (auto simp: tok_ok_def)
qed (auto simp: tok_ok_def parens_def)

lemma toks_nonempty: "toks l e \<noteq> []"
  by (cases e) (auto simp: parens_def)

lemma CompileCondition_text:
  assumes "wf_cond rx e"
  shows "CompileCondition rx sm (text_of (toks 0 e)) = Some (Inr (holds rx sm e))"
proof -
  let ?ts = "toks 0 e @ [Tok tkEOF []]"
  have ok: "\<forall>t \<in> set (toks 0 e). tok_ok t" using toks_ok [OF assms] by blast
  then have trim: "TrimSpace (text_of (toks 0 e)) = text_of (toks 0 e)" "text_of (toks 0 e) \<noteq> []"
    using TrimSpace_solid text_of_solid [OF toks_nonempty] by blast+
  have "parses rx sm ParseOr ?ts (holds rx sm e) [Tok tkEOF []]"
    using parses_expr [OF assms] parses_or_stop [of "[Tok tkEOF []]" rx sm "holds rx sm e"] by (simp add: ends_def)
  then obtain n where n: "parse n rx sm ParseOr ?ts = Some (Inr (holds rx sm e, [Tok tkEOF []]))" unfolding parses_def by blast
  obtain x where x: "parse (parse_fuel ?ts) rx sm ParseOr ?ts = Some x"
    using parse_returns [of ParseOr ?ts "parse_fuel ?ts" rx sm]
    by (cases "parse (parse_fuel ?ts) rx sm ParseOr ?ts") (auto simp: rule_returns_def parse_fuel_def)
  have "x = Inr (holds rx sm e, [Tok tkEOF []])"
    using n x parse_mono_le [of n "max n (parse_fuel ?ts)"] parse_mono_le [of "parse_fuel ?ts" "max n (parse_fuel ?ts)"]
    by (metis max.cobounded1 max.cobounded2 option.inject)
  then show ?thesis using x trim tokenize_text [OF ok] by (simp add: CompileCondition_def bind_p_def bind_e_def)
qed

text \<open>C4. Conditions mean what their notation says: the text of an expression, written with parentheses only where a disjunction
  stands under a conjunction or negation, or a conjunction under a negation, compiles without error to a test that gives the
  value of the expression in every context. So negation binds tighter than conjunction and conjunction tighter than disjunction.\<close>

theorem CompileCondition_correct:
  assumes "wf_cond rx e"
  shows "CompileCondition rx sm (text_of (toks 0 e)) = Some (Inr (holds rx sm e))"
  by (rule CompileCondition_text [OF assms])

theorem CompileCondition_correct_witness:
  "CompileCondition (\<lambda>_. None) [bytes_of ''b'' \<mapsto> 3] (bytes_of ''! a || status >= 500 && ( b == \"x\" || c )'') =
     Some (Inr (holds (\<lambda>_. None) [bytes_of ''b'' \<mapsto> 3]
       (Disj (Neg (Truthy (bytes_of ''a''))) (Conj (CmpNum (bytes_of ''status'') tkGe 500)
         (Disj (CmpStr (bytes_of ''b'') True (bytes_of ''x'')) (Truthy (bytes_of ''c'')))))))"
proof -
  let ?e = "Disj (Neg (Truthy (bytes_of ''a''))) (Conj (CmpNum (bytes_of ''status'') tkGe 500)
         (Disj (CmpStr (bytes_of ''b'') True (bytes_of ''x'')) (Truthy (bytes_of ''c''))))"
  have "text_of (toks 0 ?e) = bytes_of ''! a || status >= 500 && ( b == \"x\" || c )''" by code_simp
  moreover have "wf_cond (\<lambda>_. None) ?e" by code_simp
  ultimately show ?thesis using CompileCondition_correct [of "\<lambda>_. None" ?e] by simp
qed

text \<open>A comparison with null does not know the \<open>slot.\<close> prefix that every other form of condition strips: for a variable
  named with it, \<open>== null\<close> is true and \<open>!= null\<close> is false whatever the variable holds.\<close>

theorem null_check_misses_prefixed_slot:
  assumes "plain_ident x" "sm (bytes_of ''slot.'' @ x) = None"
  shows "CompileCondition rx sm (text_of (toks 0 (CmpNull (bytes_of ''slot.'' @ x) eq))) = Some (Inr (\<lambda>ctx. eq))"
proof -
  have "plain_ident (bytes_of ''slot.'' @ x) \<and> \<not> isStringPredicate (bytes_of ''slot.'' @ x)"
    using assms(1) by (auto simp: plain_ident_def isStringPredicate_def bytes_of_def ident_start_def ident_char_def IsLetter_def)
  then have "CompileCondition rx sm (text_of (toks 0 (CmpNull (bytes_of ''slot.'' @ x) eq))) =
      Some (Inr (holds rx sm (CmpNull (bytes_of ''slot.'' @ x) eq)))"
    by (intro CompileCondition_text) simp
  then show ?thesis using assms(2) by (simp add: null_check_def fun_eq_iff del: toks.simps)
qed

theorem null_check_misses_prefixed_slot_witness:
  "CompileCondition (\<lambda>_. None) [bytes_of ''user'' \<mapsto> 0] (bytes_of ''slot.user == null'') = Some (Inr (\<lambda>ctx. True))"
proof -
  have "text_of (toks 0 (CmpNull (bytes_of ''slot.'' @ bytes_of ''user'') True)) = bytes_of ''slot.user == null''" by code_simp
  moreover have "plain_ident (bytes_of ''user'')" by code_simp
  ultimately show ?thesis using null_check_misses_prefixed_slot [of "bytes_of ''user''" "[bytes_of ''user'' \<mapsto> 0]" "\<lambda>_. None" True]
    by (simp add: bytes_of_def)
qed

end
