(* ===== verification/Rah_Compiler.thy ===== *)
theory Rah_Compiler
  imports Rah_Cond "HOL-Library.AList"
begin

section \<open>The flow compiler (\<open>internal/control/compiler.go\<close>)\<close>

text \<open>
  Flows are lists of step configurations; the compiler gives their variables slots and emits instructions into one table.
  Its state is threaded explicitly. A compilation error carries the state it was raised in, because \<open>simulateBake\<close>, which
  only counts instructions, ignores errors. Fragments may refer to each other, so compilation carries fuel; \<open>None\<close> is running
  out of it, for the source an endless recursion. What steps take from outside at run time, the request, the JSON package, regular
  expressions and the outcome of database calls, is in the environment, with the order in which Go happens to
  iterate over a map. Actions whose steps are not modelled end in the error \<open>NotModelled\<close>.
\<close>

record StepFields =
  sAction :: bytes
  sKey :: bytes
  sAs :: bytes
  sFlowName :: bytes
  sUrlVar :: bytes
  sKeyIdentifier :: bytes
  sInput :: "(bytes \<times> bytes) list"
  sCondition :: bytes
  sThen :: bytes
  sElse :: bytes
  sCases :: "(bytes \<times> bytes) list"
  sSource :: bytes
  sValue :: bytes
  sPath :: bytes
  sVariable :: bytes
  sDestination :: bytes
  sParams :: "(bytes \<times> bytes) list list"
  sOnError :: bytes
  sStatus :: int
  sBody :: bytes
  sMappings :: "(bytes \<times> bytes) list"
  sDefault :: bytes
  sSourceVar :: bytes
  sDataSource :: bytes
  sResponseBodyVar :: bytes
  sIncludeQuery :: "bool option"
  sLogAs :: bytes
  sTraceCapture :: bool
  sTraceVars :: "bytes list"

datatype StepConfig = Step (cfg: StepFields) (Do: "StepConfig list")

definition blank :: StepFields where
  "blank = \<lparr>sAction = [], sKey = [], sAs = [], sFlowName = [], sUrlVar = [], sKeyIdentifier = [], sInput = [], sCondition = [],
     sThen = [], sElse = [], sCases = [], sSource = [], sValue = [], sPath = [], sVariable = [], sDestination = [], sParams = [],
     sOnError = [], sStatus = 0, sBody = [], sMappings = [], sDefault = [], sSourceVar = [], sDataSource = [], sResponseBodyVar = [], sIncludeQuery = None, sLogAs = [],
     sTraceCapture = False, sTraceVars = []\<rparr>"

type_synonym fragments = "bytes \<rightharpoonup> StepConfig list"

record Env =
  frags :: fragments
  range_order :: "(bytes \<times> nat) list \<Rightarrow> (bytes \<times> nat) list"
  env_request :: request
  env_gjson :: "bytes \<Rightarrow> bytes \<Rightarrow> bytes"
  env_array :: "bytes \<Rightarrow> (int \<times> int) list option"
  env_body :: "(bytes \<times> bool) option"
  env_regex :: regexp
  env_db :: "bytes \<Rightarrow> bool \<times> bool \<times> (string \<Rightarrow> bool) \<times> bool"

record Compiler =
  slotMap :: slot_map
  freeSlots :: "int list"
  nextSlot :: int
  GlobalTable :: "Instruction list"
  FragmentMap :: "bytes \<rightharpoonup> int"
  callInstrTargets :: "(int \<rightharpoonup> int) option"
  pendingJumps :: "(nat \<times> bytes \<times> Instruction) list"
  upstreamOverride :: bool

definition NewCompiler :: Compiler where
  "NewCompiler = \<lparr>slotMap = Map.empty, freeSlots = [], nextSlot = 0, GlobalTable = [], FragmentMap = Map.empty,
     callInstrTargets = None, pendingJumps = [], upstreamOverride = False\<rparr>"

datatype compile_error = SlotLimit | IntSlotLimit | BadCondition cond_error | MissingField | BadNumber bytes
  | UnknownFlow bytes | NotModelled bytes | IndexPanic

type_synonym 'a comp = "(compile_error \<times> Compiler) + 'a"

subsection \<open>Slots\<close>

definition getSlot :: "bytes \<Rightarrow> Compiler \<Rightarrow> (int \<times> Compiler) comp" where
  "getSlot name c =
     (case slotMap c name of
        Some i \<Rightarrow> Inr (i, c)
      | None \<Rightarrow>
          if freeSlots c \<noteq> [] then
            (let i = last (freeSlots c) in Inr (i, c\<lparr>freeSlots := butlast (freeSlots c), slotMap := (slotMap c)(name \<mapsto> i)\<rparr>))
          else if nextSlot c \<ge> int BaseByteSlots then Inl (SlotLimit, c)
          else Inr (nextSlot c, c\<lparr>slotMap := (slotMap c)(name \<mapsto> nextSlot c), nextSlot := nextSlot c + 1\<rparr>))"

definition getSlotReadOnly :: "bytes \<Rightarrow> Compiler \<Rightarrow> int option" where
  "getSlotReadOnly name c = slotMap c name"

definition getBoolSlot :: "bytes \<Rightarrow> Compiler \<Rightarrow> (int \<times> Compiler) comp" where
  "getBoolSlot = getSlot"

definition resetSlots :: "Compiler \<Rightarrow> Compiler" where
  "resetSlots c = c\<lparr>slotMap := Map.empty, freeSlots := [], nextSlot := 0\<rparr>"

definition SnapshotSlots :: "Compiler \<Rightarrow> slot_map \<times> int" where
  "SnapshotSlots c = (slotMap c, nextSlot c)"

definition RestoreSlots :: "slot_map \<Rightarrow> int \<Rightarrow> Compiler \<Rightarrow> Compiler" where
  "RestoreSlots snap nxt c = c\<lparr>slotMap := snap, nextSlot := nxt, freeSlots := []\<rparr>"

definition AllocUpstreamUrlSlot :: "Compiler \<Rightarrow> (int \<times> Compiler) comp" where
  "AllocUpstreamUrlSlot c = getSlot (bytes_of ''upstream_url'') c"

fun AllocConstantSlots :: "(bytes \<times> bytes) list \<Rightarrow> Compiler \<Rightarrow> ((int \<times> bytes) list \<times> Compiler) comp" where
  "AllocConstantSlots [] c = Inr ([], c)"
| "AllocConstantSlots ((k, v) # ks) c =
     bind_e (getSlot k c) (\<lambda>(i, c1). bind_e (AllocConstantSlots ks c1) (\<lambda>(ss, c2). Inr ((i, v) # ss, c2)))"

definition emit_instr :: "string \<Rightarrow> InstructionFunc \<Rightarrow> Compiler \<Rightarrow> Compiler" where
  "emit_instr name a c = c\<lparr>GlobalTable := GlobalTable c @ [instr name a]\<rparr>"

definition with_slot :: "bytes \<Rightarrow> (int \<Rightarrow> Compiler \<Rightarrow> 'a comp) \<Rightarrow> Compiler \<Rightarrow> 'a comp" where
  "with_slot name k c = bind_e (getSlot name c) (\<lambda>(i, c'). k i c')"

definition input :: "StepFields \<Rightarrow> string \<Rightarrow> bytes" where
  \<comment> \<open>\<open>step.Input[key]\<close>: empty when missing\<close>
  "input s key = (case map_of (sInput s) (bytes_of key) of Some v \<Rightarrow> v | None \<Rightarrow> [])"

definition key_or_identifier :: "StepFields \<Rightarrow> bytes" where
  "key_or_identifier s = (if sKey s = [] then sKeyIdentifier s else sKey s)"

subsection \<open>Steps with a source and a result\<close>

definition src_as :: "string \<Rightarrow> (int \<Rightarrow> int \<Rightarrow> InstructionFunc) \<Rightarrow> StepFields \<Rightarrow> Compiler \<Rightarrow> Compiler comp" where
  "src_as name f s = with_slot (sSource s) (\<lambda>src. with_slot (sAs s) (\<lambda>result c. Inr (emit_instr name (f src result) c)))"

definition compile_to_lower :: "StepFields \<Rightarrow> Compiler \<Rightarrow> Compiler comp" where
  "compile_to_lower = src_as ''TO_LOWER'' ToLowerStep"

definition compile_to_upper :: "StepFields \<Rightarrow> Compiler \<Rightarrow> Compiler comp" where
  "compile_to_upper = src_as ''TO_UPPER'' ToUpperStep"

definition compile_trim :: "StepFields \<Rightarrow> Compiler \<Rightarrow> Compiler comp" where
  "compile_trim = src_as ''TRIM'' TrimStep"

definition compile_contains :: "StepFields \<Rightarrow> Compiler \<Rightarrow> Compiler comp" where
  "compile_contains s = src_as ''CONTAINS'' (\<lambda>src result. ContainsStep src result (sValue s)) s"

definition compile_starts_with :: "StepFields \<Rightarrow> Compiler \<Rightarrow> Compiler comp" where
  "compile_starts_with s = src_as ''STARTS_WITH'' (\<lambda>src result. StartsWithStep src result (sValue s)) s"

definition compile_ends_with :: "StepFields \<Rightarrow> Compiler \<Rightarrow> Compiler comp" where
  "compile_ends_with s = src_as ''ENDS_WITH'' (\<lambda>src result. EndsWithStep src result (sValue s)) s"

definition compile_index_of :: "StepFields \<Rightarrow> Compiler \<Rightarrow> Compiler comp" where
  "compile_index_of s = src_as ''INDEX_OF'' (\<lambda>src result. IndexOfStep src result (sValue s)) s"

definition compile_to_int :: "StepFields \<Rightarrow> Compiler \<Rightarrow> Compiler comp" where
  "compile_to_int = src_as ''TO_INT'' ToIntStep"

definition compile_byte_length :: "StepFields \<Rightarrow> Compiler \<Rightarrow> Compiler comp" where
  "compile_byte_length = src_as ''BYTE_LENGTH'' ByteLengthStep"

definition int_input :: "StepFields \<Rightarrow> string \<Rightarrow> int \<Rightarrow> int" where
  \<comment> \<open>an integer of the input, or the default when it is missing or not a number\<close>
  "int_input s key d =
     (case map_of (sInput s) (bytes_of key) of
        None \<Rightarrow> d
      | Some v \<Rightarrow> let (n, err) = ParseInt v in if err then d else n)"

definition compile_substring :: "StepFields \<Rightarrow> Compiler \<Rightarrow> Compiler comp" where
  "compile_substring s =
     src_as ''SUBSTRING'' (\<lambda>src result. SubstringStep src result (int_input s ''start'' 0) (int_input s ''length'' (-1))) s"

definition three_slots :: "string \<Rightarrow> (int \<Rightarrow> int \<Rightarrow> int \<Rightarrow> InstructionFunc) \<Rightarrow> StepFields \<Rightarrow> Compiler \<Rightarrow> Compiler comp" where
  "three_slots name f s =
     with_slot (sKeyIdentifier s) (\<lambda>slotA. with_slot (sSource s) (\<lambda>slotB. with_slot (sAs s) (\<lambda>result c.
       Inr (emit_instr name (f slotA slotB result) c))))"

definition compile_concat :: "StepFields \<Rightarrow> Compiler \<Rightarrow> Compiler comp" where
  "compile_concat s = three_slots ''CONCAT'' (\<lambda>a b r. ConcatStep a b r (sValue s)) s"

definition compile_add :: "StepFields \<Rightarrow> Compiler \<Rightarrow> Compiler comp" where "compile_add = three_slots ''ADD'' AddStep"
definition compile_sub :: "StepFields \<Rightarrow> Compiler \<Rightarrow> Compiler comp" where "compile_sub = three_slots ''SUB'' SubStep"
definition compile_mul :: "StepFields \<Rightarrow> Compiler \<Rightarrow> Compiler comp" where "compile_mul = three_slots ''MUL'' MulStep"
definition compile_div :: "StepFields \<Rightarrow> Compiler \<Rightarrow> Compiler comp" where "compile_div = three_slots ''DIV'' DivStep"
definition compile_mod :: "StepFields \<Rightarrow> Compiler \<Rightarrow> Compiler comp" where "compile_mod = three_slots ''MOD'' ModStep"

subsection \<open>Binding steps\<close>

definition dest_step :: "string \<Rightarrow> (int \<Rightarrow> InstructionFunc) \<Rightarrow> StepFields \<Rightarrow> Compiler \<Rightarrow> Compiler comp" where
  "dest_step name f s = with_slot (sAs s) (\<lambda>dest c. Inr (emit_instr name (f dest) c))"

definition source_step :: "string \<Rightarrow> (int \<Rightarrow> InstructionFunc) \<Rightarrow> StepFields \<Rightarrow> Compiler \<Rightarrow> Compiler comp" where
  "source_step name f s = with_slot (sSource s) (\<lambda>src c. Inr (emit_instr name (f src) c))"

definition compile_set_const :: "StepFields \<Rightarrow> Compiler \<Rightarrow> Compiler comp" where
  "compile_set_const s = dest_step ''SET_CONST'' (SetConstStep (sValue s)) s"

definition compile_respond :: "StepFields \<Rightarrow> Compiler \<Rightarrow> Compiler comp" where
  "compile_respond s = with_slot (sKeyIdentifier s) (\<lambda>src c. Inr (emit_instr ''RESPOND'' (RespondStep src) c))"

definition compile_respond_token_count :: "StepFields \<Rightarrow> Compiler \<Rightarrow> Compiler comp" where
  "compile_respond_token_count s c =
     (let name = input s ''total_slot'';
          (islot, c') = (if name \<noteq> [] then (case getSlot name c of Inr r \<Rightarrow> r | Inl (_, c1) \<Rightarrow> (-1, c1)) else (-1, c))
      in Inr (emit_instr ''RESPOND_TOKEN_COUNT'' (RespondTokenCountStep islot) c'))"

definition compile_bind_body :: "Env \<Rightarrow> StepFields \<Rightarrow> Compiler \<Rightarrow> Compiler comp" where
  "compile_bind_body env s = dest_step ''BIND_BODY'' (BindBody (env_gjson env) (env_body env) (key_or_identifier s)) s"

definition compile_bind_json :: "Env \<Rightarrow> StepFields \<Rightarrow> Compiler \<Rightarrow> Compiler comp" where
  "compile_bind_json env s =
     with_slot (sVariable s) (\<lambda>src c.
       let jPath = (if sPath s = [] then sKey s else sPath s) in
       if jPath = [] then Inl (MissingField, c)
       else with_slot (sAs s) (\<lambda>dest c. Inr (emit_instr ''BIND_JSON'' (BindJSON (env_gjson env) src jPath dest) c)) c)"

definition compile_bind_header :: "Env \<Rightarrow> StepFields \<Rightarrow> Compiler \<Rightarrow> Compiler comp" where
  "compile_bind_header env s = dest_step ''BIND_HEADER'' (BindHeader (env_request env) (key_or_identifier s)) s"

definition compile_bind_query_param :: "StepFields \<Rightarrow> Compiler \<Rightarrow> Compiler comp" where
  "compile_bind_query_param s = dest_step ''BIND_QUERY'' (BindQuery (key_or_identifier s)) s"

definition compile_bind_path :: "StepFields \<Rightarrow> Compiler \<Rightarrow> Compiler comp" where
  "compile_bind_path s = dest_step ''BIND_PATH'' (BindPath (fst (ParseInt (input s ''index'')))) s"

definition compile_bind_request_url :: "StepFields \<Rightarrow> Compiler \<Rightarrow> Compiler comp" where
  "compile_bind_request_url s =
     dest_step ''BIND_REQUEST_URL'' (\<lambda>dst. BindRequestURL dst (case sIncludeQuery s of None \<Rightarrow> True | Some b \<Rightarrow> b)) s"

definition compile_set_request_header :: "StepFields \<Rightarrow> Compiler \<Rightarrow> Compiler comp" where
  "compile_set_request_header s = source_step ''SET_REQUEST_HEADER'' (SetRequestHeader (key_or_identifier s)) s"

definition compile_remove_request_header :: "StepFields \<Rightarrow> Compiler \<Rightarrow> Compiler comp" where
  "compile_remove_request_header s c = Inr (emit_instr ''REMOVE_REQUEST_HEADER'' (RemoveRequestHeader (key_or_identifier s)) c)"

definition compile_rename_request_header :: "Env \<Rightarrow> StepFields \<Rightarrow> Compiler \<Rightarrow> Compiler comp" where
  "compile_rename_request_header env s c =
     (if sAs s = [] then Inl (MissingField, c)
      else Inr (emit_instr ''RENAME_REQUEST_HEADER'' (RenameRequestHeader (env_request env) (key_or_identifier s) (sAs s)) c))"

definition compile_copy_header :: "Env \<Rightarrow> StepFields \<Rightarrow> Compiler \<Rightarrow> Compiler comp" where
  "compile_copy_header env s c =
     (if key_or_identifier s = [] \<or> sAs s = [] then Inl (MissingField, c)
      else Inr (emit_instr ''COPY_HEADER'' (CopyHeader (env_request env) (key_or_identifier s) (sAs s)) c))"

definition compile_set_request_body :: "StepFields \<Rightarrow> Compiler \<Rightarrow> Compiler comp" where
  "compile_set_request_body s =
     source_step ''SET_REQUEST_BODY''
       (\<lambda>src. SetRequestBody src (if input s ''content_type'' = [] then bytes_of ''application/json'' else input s ''content_type'')) s"

definition compile_extract_cookie :: "Env \<Rightarrow> StepFields \<Rightarrow> Compiler \<Rightarrow> Compiler comp" where
  "compile_extract_cookie env s = dest_step ''EXTRACT_COOKIE'' (ExtractCookie (env_request env) (key_or_identifier s)) s"

definition compile_set_response_cookie :: "StepFields \<Rightarrow> Compiler \<Rightarrow> Compiler comp" where
  \<comment> \<open>\<open>Atoi\<close> without its error: an out-of-range number is the nearest bound\<close>
  "compile_set_response_cookie s =
     source_step ''SET_RESPONSE_COOKIE'' (\<lambda>v. SetResponseCookie (key_or_identifier s) v
       (if input s ''path'' = [] then bytes_of ''/'' else input s ''path'')
       (case map_of (sInput s) (bytes_of ''max_age'') of None \<Rightarrow> 0 | Some n \<Rightarrow> fst (ParseInt n))
       (input s ''http_only'' = bytes_of ''true'') (input s ''secure'' = bytes_of ''true'') (input s ''same_site'')) s"

definition compile_set_request_cookie :: "StepFields \<Rightarrow> Compiler \<Rightarrow> Compiler comp" where
  "compile_set_request_cookie s = source_step ''SET_REQUEST_COOKIE'' (SetRequestCookie (key_or_identifier s)) s"

definition compile_remove_response_cookie :: "StepFields \<Rightarrow> Compiler \<Rightarrow> Compiler comp" where
  "compile_remove_response_cookie s c =
     Inr (emit_instr ''REMOVE_RESPONSE_COOKIE'' (RemoveResponseCookie (key_or_identifier s) (input s ''path'')) c)"

fun cookie_bindings :: "(bytes \<times> bytes) list \<Rightarrow> Compiler \<Rightarrow> ((bytes \<times> int) list \<times> Compiler) comp" where
  "cookie_bindings [] c = Inr ([], c)"
| "cookie_bindings ((name, var) # xs) c =
     bind_e (getSlot var c) (\<lambda>(i, c1). bind_e (cookie_bindings xs c1) (\<lambda>(bs, c2). Inr ((name, i) # bs, c2)))"

definition compile_cookie_flatten :: "StepFields \<Rightarrow> Compiler \<Rightarrow> Compiler comp" where
  "compile_cookie_flatten s =
     with_slot (sAs s) (\<lambda>dst c. bind_e (cookie_bindings (sInput s) c) (\<lambda>(bs, c1).
       Inr (emit_instr ''COOKIE_FLATTEN'' (CookieFlattenStep bs dst) c1)))"

subsection \<open>Response steps\<close>

definition literal_slot :: "StepFields \<Rightarrow> (int \<Rightarrow> Compiler \<Rightarrow> Compiler comp) \<Rightarrow> Compiler \<Rightarrow> Compiler comp" where
  \<comment> \<open>the slot of the source; a source that is no known variable is a literal, stored by an instruction of its own\<close>
  "literal_slot s k c =
     (if slotMap c (sSource s) = None
      then with_slot (sSource s) (\<lambda>lit c1. k lit (emit_instr ''SET_CONST'' (SetConstStep (sSource s) lit) c1)) c
      else with_slot (sSource s) k c)"

definition compile_set_response_header :: "StepFields \<Rightarrow> Compiler \<Rightarrow> Compiler comp" where
  "compile_set_response_header s =
     literal_slot s (\<lambda>src c. Inr (emit_instr ''SET_RESPONSE_HEADER'' (SetResponseHeaderFromSlot (sKey s) src) c))"

definition compile_set_response_body :: "StepFields \<Rightarrow> Compiler \<Rightarrow> Compiler comp" where
  "compile_set_response_body s =
     literal_slot s (\<lambda>src c. Inr (emit_instr ''SET_RESPONSE_BODY'' (SetResponseBodyStep src) c))"

definition compile_remove_response_header :: "StepFields \<Rightarrow> Compiler \<Rightarrow> Compiler comp" where
  "compile_remove_response_header s c = Inr (emit_instr ''REMOVE_RESPONSE_HEADER'' (RemoveResponseHeaderStep (sKey s)) c)"

definition compile_set_response_status :: "StepFields \<Rightarrow> Compiler \<Rightarrow> Compiler comp" where
  "compile_set_response_status s c =
     (let code = (if sValue s \<noteq> [] then (let (n, err) = ParseInt (sValue s) in if err then 200 else n) else 200)
      in Inr (emit_instr ''SET_RESPONSE_STATUS'' (SetResponseStatusStep code) c))"

definition compile_set_response_status_from_slot :: "StepFields \<Rightarrow> Compiler \<Rightarrow> Compiler comp" where
  "compile_set_response_status_from_slot s = source_step ''SET_RESPONSE_STATUS_FROM_SLOT'' SetResponseStatusFromSlotStep s"

fun status_mappings :: "(bytes \<times> bytes) list \<Rightarrow> Compiler \<Rightarrow> (int \<rightharpoonup> int) comp" where
  "status_mappings [] c = Inr Map.empty"
| "status_mappings ((a, b) # ms) c =
     (let (src, err1) = ParseInt a; (dst, err2) = ParseInt b in
      if err1 then Inl (BadNumber a, c) else if err2 then Inl (BadNumber b, c)
      else bind_e (status_mappings ms c) (\<lambda>m. Inr ((\<lambda>k. if m k = None \<and> k = src then Some dst else m k))))"

definition compile_map_status :: "StepFields \<Rightarrow> Compiler \<Rightarrow> Compiler comp" where
  "compile_map_status s =
     with_slot (sSourceVar s) (\<lambda>src c.
       bind_e (status_mappings (sMappings s) c) (\<lambda>mappings.
         let d = sDefault s in
         if d \<noteq> [] \<and> d \<noteq> bytes_of ''pass'' then
           (let (n, err) = ParseInt d in
            if err then Inl (BadNumber d, c) else Inr (emit_instr ''MAP_STATUS'' (MapStatusStep src mappings n) c))
         else Inr (emit_instr ''MAP_STATUS'' (MapStatusStep src mappings (-1)) c)))"

definition compile_log_field :: "StepFields \<Rightarrow> Compiler \<Rightarrow> Compiler comp" where
  "compile_log_field s =
     source_step ''LOG_FIELD'' (LogFieldStep (map (\<lambda>b. char_of (unat b)) (key_or_identifier s))) s"

subsection \<open>Ending a flow and handling errors\<close>

definition known_slot :: "bytes \<Rightarrow> Compiler \<Rightarrow> int" where
  "known_slot name c = (if name \<noteq> [] then (case slotMap c name of Some i \<Rightarrow> i | None \<Rightarrow> -1) else -1)"

definition compile_return :: "StepFields \<Rightarrow> Compiler \<Rightarrow> Compiler comp" where
  "compile_return s c =
     Inr (emit_instr ''early_return''
       (EarlyReturn (if sStatus s = 0 then 200 else sStatus s) (known_slot (sAs s) c) (if sBody s \<noteq> [] then Some (sBody s) else None)) c)"

definition compile_fail :: "StepFields \<Rightarrow> Compiler \<Rightarrow> Compiler comp" where
  "compile_fail s c =
     Inr (emit_instr ''fail'' (Fail (if i16 (sStatus s) = 0 then 500 else i16 (sStatus s)) (known_slot (sAs s) c) (sBody s)) c)"

definition compile_capture_error :: "StepFields \<Rightarrow> Compiler \<Rightarrow> Compiler comp" where
  "compile_capture_error s c =
     (let codeSlot = known_slot (sKey s) c in
      if sAs s \<noteq> [] then with_slot (sAs s) (\<lambda>msg c1. Inr (emit_instr ''capture_error'' (CaptureError codeSlot msg) c1)) c
      else Inr (emit_instr ''capture_error'' (CaptureError codeSlot (-1)) c))"

definition TraceCaptureStep :: "int \<Rightarrow> bytes \<Rightarrow> InstructionFunc" where
  "TraceCaptureStep slotIdx fieldName ctx s =
     (let text = map (\<lambda>b. char_of (unat b)) in
      if slotIdx \<ge> 0 \<and> slotIdx < int (length (ByteSlots (slots ctx))) \<and> length (ByteSlots (slots ctx) ! nat slotIdx) > 0
      then andThen (AddTraceAttr (text fieldName) (text (ByteSlots (slots ctx) ! nat slotIdx)) s) (\<lambda>s'. continue s' ctx)
      else continue s ctx)"

subsection \<open>Control flow\<close>

type_synonym comp_rec = "StepConfig \<Rightarrow> Compiler \<Rightarrow> Compiler comp option"

definition bind_o :: "'a comp option \<Rightarrow> ('a \<Rightarrow> 'b comp option) \<Rightarrow> 'b comp option" where
  "bind_o m f = (case m of None \<Rightarrow> None | Some (Inl e) \<Rightarrow> Some (Inl e) | Some (Inr x) \<Rightarrow> f x)"

definition frag :: "Env \<Rightarrow> bytes \<Rightarrow> StepConfig list" where
  \<comment> \<open>\<open>fragments[name]\<close>: nil when missing\<close>
  "frag env name = (case frags env name of Some f \<Rightarrow> f | None \<Rightarrow> [])"

definition placeholder :: InstructionFunc where
  \<comment> \<open>an instruction whose action is nil\<close>
  "placeholder ctx s = Inl NilDereference"

definition patch :: "int \<Rightarrow> Instruction \<Rightarrow> Compiler \<Rightarrow> Compiler comp" where
  \<comment> \<open>\<open>c.GlobalTable[i] = ins\<close>\<close>
  "patch i ins c =
     (if 0 \<le> i \<and> i < int (length (GlobalTable c)) then Inr (c\<lparr>GlobalTable := (GlobalTable c)[nat i := ins]\<rparr>)
      else Inl (IndexPanic, c))"

definition here :: "Compiler \<Rightarrow> int" where
  \<comment> \<open>\<open>int16(len(c.GlobalTable))\<close>\<close>
  "here c = i16 (int (length (GlobalTable c)))"

fun bakeFlowRaw :: "comp_rec \<Rightarrow> StepConfig list \<Rightarrow> Compiler \<Rightarrow> Compiler comp option" where
  "bakeFlowRaw rec [] c = Some (Inr c)"
| "bakeFlowRaw rec (step # flow) c = bind_o (rec step c) (bakeFlowRaw rec flow)"

definition simulateBake :: "comp_rec \<Rightarrow> StepConfig list \<Rightarrow> Compiler \<Rightarrow> (nat \<times> Compiler) option" where
  \<comment> \<open>the number of instructions, and the compiler: the copy shares its map of call targets\<close>
  "simulateBake rec flow c =
     (if flow = [] then Some (0, c)
      else map_option (\<lambda>r. let sim = (case r of Inl (_, c') \<Rightarrow> c' | Inr c' \<Rightarrow> c')
               in (length (GlobalTable sim),
                   c\<lparr>callInstrTargets := (if callInstrTargets c = None then None else callInstrTargets sim)\<rparr>))
             (bakeFlowRaw rec flow (c\<lparr>GlobalTable := [], pendingJumps := []\<rparr>)))"

definition compile_if :: "Env \<Rightarrow> comp_rec \<Rightarrow> StepFields \<Rightarrow> Compiler \<Rightarrow> Compiler comp option" where
  "compile_if env rec s c =
     (case simulateBake rec (frag env (sThen s)) c of None \<Rightarrow> None | Some (thenLen, c1) \<Rightarrow>
      case simulateBake rec (frag env (sElse s)) c1 of None \<Rightarrow> None | Some (elseLen, c2) \<Rightarrow>
        let thenStartID = i16 (here c2 + 1);
            skipElseID = i16 (thenStartID + i16 (int thenLen));
            elseStartID = i16 (skipElseID + 1);
            postElseID = i16 (elseStartID + i16 (int elseLen));
            gate = NewComplexLogicGate (env_regex env) (sCondition s) thenStartID elseStartID (slotMap c2)
        in bind_o (bakeFlowRaw rec (frag env (sThen s)) (c2\<lparr>GlobalTable := GlobalTable c2 @ [gate]\<rparr>)) (\<lambda>c3.
             bakeFlowRaw rec (frag env (sElse s)) (emit_instr ''GOTO'' (newInternalJump postElseID) c3)))"

definition linkBreaks :: "int \<Rightarrow> Compiler \<Rightarrow> Compiler" where
  "linkBreaks exitID c =
     c\<lparr>GlobalTable := map (\<lambda>i. if Name i = ''BREAK'' then instr ''GOTO'' (newInternalJump exitID) else i) (GlobalTable c)\<rparr>"

subsection \<open>Liveness\<close>

definition IndexAny :: "bytes \<Rightarrow> bytes \<Rightarrow> int" where
  "IndexAny s cs = (let n = length (takeWhile (\<lambda>c. c \<notin> set cs) s) in if n = length s then -1 else int n)"

lemma Index_sub_nonempty: "\<not> Index_sub s sep < 0 \<Longrightarrow> sep \<noteq> [] \<Longrightarrow> 0 < length s"
  by (cases s) auto

function var_refs :: "bytes \<Rightarrow> bytes list" where
  \<comment> \<open>the references starting with \<open>var.\<close> in an input value\<close>
  "var_refs text =
     (let i = Index_sub text (bytes_of ''var.'') in
      if i < 0 then []
      else
        let rest = drop (nat i) text; e = IndexAny (drop 4 rest) (bytes_of '' \"'' @ [0x27, 0x09, 0x0A] @ bytes_of ''}],=<>!{()'')
        in if e < 0 then [rest] else take (4 + nat e) rest # var_refs (drop (4 + nat e) rest))"
  by pat_completeness auto
termination
  by (relation "measure length") (auto dest!: Index_sub_nonempty simp: bytes_of_def)

declare var_refs.simps [simp del]

function template_refs :: "bytes \<Rightarrow> bytes list" where
  \<comment> \<open>the names in \<open>${name}\<close> references\<close>
  "template_refs text =
     (let i = Index_sub text (bytes_of ''${'') in
      if i < 0 then []
      else
        let rest = drop (nat i + 2) text; e = IndexByte rest 0x7D
        in if e < 0 then []
           else (if take (nat e) rest = [] then [] else [take (nat e) rest]) @
                template_refs (drop (nat e + 1) rest))"
  by pat_completeness auto
termination
  by (relation "measure length") (auto dest!: Index_sub_nonempty simp: bytes_of_def)

declare template_refs.simps [simp del]

definition cond_ref :: "bytes \<Rightarrow> bytes list" where
  "cond_ref tok0 =
     (let tok = Trim_parens tok0 in
      if tok = bytes_of ''&&'' \<or> tok = bytes_of ''||'' \<or> tok = [] then []
      else
        let t = dropWhile (\<lambda>c. c = 0x21) tok in
        if IndexAny t (bytes_of ''=<>\"'' @ [0x27]) \<ge> 0 then []
        else let n = CutPrefix t (bytes_of ''slot.'') in if n \<noteq> [] then [n] else [])"

definition nonempty :: "bytes \<Rightarrow> bytes list" where
  "nonempty n = (if n \<noteq> [] then [n] else [])"

definition varRefsInStep :: "StepFields \<Rightarrow> bytes list" where
  "varRefsInStep s =
     concat (map nonempty [sAs s, sVariable s, sDestination s, sSource s, sKeyIdentifier s, sUrlVar s]) @
     (if sCondition s \<noteq> [] then concat (map cond_ref (Fields (sCondition s))) else []) @
     concat (map (\<lambda>(_, v). var_refs v) (sInput s)) @
     concat (map (\<lambda>p. concat (map (\<lambda>k. case map_of p (bytes_of k) of Some n \<Rightarrow> nonempty n | None \<Rightarrow> []) [''dest_slot'', ''value_slot'']))
               (sParams s)) @
     (if sValue s \<noteq> [] then template_refs (sValue s) else [])"

fun walk_refs :: "nat \<Rightarrow> Env \<Rightarrow> StepConfig list \<Rightarrow> bytes list \<Rightarrow> (bytes list \<times> bytes list) option"
  and walk_frags :: "nat \<Rightarrow> Env \<Rightarrow> bytes list \<Rightarrow> bytes list \<Rightarrow> (bytes list \<times> bytes list) option" where
  \<comment> \<open>the references, and the fragments visited\<close>
  "walk_refs 0 env steps visited = None"
| "walk_refs (Suc n) env [] visited = Some ([], visited)"
| "walk_refs (Suc n) env (Step s body # steps) visited =
     Option.bind (walk_refs n env body visited) (\<lambda>(r1, v1).
     Option.bind (walk_frags n env [sThen s, sElse s, sFlowName s] v1) (\<lambda>(r2, v2).
     Option.bind (walk_refs n env steps v2) (\<lambda>(r3, v3). Some (varRefsInStep s @ r1 @ r2 @ r3, v3))))"
| "walk_frags 0 env refs visited = None"
| "walk_frags (Suc n) env [] visited = Some ([], visited)"
| "walk_frags (Suc n) env (ref # refs) visited =
     (if ref = [] \<or> ref \<in> set visited then walk_frags n env refs visited
      else Option.bind (walk_refs n env (frag env ref) (ref # visited)) (\<lambda>(r1, v1).
           Option.bind (walk_frags n env refs v1) (\<lambda>(r2, v2). Some (r1 @ r2, v2))))"

definition varRefsInFlow :: "nat \<Rightarrow> Env \<Rightarrow> StepConfig list \<Rightarrow> bytes list option" where
  "varRefsInFlow n env flow = map_option fst (walk_refs n env flow [])"

definition use_at :: "nat \<Rightarrow> bytes list \<Rightarrow> (bytes \<times> nat) list \<Rightarrow> (bytes \<times> nat) list" where
  "use_at i names lu = fold (\<lambda>name. AList.update name i) names lu"

definition branch_refs :: "nat \<Rightarrow> Env \<Rightarrow> StepConfig \<Rightarrow> bytes list option" where
  \<comment> \<open>the variables of the branches of a step\<close>
  "branch_refs n env step =
     (let s = cfg step; a = sAction s in
      Option.bind (if a = bytes_of ''if'' \<or> a = bytes_of ''pattern_match''
              then Option.bind (varRefsInFlow n env (frag env (sThen s))) (\<lambda>r1.
                   Option.bind (varRefsInFlow n env (frag env (sElse s))) (\<lambda>r2. Some (r1 @ r2)))
              else Some []) (\<lambda>r.
      Option.bind (if a = bytes_of ''foreach'' then varRefsInFlow n env (Do step) else Some []) (\<lambda>r'.
      Option.bind (if a = bytes_of ''call'' \<and> sFlowName s \<noteq> [] then varRefsInFlow n env (frag env (sFlowName s)) else Some []) (\<lambda>r''.
        Some (r @ r' @ r'')))))"

fun computeLastUse :: "nat \<Rightarrow> Env \<Rightarrow> nat \<Rightarrow> StepConfig list \<Rightarrow> (bytes \<times> nat) list \<Rightarrow> (bytes \<times> nat) list option" where
  "computeLastUse n env i [] lu = Some lu"
| "computeLastUse n env i (step # flow) lu =
     Option.bind (branch_refs n env step) (\<lambda>rs.
       computeLastUse n env (Suc i) flow (use_at i rs (use_at i (varRefsInStep (cfg step)) lu)))"

fun release :: "nat \<Rightarrow> (bytes \<times> nat) list \<Rightarrow> Compiler \<Rightarrow> Compiler" where
  "release i [] c = c"
| "release i ((name, l) # lu) c =
     release i lu
       (if l = i \<and> \<not> HasPrefix name (bytes_of ''path.'')
        then case slotMap c name of
               Some slot \<Rightarrow> c\<lparr>freeSlots := freeSlots c @ [slot], slotMap := (slotMap c)(name := None)\<rparr>
             | None \<Rightarrow> c
        else c)"

definition releaseDeadSlots :: "Env \<Rightarrow> nat \<Rightarrow> (bytes \<times> nat) list \<Rightarrow> Compiler \<Rightarrow> Compiler" where
  "releaseDeadSlots env stepIdx lastUse c = release stepIdx (range_order env lastUse) c"

definition tag_steps :: "nat \<Rightarrow> int \<Rightarrow> Compiler \<Rightarrow> Compiler" where
  "tag_steps start i c =
     c\<lparr>GlobalTable := take start (GlobalTable c) @ map (\<lambda>ins. ins\<lparr>StepIdx := i\<rparr>) (drop start (GlobalTable c))\<rparr>"

fun bake_steps :: "Env \<Rightarrow> comp_rec \<Rightarrow> (bytes \<times> nat) list \<Rightarrow> nat \<Rightarrow> StepConfig list \<Rightarrow> Compiler \<Rightarrow> Compiler comp option" where
  "bake_steps env rec lastUse i [] c = Some (Inr c)"
| "bake_steps env rec lastUse i (step # flow) c =
     bind_o (rec step c) (\<lambda>c1.
       bake_steps env rec lastUse (Suc i) flow
         (releaseDeadSlots env i lastUse (tag_steps (length (GlobalTable c)) (i16 (int i)) c1)))"

definition bakeFlow :: "nat \<Rightarrow> Env \<Rightarrow> comp_rec \<Rightarrow> StepConfig list \<Rightarrow> Compiler \<Rightarrow> Compiler comp option" where
  "bakeFlow n env rec flow c =
     (case computeLastUse n env 0 flow [] of None \<Rightarrow> None | Some lastUse \<Rightarrow> bake_steps env rec lastUse 0 flow c)"

subsection \<open>Switches, loops, calls and transactions\<close>

fun compile_cases ::
  "nat \<Rightarrow> Env \<Rightarrow> comp_rec \<Rightarrow> (bytes \<times> bytes) list \<Rightarrow> (bytes \<rightharpoonup> int) \<Rightarrow> Compiler \<Rightarrow> ((bytes \<rightharpoonup> int) \<times> Compiler) comp option" where
  "compile_cases n env rec [] jumpTable c = Some (Inr (jumpTable, c))"
| "compile_cases n env rec ((v, fragName) # cases) jumpTable c =
     bind_o (bakeFlow n env rec (frag env fragName) c) (\<lambda>c1.
       compile_cases n env rec cases (jumpTable(v \<mapsto> here c)) (emit_instr ''BREAK'' placeholder c1))"

definition compile_switch :: "nat \<Rightarrow> Env \<Rightarrow> comp_rec \<Rightarrow> StepFields \<Rightarrow> Compiler \<Rightarrow> Compiler comp option" where
  "compile_switch n env rec s c =
     bind_o (Some (getSlot (sAs s) c)) (\<lambda>(slot, c1).
     bind_o (compile_cases n env rec (sCases s) Map.empty (emit_instr ''SWITCH_DISPATCH'' placeholder c1)) (\<lambda>(jumpTable, c2).
       let exitID = here c2 in
       bind_o (Some (patch (int (length (GlobalTable c1))) (instr ''SWITCH_GATE'' (SwitchGate slot jumpTable exitID)) c2)) (\<lambda>c3.
         Some (Inr (linkBreaks exitID c3)))))"

definition hidden_slots :: "int \<Rightarrow> Compiler \<Rightarrow> (int \<times> Compiler) comp" where
  \<comment> \<open>reserve that many slots for a loop: the first of them\<close>
  "hidden_slots n c =
     (if nextSlot c + n - 1 \<ge> int BaseIntSlots + int ExtIntSlots then Inl (IntSlotLimit, c)
      else Inr (nextSlot c, c\<lparr>nextSlot := nextSlot c + n\<rparr>))"

definition compile_loop ::
  "comp_rec \<Rightarrow> StepConfig list \<Rightarrow> string \<Rightarrow> string \<Rightarrow> (int \<Rightarrow> InstructionFunc) \<Rightarrow> (int \<Rightarrow> int \<Rightarrow> Compiler \<Rightarrow> Instruction) \<Rightarrow> Compiler \<Rightarrow>
     Compiler comp option" where
  \<comment> \<open>a gate, the body and the instruction that goes back; the gate is filled in last\<close>
  "compile_loop rec body placeholderName repeatName repeat gate c =
     (let gateID = here c in
      bind_o (bakeFlowRaw rec body (emit_instr placeholderName placeholder c)) (\<lambda>c1.
        let c2 = emit_instr repeatName (repeat gateID) c1
        in Some (patch gateID (gate gateID (here c2) c2) c2)))"

definition compile_foreach_step :: "Env \<Rightarrow> comp_rec \<Rightarrow> StepFields \<Rightarrow> StepConfig list \<Rightarrow> Compiler \<Rightarrow> Compiler comp option" where
  "compile_foreach_step env rec s body c =
     bind_o (Some (hidden_slots 2 c)) (\<lambda>(iterSlot, c1).
     bind_o (Some (getSlot (sAs s) c1)) (\<lambda>(valSlot, c2).
       compile_loop rec body ''LOOP_GATE_PLACEHOLDER'' ''LOOP_REPEAT'' (\<lambda>gateID. LoopRepeat gateID iterSlot)
         (\<lambda>gateID exitID c3.
            case getSlotReadOnly (sSource s) c3 of
              Some srcSlot \<Rightarrow> instr ''LOOP_GATE_SLOT''
                (LoopGateSlot (env_array env) srcSlot valSlot (iterSlot + 1) iterSlot (i16 (gateID + 1)) exitID)
            | None \<Rightarrow> instr ''LOOP_GATE''
                (LoopGate (map (\<lambda>b. char_of (unat b)) (sSource s)) valSlot iterSlot (i16 (gateID + 1)) exitID)) c2))"

definition while_condition :: "Env \<Rightarrow> StepFields \<Rightarrow> Compiler \<Rightarrow> (ConditionFunc \<times> Compiler) comp" where
  "while_condition env s c =
     (if sCondition s \<noteq> [] then
        (case CompileCondition (env_regex env) (slotMap c) (sCondition s) of
           Some (Inr f) \<Rightarrow> Inr (f, c)
         | Some (Inl e) \<Rightarrow> Inl (BadCondition e, c)
         | None \<Rightarrow> Inl (BadCondition TrailingTokens, c))
      else bind_e (getBoolSlot (sSource s) c) (\<lambda>(i, c1).
             Inr (\<lambda>ctx. 0 \<le> i \<and> i < int (length (BoolSlots (slots ctx))) \<and> BoolSlots (slots ctx) ! nat i, c1)))"

definition compile_while_step :: "Env \<Rightarrow> comp_rec \<Rightarrow> StepFields \<Rightarrow> StepConfig list \<Rightarrow> Compiler \<Rightarrow> Compiler comp option" where
  "compile_while_step env rec s body c =
     bind_o (Some (hidden_slots 1 c)) (\<lambda>(iterSlot, c1).
     bind_o (Some (while_condition env s c1)) (\<lambda>(condFn, c2).
       let n = int_input s ''max_iter'' 100; maxIter = (if n > 0 then n else 100) in
       compile_loop rec body ''WHILE_GATE_PLACEHOLDER'' ''WHILE_REPEAT'' WhileRepeat
         (\<lambda>gateID exitID _. instr ''WHILE_GATE'' (WhileGate condFn iterSlot maxIter (i16 (gateID + 1)) exitID)) c2))"

definition compile_call :: "Env \<Rightarrow> comp_rec \<Rightarrow> StepFields \<Rightarrow> Compiler \<Rightarrow> Compiler comp option" where
  "compile_call env rec s c =
     (if upstreamOverride c \<and> frags env (sFlowName s) \<noteq> None then bakeFlowRaw rec (frag env (sFlowName s)) c
      else case FragmentMap c (sFlowName s) of
             Some targetID \<Rightarrow>
               let targets = (case callInstrTargets c of None \<Rightarrow> Map.empty | Some m \<Rightarrow> m)
               in Some (Inr (emit_instr ''CALL'' (CallFragment targetID) (c\<lparr>callInstrTargets := Some (targets(here c \<mapsto> targetID))\<rparr>)))
           | None \<Rightarrow> if frags env (sFlowName s) \<noteq> None then bakeFlowRaw rec (frag env (sFlowName s)) c else Some (Inr c))"

definition emit_at :: "int \<Rightarrow> string \<Rightarrow> InstructionFunc \<Rightarrow> Compiler \<Rightarrow> Compiler" where
  "emit_at i name a c = c\<lparr>GlobalTable := GlobalTable c @ [\<lparr>Name = name, Action = a, StepIdx = i\<rparr>]\<rparr>"

definition compile_transaction_step :: "Env \<Rightarrow> comp_rec \<Rightarrow> StepFields \<Rightarrow> StepConfig list \<Rightarrow> Compiler \<Rightarrow> Compiler comp option" where
  "compile_transaction_step env rec s body c =
     (let (found, begun, execs, committed) = env_db env (sDataSource s); beginIdx = here c in
      bind_o (bakeFlowRaw rec body (emit_at beginIdx ''BEGIN_TX'' (BeginTx found begun execs 0) c)) (\<lambda>c1.
        let c2 = emit_at beginIdx ''COMMIT_TX'' (CommitTx committed execs) c1;
            rollbackIdx = here c2;
            c3 = emit_at beginIdx ''ROLLBACK_TX'' RollbackTx c2
        in Some (patch beginIdx \<lparr>Name = ''BEGIN_TX'', Action = BeginTx found begun execs rollbackIdx, StepIdx = beginIdx\<rparr> c3)))"

subsection \<open>Steps\<close>

definition compile_leaf :: "Env \<Rightarrow> StepFields \<Rightarrow> Compiler \<Rightarrow> Compiler comp" where
  "compile_leaf env s c =
     (if sAction s = bytes_of ''concat'' then compile_concat s c
      else if sAction s = bytes_of ''to_lower'' then compile_to_lower s c
      else if sAction s = bytes_of ''to_upper'' then compile_to_upper s c
      else if sAction s = bytes_of ''substring'' then compile_substring s c
      else if sAction s = bytes_of ''trim'' then compile_trim s c
      else if sAction s = bytes_of ''contains'' then compile_contains s c
      else if sAction s = bytes_of ''starts_with'' then compile_starts_with s c
      else if sAction s = bytes_of ''ends_with'' then compile_ends_with s c
      else if sAction s = bytes_of ''index_of'' then compile_index_of s c
      else if sAction s = bytes_of ''to_int'' then compile_to_int s c
      else if sAction s = bytes_of ''byte_length'' then compile_byte_length s c
      else if sAction s = bytes_of ''add'' then compile_add s c
      else if sAction s = bytes_of ''sub'' then compile_sub s c
      else if sAction s = bytes_of ''mul'' then compile_mul s c
      else if sAction s = bytes_of ''div'' then compile_div s c
      else if sAction s = bytes_of ''mod'' then compile_mod s c
      else if sAction s = bytes_of ''set_const'' then compile_set_const s c
      else if sAction s = bytes_of ''respond'' then compile_respond s c
      else if sAction s = bytes_of ''respond_token_count'' then compile_respond_token_count s c
      else if sAction s = bytes_of ''bind_body'' then compile_bind_body env s c
      else if sAction s = bytes_of ''bind_json'' then compile_bind_json env s c
      else if sAction s = bytes_of ''bind_header'' then compile_bind_header env s c
      else if sAction s = bytes_of ''bind_query_param'' then compile_bind_query_param s c
      else if sAction s = bytes_of ''bind_path'' then compile_bind_path s c
      else if sAction s = bytes_of ''bind_request_url'' then compile_bind_request_url s c
      else if sAction s = bytes_of ''set_request_header'' then compile_set_request_header s c
      else if sAction s = bytes_of ''remove_request_header'' then compile_remove_request_header s c
      else if sAction s = bytes_of ''rename_request_header'' then compile_rename_request_header env s c
      else if sAction s = bytes_of ''copy_header'' then compile_copy_header env s c
      else if sAction s = bytes_of ''set_request_body'' then compile_set_request_body s c
      else if sAction s = bytes_of ''extract_cookie'' then compile_extract_cookie env s c
      else if sAction s = bytes_of ''set_response_cookie'' then compile_set_response_cookie s c
      else if sAction s = bytes_of ''set_request_cookie'' then compile_set_request_cookie s c
      else if sAction s = bytes_of ''remove_response_cookie'' then compile_remove_response_cookie s c
      else if sAction s = bytes_of ''cookie_flatten'' then compile_cookie_flatten s c
      else if sAction s = bytes_of ''set_response_header'' then compile_set_response_header s c
      else if sAction s = bytes_of ''set_response_body'' then compile_set_response_body s c
      else if sAction s = bytes_of ''remove_response_header'' then compile_remove_response_header s c
      else if sAction s = bytes_of ''set_response_status'' then compile_set_response_status s c
      else if sAction s = bytes_of ''set_response_status_from_slot'' then compile_set_response_status_from_slot s c
      else if sAction s = bytes_of ''map_status'' then compile_map_status s c
      else if sAction s = bytes_of ''log_field'' then compile_log_field s c
      else if sAction s = bytes_of ''return'' then compile_return s c
      else if sAction s = bytes_of ''fail'' then compile_fail s c
      else if sAction s = bytes_of ''capture_error'' then compile_capture_error s c
      else Inl (NotModelled (sAction s), c))"

definition isControlFlowAction :: "bytes \<Rightarrow> bool" where
  "isControlFlowAction a \<longleftrightarrow>
     a \<in> set (map bytes_of [''if'', ''switch'', ''call'', ''return'', ''fail'', ''capture_error'', ''pattern_match''])"

definition wrap_last :: "(Instruction \<Rightarrow> Instruction) \<Rightarrow> Compiler \<Rightarrow> Compiler" where
  "wrap_last f c = c\<lparr>GlobalTable := butlast (GlobalTable c) @ [f (last (GlobalTable c))]\<rparr>"

definition apply_on_error :: "StepFields \<Rightarrow> Compiler \<Rightarrow> Compiler" where
  "apply_on_error s c =
     (let oe = sOnError s; table = GlobalTable c in
      if oe \<noteq> [] \<and> \<not> isControlFlowAction (sAction s) \<and> length table > 0 then
        if oe = bytes_of ''continue'' then
          wrap_last (\<lambda>i. instr (Name i @ ''|on_err:continue'') (WrapOnErrorContinue (Action i))) c
        else if HasPrefix oe (bytes_of ''jump:'') then
          (let flowName = drop 5 oe in
           case FragmentMap c flowName of
             Some errPC \<Rightarrow> wrap_last (\<lambda>i. instr (Name i @ ''|on_err:jump'') (WrapOnErrorJump (Action i) errPC)) c
           | None \<Rightarrow> c\<lparr>pendingJumps := pendingJumps c @ [(length table - 1, flowName, last table)]\<rparr>)
        else if HasPrefix oe (bytes_of ''status:'') then
          (let (n, err) = ParseInt (drop 7 oe) in
           if err then c else wrap_last (\<lambda>i. instr (Name i @ ''|on_err:status'') (WrapOnErrorStatus (Action i) n None)) c)
        else c
      else c)"

definition emit_trace :: "bytes \<Rightarrow> int \<Rightarrow> Compiler \<Rightarrow> Compiler" where
  "emit_trace name slot c =
     emit_instr (''trace_capture['' @ map (\<lambda>b. char_of (unat b)) name @ '']'') (TraceCaptureStep slot name) c"

definition observe :: "StepFields \<Rightarrow> Compiler \<Rightarrow> Compiler" where
  "observe s c =
     (if isControlFlowAction (sAction s) then c
      else
        let out = (if sAs s = [] then sDestination s else sAs s);
            c1 = (case slotMap c out of
                    Some slot \<Rightarrow>
                      if out \<noteq> [] then
                        let c' = (if sLogAs s \<noteq> []
                                  then emit_instr ''LOG_FIELD'' (LogFieldStep (map (\<lambda>b. char_of (unat b)) (sLogAs s)) slot) c else c)
                        in if sTraceCapture s then emit_trace out slot c' else c'
                      else c
                  | None \<Rightarrow> c)
        in fold (\<lambda>v c'. if v = [] \<or> (sTraceCapture s \<and> v = out) then c'
                        else case slotMap c' v of Some slot \<Rightarrow> emit_trace v slot c' | None \<Rightarrow> c') (sTraceVars s) c1)"

definition compile_body :: "nat \<Rightarrow> Env \<Rightarrow> comp_rec \<Rightarrow> StepConfig \<Rightarrow> Compiler \<Rightarrow> Compiler comp option" where
  "compile_body n env rec step c =
     (let s = cfg step; a = sAction s in
      bind_o
        (if a = bytes_of ''if'' then compile_if env rec s c
         else if a = bytes_of ''switch'' then compile_switch n env rec s c
         else if a = bytes_of ''foreach'' then compile_foreach_step env rec s (Do step) c
         else if a = bytes_of ''while'' then compile_while_step env rec s (Do step) c
         else if a = bytes_of ''call'' then compile_call env rec s c
         else if a = bytes_of ''transaction'' then compile_transaction_step env rec s (Do step) c
         else Some (compile_leaf env s c))
        (\<lambda>c1. Some (Inr (observe s (apply_on_error s c1)))))"

primrec compileStep :: "nat \<Rightarrow> Env \<Rightarrow> comp_rec" where
  "compileStep 0 env = (\<lambda>step c. None)"
| "compileStep (Suc n) env = compile_body n env (compileStep n env)"

subsection \<open>Whole flows\<close>

fun stream_steps :: "nat \<Rightarrow> Env \<Rightarrow> StepConfig list \<Rightarrow> bytes list \<Rightarrow> (bool \<times> bytes list) option"
  and stream_frags :: "nat \<Rightarrow> Env \<Rightarrow> bytes list \<Rightarrow> bytes list \<Rightarrow> (bool \<times> bytes list) option" where
  \<comment> \<open>whether no step stands against streaming, and the fragments visited\<close>
  "stream_steps 0 env steps visited = None"
| "stream_steps (Suc n) env [] visited = Some (True, visited)"
| "stream_steps (Suc n) env (Step s body # steps) visited =
     (if sAction s = bytes_of ''set_response_body'' \<or> sAction s = bytes_of ''http_call'' \<and> sResponseBodyVar s \<noteq> []
      then Some (False, visited)
      else Option.bind (stream_frags n env ([sThen s, sElse s, sFlowName s] @ map snd (sCases s)) visited) (\<lambda>(ok1, v1).
           if \<not> ok1 then Some (False, v1)
           else Option.bind (stream_steps n env body v1) (\<lambda>(ok2, v2).
                if \<not> ok2 then Some (False, v2) else stream_steps n env steps v2)))"
| "stream_frags 0 env refs visited = None"
| "stream_frags (Suc n) env [] visited = Some (True, visited)"
| "stream_frags (Suc n) env (ref # refs) visited =
     (if ref = [] \<or> ref \<in> set visited \<or> frags env ref = None then stream_frags n env refs visited
      else Option.bind (stream_steps n env (frag env ref) (ref # visited)) (\<lambda>(ok1, v1).
           if \<not> ok1 then Some (False, v1) else stream_frags n env refs v1))"

definition canStreamResponseBodyWithFragments :: "nat \<Rightarrow> Env \<Rightarrow> StepConfig list \<Rightarrow> bool option" where
  "canStreamResponseBodyWithFragments n env steps =
     (if \<exists>step \<in> set steps. sAction (cfg step) = bytes_of ''set_response_body'' then Some False
      else map_option fst (stream_steps n env steps []))"

definition dep_at :: "bytes \<Rightarrow> (bytes \<times> bytes) option" where
  \<comment> \<open>a match of \<open>(header|query|path|host)\.([a-zA-Z0-9_-]+)\<close> at the start of the text: its two groups\<close>
  "dep_at s =
     (case find (\<lambda>src. HasPrefix s (src @ [0x2E])) (map bytes_of [''header'', ''query'', ''path'', ''host'']) of
        None \<Rightarrow> None
      | Some src \<Rightarrow>
          let key = takeWhile (\<lambda>c. 65 \<le> c \<and> c \<le> 90 \<or> 97 \<le> c \<and> c \<le> 122 \<or> is_digit c \<or> c = 0x5F \<or> c = 0x2D) (drop (length src + 1) s)
          in if key = [] then None else Some (src, key))"

function dep_matches :: "bytes \<Rightarrow> (bytes \<times> bytes) list" where
  \<comment> \<open>\<open>FindAllStringSubmatch\<close>: the matches from left to right\<close>
  "dep_matches s =
     (if s = [] then []
      else case dep_at s of
             None \<Rightarrow> dep_matches (tl s)
           | Some (src, key) \<Rightarrow> (src, key) # dep_matches (drop (length src + 1 + length key) s))"
  by pat_completeness auto
termination
  by (relation "measure length") auto

declare dep_matches.simps [simp del]

type_synonym dependencies = "(bytes \<times> bytes) list"
  \<comment> \<open>source and key; the identifier is the two with a dot between\<close>

definition add_dep :: "bytes \<times> bytes \<Rightarrow> dependencies \<Rightarrow> dependencies" where
  "add_dep d deps = (if d \<in> set deps then deps else deps @ [d])"

definition step_deps :: "StepFields \<Rightarrow> dependencies" where
  "step_deps s = dep_matches (Join_byte 0x20 [sCondition s, sKeyIdentifier s, sUrlVar s, sSource s, sAs s, sVariable s])"

fun discover_steps :: "nat \<Rightarrow> Env \<Rightarrow> StepConfig list \<Rightarrow> dependencies \<times> bytes list \<Rightarrow> (dependencies \<times> bytes list) option"
  and discover_frags :: "nat \<Rightarrow> Env \<Rightarrow> bytes list \<Rightarrow> dependencies \<times> bytes list \<Rightarrow> (dependencies \<times> bytes list) option" where
  "discover_steps 0 env steps st = None"
| "discover_steps (Suc n) env [] st = Some st"
| "discover_steps (Suc n) env (Step s body # steps) (deps, visited) =
     Option.bind (discover_steps n env body (fold add_dep (step_deps s) deps, visited)) (\<lambda>st1.
     Option.bind (discover_frags n env ([sFlowName s, sThen s, sElse s] @ map snd (sCases s)) st1) (\<lambda>st2.
       discover_steps n env steps st2))"
| "discover_frags 0 env refs st = None"
| "discover_frags (Suc n) env [] st = Some st"
| "discover_frags (Suc n) env (ref # refs) (deps, visited) =
     (if ref = [] \<or> ref \<in> set visited \<or> frags env ref = None then discover_frags n env refs (deps, visited)
      else Option.bind (discover_steps n env (frag env ref) (deps, ref # visited)) (discover_frags n env refs))"

definition discoverDependenciesWithFragments :: "nat \<Rightarrow> Env \<Rightarrow> StepConfig list \<Rightarrow> dependencies option" where
  "discoverDependenciesWithFragments n env flow = map_option fst (discover_steps n env flow ([], []))"

fun bind_deps :: "Env \<Rightarrow> dependencies \<Rightarrow> Compiler \<Rightarrow> Compiler comp" where
  "bind_deps env [] c = Inr c"
| "bind_deps env ((src, key) # deps) c =
     with_slot (src @ [0x2E] @ key) (\<lambda>slot c1.
       bind_deps env deps
         (if src = bytes_of ''header'' then emit_instr ''BIND_HEADER'' (BindHeader (env_request env) key slot) c1
          else if src = bytes_of ''query'' then emit_instr ''BIND_QUERY'' (BindQuery key slot) c1
          else c1)) c"

definition CompileExecutable :: "nat \<Rightarrow> Env \<Rightarrow> StepConfig list \<Rightarrow> Compiler \<Rightarrow> Compiler comp option" where
  \<comment> \<open>for an API without rate-limit policies of its own\<close>
  "CompileExecutable n env flow c =
     Option.bind (canStreamResponseBodyWithFragments n env flow) (\<lambda>stream.
     Option.bind (discoverDependenciesWithFragments n env flow) (\<lambda>deps.
       bind_o (Some (bind_deps env deps
           (emit_instr ''SET_STREAM_RESPONSE_BODY'' (SetStreamResponseBodyStep stream)
              (resetSlots (c\<lparr>GlobalTable := [], callInstrTargets := Some Map.empty\<rparr>)))))
         (bakeFlow n env (compileStep n env) flow)))"

definition Compile :: "nat \<Rightarrow> Env \<Rightarrow> StepConfig list \<Rightarrow> Compiler \<Rightarrow> Compiler comp option" where
  \<comment> \<open>a flow of its own, without fragments and outside the event mode\<close>
  "Compile n env flow c =
     (let env' = env\<lparr>frags := Map.empty\<rparr> in
      Option.bind (canStreamResponseBodyWithFragments n env' flow) (\<lambda>stream.
        bakeFlow n env' (compileStep n env') flow
          (emit_instr ''SET_STREAM_RESPONSE_BODY'' (SetStreamResponseBodyStep stream) (resetSlots (c\<lparr>GlobalTable := []\<rparr>)))))"

fun resolve_jumps :: "(nat \<times> bytes \<times> Instruction) list \<Rightarrow> Compiler \<Rightarrow> Compiler comp" where
  "resolve_jumps [] c = Inr (c\<lparr>pendingJumps := []\<rparr>)"
| "resolve_jumps ((i, flowName, inner) # js) c =
     (case FragmentMap c flowName of
        None \<Rightarrow> Inl (UnknownFlow flowName, c)
      | Some errPC \<Rightarrow>
          bind_e (patch (int i) (instr (Name inner @ ''|on_err:jump'') (WrapOnErrorJump (Action inner) errPC)) c) (resolve_jumps js))"

definition resolvePendingJumps :: "Compiler \<Rightarrow> Compiler comp" where
  "resolvePendingJumps c = resolve_jumps (pendingJumps c) c"

fun bake_fragments :: "nat \<Rightarrow> Env \<Rightarrow> (bytes \<times> StepConfig list) list \<Rightarrow> Compiler \<Rightarrow> Compiler comp option" where
  \<comment> \<open>the first loop of \<open>BakeAll\<close>: every fragment, ended by a return\<close>
  "bake_fragments n env [] c = Some (Inr c)"
| "bake_fragments n env ((name, flow) # rest) c =
     bind_o (bakeFlow n env (compileStep n env) flow (resetSlots (c\<lparr>FragmentMap := (FragmentMap c)(name \<mapsto> here c)\<rparr>))) (\<lambda>c1.
       bake_fragments n env rest (emit_at (-1) ''RET'' newReturnStep c1))"

end
