(* ===== verification/Rah_Compiler_Laws.thy ===== *)
theory Rah_Compiler_Laws
  imports Rah_Compiler Rah_Flow Rah_Steps_Laws
begin

text \<open>
  Laws of the compiler's slot allocator: whatever is compiled, no two variables in use ever have one slot.
\<close>

subsection \<open>The slot allocator\<close>

definition slots_inv :: "Compiler \<Rightarrow> bool" where
  \<comment> \<open>variables have slots of their own, none of them on the free list, all below the next one to be handed out\<close>
  "slots_inv c \<longleftrightarrow> inj_on (slotMap c) (dom (slotMap c)) \<and> distinct (freeSlots c) \<and> ran (slotMap c) \<inter> set (freeSlots c) = {} \<and>
     (\<forall>i \<in> ran (slotMap c) \<union> set (freeSlots c). 0 \<le> i \<and> i < nextSlot c) \<and> 0 \<le> nextSlot c \<and> nextSlot c \<le> 48"

lemma slots_inv_range: "slots_inv c \<Longrightarrow> slotMap c x = Some i \<Longrightarrow> byte_slot_no i"
proof -
  assume "slots_inv c" "slotMap c x = Some i"
  then have "i \<in> ran (slotMap c) \<union> set (freeSlots c)" "\<forall>i \<in> ran (slotMap c) \<union> set (freeSlots c). 0 \<le> i \<and> i < nextSlot c"
    "nextSlot c \<le> 48"
    by (simp_all add: slots_inv_def ranI)
  then show ?thesis by (meson order_less_le_trans)
qed

lemma slots_inv_inj: "slots_inv c \<Longrightarrow> slotMap c x = Some i \<Longrightarrow> slotMap c y = Some i \<Longrightarrow> x = y"
  unfolding slots_inv_def by (metis domI inj_on_def)

lemma slots_inv_cong: "slotMap c' = slotMap c \<Longrightarrow> freeSlots c' = freeSlots c \<Longrightarrow> nextSlot c' = nextSlot c \<Longrightarrow> slots_inv c' = slots_inv c"
  by (simp add: slots_inv_def)

lemma slots_inv_alloc:
  assumes "slots_inv c" "slotMap c x = None" "i \<notin> ran (slotMap c)" "set fs \<subseteq> set (freeSlots c)" "distinct fs" "i \<notin> set fs"
    "0 \<le> i" "i < n" "nextSlot c \<le> n" "n \<le> 48"
  shows "slots_inv (c\<lparr>slotMap := (slotMap c)(x \<mapsto> i), freeSlots := fs, nextSlot := n\<rparr>)"
proof -
  have r: "ran ((slotMap c)(x \<mapsto> i)) = insert i (ran (slotMap c))" using assms(2) by simp
  have "inj_on ((slotMap c)(x \<mapsto> i)) (dom ((slotMap c)(x \<mapsto> i)))"
    using assms(1-3) unfolding slots_inv_def inj_on_def by (auto simp: ran_def)
  moreover have "0 \<le> j \<and> j < n" if "j \<in> ran (slotMap c) \<union> set fs" for j
    using assms(1,4,9) that unfolding slots_inv_def by (meson UnCI UnE order_less_le_trans subsetD)
  moreover have "ran (slotMap c) \<inter> set fs = {}" "0 \<le> n" using assms(1,4,7,8) unfolding slots_inv_def by (blast, simp)
  ultimately show ?thesis
    using assms(5-8,10) r unfolding slots_inv_def by simp
qed

lemma getSlot_cases:
  assumes "slots_inv c" "getSlot x c = Inr (i, c')"
  obtains (known) "slotMap c x = Some i" "c' = c"
  | (new) "slotMap c x = None" "i \<notin> ran (slotMap c)" "slotMap c' = (slotMap c)(x \<mapsto> i)" "GlobalTable c' = GlobalTable c" "slots_inv c'"
proof (cases "slotMap c x")
  case (Some j)
  then show ?thesis by - (rule known, use assms(2) in \<open>simp_all add: getSlot_def\<close>)
next
  case None
  show ?thesis
  proof (cases "freeSlots c = []")
    case True
    then have c': "i = nextSlot c" "c' = c\<lparr>slotMap := (slotMap c)(x \<mapsto> i), freeSlots := freeSlots c, nextSlot := nextSlot c + 1\<rparr>" "nextSlot c < 48"
      using assms(2) None by (auto simp: getSlot_def BaseByteSlots_def split: if_splits)
    have "i \<notin> ran (slotMap c)" using assms(1) c'(1) unfolding slots_inv_def by blast
    moreover have "slots_inv c'"
      unfolding c'(2) by (rule slots_inv_alloc [OF assms(1) None calculation]) (use assms(1) c' True in \<open>auto simp: slots_inv_def\<close>)
    ultimately show ?thesis by - (rule new [OF None], use c' in simp_all)
  next
    case False
    then have c': "i = last (freeSlots c)"
        "c' = c\<lparr>slotMap := (slotMap c)(x \<mapsto> i), freeSlots := butlast (freeSlots c), nextSlot := nextSlot c\<rparr>"
      using assms(2) None by (auto simp: getSlot_def Let_def)
    have l: "i \<in> set (freeSlots c)" "i \<notin> set (butlast (freeSlots c))" "distinct (butlast (freeSlots c))"
      using assms(1) False c'(1) append_butlast_last_id [OF False] unfolding slots_inv_def
      by (metis last_in_set, metis distinct_append disjoint_insert(1) list.simps(15), simp add: distinct_butlast)
    have "i \<notin> ran (slotMap c)" using assms(1) l unfolding slots_inv_def by blast
    moreover have "slots_inv c'"
      unfolding c'(2)
      by (rule slots_inv_alloc [OF assms(1) None calculation _ l(3,2)]) (use assms(1) l in \<open>auto simp: slots_inv_def dest: in_set_butlastD\<close>)
    ultimately show ?thesis by - (rule new [OF None], use c' in simp_all)
  qed
qed

lemma slots_inv_free:
  assumes "slots_inv c" "slotMap c x = Some i"
  shows "slots_inv (c\<lparr>freeSlots := freeSlots c @ [i], slotMap := (slotMap c)(x := None)\<rparr>)"
proof -
  have "i \<notin> ran ((slotMap c)(x := None))" using slots_inv_inj [OF assms] by (auto simp: ran_def)
  moreover have "ran ((slotMap c)(x := None)) \<subseteq> ran (slotMap c)" by (auto simp: ran_def)
  moreover have "i \<in> ran (slotMap c)" using assms(2) by (rule ranI)
  ultimately show ?thesis
    using assms(1) unfolding slots_inv_def by (auto simp: inj_on_def)
qed

lemma slots_inv_release: "slots_inv c \<Longrightarrow> slots_inv (release i lu c)"
  by (induction i lu c rule: release.induct) (auto simp: slots_inv_free split: option.splits)

definition keeps :: "(Compiler \<Rightarrow> Compiler comp) \<Rightarrow> bool" where
  "keeps f \<longleftrightarrow> (\<forall>c c'. slots_inv c \<longrightarrow> f c = Inr c' \<longrightarrow> slots_inv c')"

named_theorems keeps_intros

lemma slots_inv_emit [simp]: "slots_inv (emit_instr n a c) = slots_inv c" "slots_inv (emit_at i n a c) = slots_inv c"
  by (simp_all add: emit_instr_def emit_at_def slots_inv_def)

lemma keeps_emit [keeps_intros]: "keeps (\<lambda>c. Inr (emit_instr n a c))" "keeps (\<lambda>c. Inr (emit_instr n (g c) c))"
  by (simp_all add: keeps_def)

lemma keeps_Inl [keeps_intros]: "keeps (\<lambda>c. Inl (g c))"
  by (simp add: keeps_def)

lemma keeps_if [keeps_intros]: "keeps f \<Longrightarrow> keeps g \<Longrightarrow> keeps (\<lambda>c. if P c then f c else g c)"
  unfolding keeps_def by metis

lemma keeps_with_slot [keeps_intros]:
  assumes "\<And>i. keeps (k i)" shows "keeps (with_slot x k)"
  unfolding keeps_def
proof (intro allI impI)
  fix c c' assume c: "slots_inv c" "with_slot x k c = Inr c'"
  then obtain i c1 where g: "getSlot x c = Inr (i, c1)" "k i c1 = Inr c'"
    by (auto simp: with_slot_def bind_e_def split: sum.splits)
  then have "slots_inv c1" using c(1) by (metis getSlot_cases)
  then show "slots_inv c'" using assms g(2) unfolding keeps_def by blast
qed

lemma keeps_helpers [keeps_intros]: "keeps (src_as n f2 s)" "keeps (three_slots n f3 s)" "keeps (dest_step n f1 s)" "keeps (source_step n f1 s)"
  by (auto simp: src_as_def three_slots_def dest_step_def source_step_def intro!: keeps_intros)

lemma keeps_literal [keeps_intros]:
  assumes "\<And>i. keeps (k i)" shows "keeps (literal_slot s k)"
proof -
  have "keeps (\<lambda>c. k i (emit_instr n a c))" for i n a using assms unfolding keeps_def by (metis slots_inv_emit(1))
  then show ?thesis unfolding literal_slot_def [abs_def] by (intro keeps_intros assms)
qed

lemma keeps_cookies: "slots_inv c \<Longrightarrow> cookie_bindings xs c = Inr (bs, c') \<Longrightarrow> slots_inv c'"
proof (induction xs c arbitrary: bs rule: cookie_bindings.induct)
  case (2 name var xs c)
  then obtain i c1 bs' where g: "getSlot var c = Inr (i, c1)" "cookie_bindings xs c1 = Inr (bs', c')"
    by (auto simp: bind_e_def split: sum.splits)
  have "slots_inv c1" using 2(2) g(1) by (metis getSlot_cases)
  then show ?case using 2(1) g by blast
qed simp

lemma keeps_cookie_flatten [keeps_intros]: "keeps (compile_cookie_flatten s)"
  unfolding compile_cookie_flatten_def
  by (intro keeps_with_slot) (auto simp: keeps_def bind_e_def split: sum.splits dest: keeps_cookies)

lemma keeps_token_count [keeps_intros]: "keeps (compile_respond_token_count s)"
  unfolding keeps_def
proof (intro allI impI)
  fix c c' assume c: "slots_inv c" "compile_respond_token_count s c = Inr c'"
  have "slots_inv c1" if "getSlot x c = Inr (i, c1)" for x i c1 using c(1) that by (metis getSlot_cases)
  moreover have "slots_inv c1" if "getSlot x c = Inl (e, c1)" for x e c1 using c(1) that by (auto simp: getSlot_def Let_def split: option.splits if_splits)
  ultimately show "slots_inv c'" using c
    by (auto simp: compile_respond_token_count_def Let_def split: sum.splits if_splits prod.splits)
qed

lemma keeps_map_status [keeps_intros]: "keeps (compile_map_status s)"
  unfolding compile_map_status_def
  by (intro keeps_with_slot) (auto simp: keeps_def bind_e_def Let_def split: sum.splits if_splits prod.splits)

lemma keeps_bind_json [keeps_intros]: "keeps (compile_bind_json env s)"
proof -
  have "keeps (\<lambda>c. if p = [] then Inl (MissingField, c) else with_slot (sAs s) (\<lambda>dest c. Inr (emit_instr n (f dest) c)) c)" for p n f
    by (intro keeps_intros)
  then show ?thesis unfolding compile_bind_json_def Let_def by (intro keeps_with_slot)
qed

lemma keeps_capture_error [keeps_intros]: "keeps (compile_capture_error s)"
proof -
  have "keeps (with_slot (sAs s) (\<lambda>msg c1. Inr (emit_instr ''capture_error'' (CaptureError k msg) c1)))" for k
    by (intro keeps_intros)
  then show ?thesis unfolding keeps_def compile_capture_error_def Let_def by (auto split: if_splits)
qed

lemma keeps_other [keeps_intros]: "keeps (compile_respond s)" "keeps (compile_remove_request_header s)"
  "keeps (compile_rename_request_header env s)" "keeps (compile_copy_header env s)" "keeps (compile_remove_response_cookie s)"
  "keeps (compile_remove_response_header s)" "keeps (compile_set_response_status s)" "keeps (compile_return s)" "keeps (compile_fail s)"
  "keeps (compile_set_response_header s)" "keeps (compile_set_response_body s)"
  by (simp_all add: compile_respond_def compile_remove_request_header_def [abs_def] compile_rename_request_header_def [abs_def]
      compile_copy_header_def [abs_def] compile_remove_response_cookie_def [abs_def] compile_remove_response_header_def [abs_def]
      compile_set_response_status_def [abs_def] compile_return_def [abs_def] compile_fail_def [abs_def]
      compile_set_response_header_def compile_set_response_body_def Let_def keeps_intros)

lemmas leaf_defs =
  compile_concat_def compile_to_lower_def compile_to_upper_def compile_substring_def compile_trim_def compile_contains_def
  compile_starts_with_def compile_ends_with_def compile_index_of_def compile_to_int_def compile_byte_length_def compile_add_def
  compile_sub_def compile_mul_def compile_div_def compile_mod_def compile_set_const_def compile_bind_body_def compile_bind_header_def
  compile_bind_query_param_def compile_bind_path_def compile_bind_request_url_def compile_set_request_header_def
  compile_set_request_body_def compile_extract_cookie_def compile_set_response_cookie_def compile_set_request_cookie_def
  compile_set_response_status_from_slot_def compile_log_field_def

lemma keeps_leaf: "keeps (compile_leaf env s)"
  unfolding compile_leaf_def [abs_def] leaf_defs by (intro keeps_intros)

definition keeps_o :: "(Compiler \<Rightarrow> Compiler comp option) \<Rightarrow> bool" where
  "keeps_o f \<longleftrightarrow> (\<forall>c c'. slots_inv c \<longrightarrow> f c = Some (Inr c') \<longrightarrow> slots_inv c')"

lemma keeps_oD: "keeps_o f \<Longrightarrow> f c = Some (Inr c') \<Longrightarrow> slots_inv c \<Longrightarrow> slots_inv c'"
  unfolding keeps_o_def by blast

lemma bind_o_SomeE:
  assumes "bind_o m f = Some (Inr y)" obtains x where "m = Some (Inr x)" "f x = Some (Inr y)"
  using assms by (auto simp: bind_o_def split: option.splits sum.splits)

lemma keeps_bakeFlowRaw: "(\<And>step. keeps_o (rec step)) \<Longrightarrow> keeps_o (bakeFlowRaw rec flow)"
proof (induction flow)
  case (Cons step flow)
  then show ?case unfolding keeps_o_def [of "bakeFlowRaw rec (step # flow)"] by (auto elim!: bind_o_SomeE dest: keeps_oD)
qed (simp add: keeps_o_def)

lemma slots_inv_tag [simp]: "slots_inv (tag_steps k i c) = slots_inv c"
  by (simp add: tag_steps_def slots_inv_def)

lemma keeps_bake_steps: "(\<And>step. keeps_o (rec step)) \<Longrightarrow> keeps_o (bake_steps env rec lu i flow)"
proof (induction flow arbitrary: i)
  case (Cons step flow)
  have "slots_inv c'" if c: "slots_inv c" "bake_steps env rec lu i (step # flow) c = Some (Inr c')" for c c'
  proof -
    obtain c1 where c1: "rec step c = Some (Inr c1)" "bake_steps env rec lu (Suc i) flow
        (releaseDeadSlots env i lu (tag_steps (length (GlobalTable c)) (i16 (int i)) c1)) = Some (Inr c')"
      using c(2) by (auto elim: bind_o_SomeE)
    have "slots_inv c1" using keeps_oD [OF Cons.prems c1(1) c(1)] .
    then show ?thesis
      by (intro keeps_oD [OF Cons.IH [OF Cons.prems] c1(2)]) (simp add: releaseDeadSlots_def slots_inv_release)
  qed
  then show ?case unfolding keeps_o_def by blast
qed (simp add: keeps_o_def)

lemma keeps_bakeFlow: "(\<And>step. keeps_o (rec step)) \<Longrightarrow> keeps_o (bakeFlow n env rec flow)"
  unfolding bakeFlow_def [abs_def] by (cases "computeLastUse n env 0 flow []") (simp_all add: keeps_bake_steps keeps_o_def [of "\<lambda>c. None"])

lemma simulateBake_slots: "simulateBake rec flow c = Some (k, c') \<Longrightarrow> slots_inv c' = slots_inv c"
  by (auto simp: simulateBake_def Let_def slots_inv_def split: if_splits)

lemma slots_inv_update [simp]: "slots_inv (c\<lparr>GlobalTable := t\<rparr>) = slots_inv c" "slots_inv (c\<lparr>callInstrTargets := m\<rparr>) = slots_inv c"
  "slots_inv (c\<lparr>pendingJumps := p\<rparr>) = slots_inv c"
  by (simp_all add: slots_inv_def)

lemma keeps_if_step:
  assumes rec: "\<And>step. keeps_o (rec step)" shows "keeps_o (compile_if env rec s)"
  unfolding keeps_o_def
proof (intro allI impI)
  fix c c' assume c: "slots_inv c" "compile_if env rec s c = Some (Inr c')"
  then obtain k1 c1 k2 c2 c3 g j where s: "simulateBake rec (frag env (sThen s)) c = Some (k1, c1)"
      "simulateBake rec (frag env (sElse s)) c1 = Some (k2, c2)"
      "bakeFlowRaw rec (frag env (sThen s)) (c2\<lparr>GlobalTable := GlobalTable c2 @ [g]\<rparr>) = Some (Inr c3)"
      "bakeFlowRaw rec (frag env (sElse s)) (emit_instr ''GOTO'' j c3) = Some (Inr c')"
    by (auto simp: compile_if_def Let_def split: option.splits elim!: bind_o_SomeE)
  have "slots_inv c2" using c(1) simulateBake_slots [OF s(1)] simulateBake_slots [OF s(2)] by simp
  then have "slots_inv c3" using keeps_oD [OF keeps_bakeFlowRaw [OF rec] s(3)] by simp
  then show "slots_inv c'" using keeps_oD [OF keeps_bakeFlowRaw [OF rec] s(4)] by simp
qed

lemma patch_slots: "patch i ins c = Inr c' \<Longrightarrow> slots_inv c' = slots_inv c"
  by (auto simp: patch_def split: if_splits)

lemma keeps_cases:
  assumes rec: "\<And>step. keeps_o (rec step)"
  shows "slots_inv c \<Longrightarrow> compile_cases n env rec cs jt c = Some (Inr (jt', c')) \<Longrightarrow> slots_inv c'"
proof (induction cs arbitrary: jt c)
  case (Cons vf cs)
  obtain v fragName where vf: "vf = (v, fragName)" by fastforce
  obtain c1 where c1: "bakeFlow n env rec (frag env fragName) c = Some (Inr c1)"
      "compile_cases n env rec cs (jt(v \<mapsto> here c)) (emit_instr ''BREAK'' placeholder c1) = Some (Inr (jt', c'))"
    using Cons.prems(2) vf by (auto elim: bind_o_SomeE)
  show ?case
    by (rule Cons.IH [OF _ c1(2)]) (use keeps_oD [OF keeps_bakeFlow [of rec n env, OF rec] c1(1)] Cons.prems(1) in simp)
qed simp

lemma getSlot_keeps: "getSlot x c = Inr (i, c') \<Longrightarrow> slots_inv c \<Longrightarrow> slots_inv c'"
  by (metis getSlot_cases)

lemma keeps_switch:
  assumes rec: "\<And>step. keeps_o (rec step)" shows "keeps_o (compile_switch n env rec s)"
  unfolding keeps_o_def
proof (intro allI impI)
  fix c c' assume c: "slots_inv c" "compile_switch n env rec s c = Some (Inr c')"
  then obtain slot c1 jt c2 i g c3 where s: "getSlot (sAs s) c = Inr (slot, c1)"
      "compile_cases n env rec (sCases s) Map.empty (emit_instr ''SWITCH_DISPATCH'' placeholder c1) = Some (Inr (jt, c2))"
      "patch i g c2 = Inr c3" "c' = linkBreaks (here c2) c3"
    by (auto simp: compile_switch_def Let_def elim!: bind_o_SomeE)
  have "slots_inv (emit_instr ''SWITCH_DISPATCH'' placeholder c1)" using getSlot_keeps [OF s(1) c(1)] by simp
  then have "slots_inv c2" using keeps_cases [OF rec _ s(2)] by blast
  then show "slots_inv c'" using patch_slots [OF s(3)] s(4) by (simp add: linkBreaks_def)
qed

lemma hidden_slots_keeps: "hidden_slots k c = Inr (i, c') \<Longrightarrow> 0 < k \<Longrightarrow> slots_inv c \<Longrightarrow> slots_inv c'"
proof -
  assume h: "hidden_slots k c = Inr (i, c')" "0 < k" "slots_inv c"
  then have c': "c' = c\<lparr>nextSlot := nextSlot c + k\<rparr>" "nextSlot c + k \<le> 32"
    by (auto simp: hidden_slots_def BaseIntSlots_def ExtIntSlots_def split: if_splits)
  have "0 \<le> j \<and> j < nextSlot c + k" if "j \<in> ran (slotMap c) \<union> set (freeSlots c)" for j
    using h(2,3) that unfolding slots_inv_def by (meson less_add_same_cancel1 order_less_trans)
  then show ?thesis using h c' by (simp add: slots_inv_def)
qed

lemma keeps_loop:
  assumes rec: "\<And>step. keeps_o (rec step)" shows "keeps_o (compile_loop rec body p r f g)"
  unfolding keeps_o_def
proof (intro allI impI)
  fix c c' assume c: "slots_inv c" "compile_loop rec body p r f g c = Some (Inr c')"
  then obtain c1 i ins where s: "bakeFlowRaw rec body (emit_instr p placeholder c) = Some (Inr c1)"
      "patch i ins (emit_instr r (f (here c)) c1) = Inr c'"
    by (auto simp: compile_loop_def Let_def elim!: bind_o_SomeE)
  have "slots_inv c1" using keeps_oD [OF keeps_bakeFlowRaw [of rec, OF rec] s(1)] c(1) by simp
  then show "slots_inv c'" using patch_slots [OF s(2)] by simp
qed

lemma keeps_foreach: "(\<And>step. keeps_o (rec step)) \<Longrightarrow> keeps_o (compile_foreach_step env rec s body)"
  unfolding keeps_o_def [of "compile_foreach_step env rec s body"] compile_foreach_step_def
  by (auto elim!: bind_o_SomeE keeps_oD [OF keeps_loop, rotated]) (metis getSlot_keeps hidden_slots_keeps zero_less_numeral)

lemma while_condition_keeps: "while_condition env s c = Inr (f, c') \<Longrightarrow> slots_inv c \<Longrightarrow> slots_inv c'"
  by (auto simp: while_condition_def bind_e_def getBoolSlot_def intro: getSlot_keeps split: if_splits option.splits sum.splits)

lemma keeps_while: "(\<And>step. keeps_o (rec step)) \<Longrightarrow> keeps_o (compile_while_step env rec s body)"
  unfolding keeps_o_def [of "compile_while_step env rec s body"] compile_while_step_def Let_def
  by (auto elim!: bind_o_SomeE keeps_oD [OF keeps_loop, rotated]) (metis while_condition_keeps hidden_slots_keeps zero_less_one)+

lemma keeps_call: "(\<And>step. keeps_o (rec step)) \<Longrightarrow> keeps_o (compile_call env rec s)"
  unfolding keeps_o_def [of "compile_call env rec s"] compile_call_def Let_def
  by (auto split: if_splits option.splits intro: keeps_oD [OF keeps_bakeFlowRaw])

lemma keeps_transaction:
  assumes rec: "\<And>step. keeps_o (rec step)" shows "keeps_o (compile_transaction_step env rec s body)"
  unfolding keeps_o_def
proof (intro allI impI)
  fix c c' assume c: "slots_inv c" "compile_transaction_step env rec s body c = Some (Inr c')"
  obtain found begun execs committed where db: "env_db env (sDataSource s) = (found, begun, execs, committed)"
    by (cases "env_db env (sDataSource s)") auto
  obtain c1 i ins x1 x2 where s: "bakeFlowRaw rec body (emit_at (here c) ''BEGIN_TX'' (BeginTx found begun execs 0) c) = Some (Inr c1)"
      "patch i ins (emit_at (here c) ''ROLLBACK_TX'' x1 (emit_at (here c) ''COMMIT_TX'' x2 c1)) = Inr c'"
    using c(2) db by (auto simp: compile_transaction_step_def Let_def elim!: bind_o_SomeE)
  have "slots_inv c1" using keeps_oD [OF keeps_bakeFlowRaw [of rec, OF rec] s(1)] c(1) by simp
  then show "slots_inv c'" using patch_slots [OF s(2)] by simp
qed

lemma slots_inv_wrap [simp]: "slots_inv (wrap_last f c) = slots_inv c"
  by (simp add: wrap_last_def)

lemma slots_inv_on_error [simp]: "slots_inv (apply_on_error s c) = slots_inv c"
  by (simp add: apply_on_error_def Let_def split: option.split prod.split)

lemma slots_inv_trace [simp]: "slots_inv (emit_trace v i c) = slots_inv c"
  by (simp add: emit_trace_def)

lemma slots_inv_observe [simp]: "slots_inv (observe s c) = slots_inv c"
proof -
  have "slots_inv (fold (\<lambda>v c'. if v = [] \<or> (b \<and> v = out) then c' else case slotMap c' v of Some slot \<Rightarrow> emit_trace v slot c' | None \<Rightarrow> c') vs c)
    = slots_inv c" for b out vs c
    by (induction vs arbitrary: c) (auto split: option.split)
  then show ?thesis by (simp add: observe_def Let_def split: option.split)
qed

lemma leaf_keeps: "compile_leaf env s c = Inr c' \<Longrightarrow> slots_inv c \<Longrightarrow> slots_inv c'"
  using keeps_leaf unfolding keeps_def by blast

lemma keeps_compileStep: "keeps_o (compileStep n env step)"
proof (induction n arbitrary: step)
  case (Suc n)
  have "slots_inv c'" if c: "slots_inv c" "compileStep (Suc n) env step c = Some (Inr c')" for c c'
  proof -
    let ?s = "cfg step" and ?rec = "compileStep n env"
    obtain c1 where c1: "c' = observe ?s (apply_on_error ?s c1)" "compile_if env ?rec ?s c = Some (Inr c1) \<or>
        compile_switch n env ?rec ?s c = Some (Inr c1) \<or> compile_foreach_step env ?rec ?s (Do step) c = Some (Inr c1) \<or>
        compile_while_step env ?rec ?s (Do step) c = Some (Inr c1) \<or> compile_call env ?rec ?s c = Some (Inr c1) \<or>
        compile_transaction_step env ?rec ?s (Do step) c = Some (Inr c1) \<or> compile_leaf env ?s c = Inr c1"
      using c(2) by (auto simp: compile_body_def Let_def elim!: bind_o_SomeE split: if_splits)
    have "slots_inv c1"
      using c1(2) c(1) keeps_oD [OF keeps_if_step [of ?rec, OF Suc]] keeps_oD [OF keeps_switch [of ?rec, OF Suc]]
        keeps_oD [OF keeps_foreach [of ?rec, OF Suc]] keeps_oD [OF keeps_while [of ?rec, OF Suc]]
        keeps_oD [OF keeps_call [of ?rec, OF Suc]] keeps_oD [OF keeps_transaction [of ?rec, OF Suc]] leaf_keeps
      by meson
    then show ?thesis using c1(1) by simp
  qed
  then show ?case unfolding keeps_o_def by blast
qed (simp add: keeps_o_def)

text \<open>C5. No two variables ever have one slot: compiling a step of any modelled kind, or a whole flow with its liveness-driven reuse of
  slots, keeps the slots of the variables in use distinct, below 48 and off the free list.\<close>

theorem slots_stay_distinct:
  assumes "slots_inv c" "compileStep n env step c = Some (Inr c') \<or> bakeFlow n env (compileStep n env) flow c = Some (Inr c')"
  shows "slots_inv c' \<and> (\<forall>x y i. slotMap c' x = Some i \<longrightarrow> slotMap c' y = Some i \<longrightarrow> x = y) \<and>
    (\<forall>x i. slotMap c' x = Some i \<longrightarrow> byte_slot_no i \<and> i \<notin> set (freeSlots c'))"
proof -
  have inv: "slots_inv c'"
    using assms keeps_oD [OF keeps_compileStep] keeps_oD [OF keeps_bakeFlow [of "compileStep n env", OF keeps_compileStep]] by blast
  moreover have "i \<notin> set (freeSlots c')" if "slotMap c' x = Some i" for x i
    using inv ranI [of "slotMap c'" x i, OF that] unfolding slots_inv_def by blast
  ultimately show ?thesis using slots_inv_inj [OF inv] slots_inv_range [OF inv] by blast
qed

end
