(* ===== verification/Rah_Compile_Correct.thy ===== *)
theory Rah_Compile_Correct
  imports Rah_Compiler_Laws
begin

text \<open>
  What a straight flow of text steps means, read off the flow itself, with variables as names; and that the compiled table computes it:
  slots are reused only when the variable that had them is not read again.
\<close>

subsection \<open>The meaning of a flow\<close>

type_synonym store = "bytes \<rightharpoonup> bytes"

definition assigned_value :: "Env \<Rightarrow> RequestMeta \<Rightarrow> store \<Rightarrow> StepFields \<Rightarrow> bytes option" where
  \<comment> \<open>the value a step gives its result; \<open>None\<close>: no step of this kind, or one that reads a variable that has no value\<close>
  "assigned_value env m st s =
     (let a = sAction s; src = st (sSource s) in
      if a = bytes_of ''set_const'' then Some (sValue s)
      else if a = bytes_of ''bind_header'' then map_option (\<lambda>hdr. hdr (key_or_identifier s)) (env_request env)
      else if a = bytes_of ''bind_query_param'' then Some (scanQuery (RawQuery m) (key_or_identifier s))
      else if a = bytes_of ''to_lower'' then map_option (map ascii_lower) src
      else if a = bytes_of ''to_upper'' then map_option (map ascii_upper) src
      else if a = bytes_of ''trim'' then map_option TrimSpace src
      else if a = bytes_of ''concat'' then
        Option.bind (st (sKeyIdentifier s)) (\<lambda>v. map_option (\<lambda>v'. v @ sValue s @ v') src)
      else None)"

definition respond_with :: "StepFields \<Rightarrow> bytes \<Rightarrow> Response \<Rightarrow> Response" where
  "respond_with s v r =
     (if sAction s = bytes_of ''set_response_header'' then SetResponseHeader (sKey s) v r
      else if StreamResponseBody r then r else r\<lparr>ResponseBuffer := v, IsBuffered := True\<rparr>)"

definition plain :: "StepConfig \<Rightarrow> bool" where
  "plain step \<longleftrightarrow> Do step = [] \<and> sOnError (cfg step) = [] \<and> sLogAs (cfg step) = [] \<and> \<not> sTraceCapture (cfg step) \<and> sTraceVars (cfg step) = []"

definition src_step :: "Env \<Rightarrow> RequestMeta \<Rightarrow> StepConfig \<Rightarrow> store \<times> Response \<Rightarrow> (store \<times> Response) option" where
  "src_step env m step = (\<lambda>(st, r).
     let s = cfg step; a = sAction s in
     if \<not> plain step then None
     else if a = bytes_of ''set_response_header'' \<or> a = bytes_of ''set_response_body'' then
       (case st (sSource s) of
          Some v \<Rightarrow> Some (st, respond_with s v r)
        | None \<Rightarrow> if sSource s = [] then None else Some (st(sSource s \<mapsto> sSource s), respond_with s (sSource s) r))
     else if a = bytes_of ''remove_response_header'' then Some (st, RemoveResponseHeader (sKey s) r)
     else if sAs s = [] then None
     else map_option (\<lambda>v. (st(sAs s \<mapsto> v), r)) (assigned_value env m st s))"

primrec src_flow :: "Env \<Rightarrow> RequestMeta \<Rightarrow> StepConfig list \<Rightarrow> store \<times> Response \<Rightarrow> (store \<times> Response) option" where
  "src_flow env m [] st = Some st"
| "src_flow env m (step # flow) st = Option.bind (src_step env m step st) (src_flow env m flow)"

subsection \<open>One step\<close>

definition sim :: "slot_map \<Rightarrow> store \<Rightarrow> Response \<Rightarrow> RequestMeta \<Rightarrow> assn" where
  "sim sm st r m ctx s \<longleftrightarrow> flow_ok ctx \<and> meta ctx = m \<and> resp ctx = r \<and> (\<forall>x i. sm x = Some i \<longrightarrow> bslot i ctx = the (st x))"

lemma stable_sim: "stable (sim sm st r m)"
  by (auto simp: stable_def sim_def log_instr_def bslot_def split: option.splits)

lemma sim_weaken: "sim sm st r m ctx s \<Longrightarrow> sm' \<subseteq>\<^sub>m sm \<Longrightarrow> sim sm' st r m ctx s"
  unfolding sim_def map_le_def by (metis domI)

lemma sim_read: "sim (slotMap c) st r m ctx s \<Longrightarrow> slots_inv c \<Longrightarrow> slotMap c x = Some i \<Longrightarrow> byteSlot i ctx = Inr (the (st x))"
  using slots_inv_range [of c x i] byteSlot_law [of ctx i] by (simp add: sim_def flow_ok_def)

lemma sim_alloc:
  assumes "sim sm st r m ctx s" shows "\<exists>ctx'. alloc_copy v ctx = Inr (v, ctx') \<and> sim sm st r m ctx' s"
proof -
  obtain ctx' where a: "alloc_copy v ctx = Inr (v, ctx')" "ctx_ok ctx'" "slots ctx' = slots ctx"
    using alloc_copy_law [of ctx v] assms by (auto simp: sim_def flow_ok_def)
  then have "meta ctx' = meta ctx \<and> outcome ctx' = outcome ctx \<and> resp ctx' = resp ctx"
    by (auto simp: alloc_copy_def andThen_def split: sum.splits if_splits)
  then show ?thesis using a assms by (auto simp: sim_def flow_ok_def bslot_def)
qed

lemma sim_put:
  assumes "sim (slotMap c) st r m ctx s" "slots_inv c" "getSlot d c = Inr (i, c1)"
  shows "\<exists>ctx'. put_slot i v s ctx = Inr (next_pc s, ctx', s) \<and> sim (slotMap c1) (st(d \<mapsto> v)) r m ctx' s"
proof -
  have c1: "slotMap c1 d = Some i" "slots_inv c1" "\<And>x. x \<noteq> d \<Longrightarrow> slotMap c1 x = slotMap c x"
    using assms(2,3) by (rule getSlot_cases; simp)+
  have i: "byte_slot_no i" by (rule slots_inv_range [OF c1(2,1)])
  obtain ctx' where p: "set_byteSlot i v ctx = Inr ctx'" "ctx_ok ctx'" "bslot i ctx' = v"
      "\<And>j. byte_slot_no j \<Longrightarrow> j \<noteq> i \<Longrightarrow> bslot j ctx' = bslot j ctx"
    using set_byteSlot_law [of ctx i v] assms(1) i by (auto simp: sim_def flow_ok_def)
  have f: "meta ctx' = meta ctx \<and> outcome ctx' = outcome ctx \<and> resp ctx' = resp ctx"
    using p(1) by (auto simp: set_byteSlot_def andThen_def split: sum.splits)
  have "bslot j ctx' = the ((st(d \<mapsto> v)) x)" if x: "slotMap c1 x = Some j" for x j
  proof (cases "x = d")
    case False
    then have "j \<noteq> i" using slots_inv_inj [OF c1(2) x] c1(1) by blast
    moreover have "byte_slot_no j" "slotMap c x = Some j" using x c1(3) [OF False] slots_inv_range [OF c1(2) x] by auto
    ultimately show ?thesis using False p(4) assms(1) by (simp add: sim_def)
  qed (use x c1 p in simp)
  then show ?thesis using p f assms(1) by (auto simp: put_slot_def continue_def sim_def flow_ok_def)
qed

lemma sim_resp: "sim sm st r m ctx s \<Longrightarrow> sim sm st (f r) m (with_resp f ctx) s"
  by (simp add: sim_def bslot_def) (simp add: with_resp_def)

subsection \<open>Compiling one step\<close>

lemma text_bytes [simp]: "map (\<lambda>b. char_of (unat b)) (bytes_of s) = s"
proof -
  have "char_of (unat (of_char c :: u8)) = c" for c
  proof -
    have "unat (of_nat (of_char c) :: u8) = of_char c" using nat_of_char_less_256 [of c] by (simp add: unat_of_nat)
    then show ?thesis by (simp add: of_nat_of_char)
  qed
  then show ?thesis by (simp add: bytes_of_def map_idI)
qed

lemma bytes_of_inj [simp]: "bytes_of a = bytes_of b \<longleftrightarrow> a = b"
  by (metis text_bytes)

lemma observe_plain: "plain step \<Longrightarrow> observe (cfg step) (apply_on_error (cfg step) c) = c"
  by (auto simp: plain_def observe_def apply_on_error_def Let_def split: option.split)

definition text_actions :: "string list" where
  "text_actions = [''set_const'', ''bind_header'', ''bind_query_param'', ''to_lower'', ''to_upper'', ''trim'', ''concat'',
     ''set_response_header'', ''set_response_body'', ''remove_response_header'']"

lemma text_step_leaf:
  assumes "compileStep n env step c = Some (Inr c')" "plain step" "sAction (cfg step) = bytes_of a" "a \<in> set text_actions"
  shows "compile_leaf env (cfg step) c = Inr c'"
proof -
  obtain k where "n = Suc k" using assms(1) by (cases n) auto
  then have "compile_body k env (compileStep k env) step c = Some (Inr c')" using assms(1) by simp
  then show ?thesis using assms(3,4) observe_plain [OF assms(2)]
    by (auto simp: compile_body_def text_actions_def Let_def elim!: bind_o_SomeE)
qed

lemmas text_leaf_defs = compile_leaf_def src_as_def dest_step_def three_slots_def compile_set_const_def compile_bind_header_def
  compile_bind_query_param_def compile_to_lower_def compile_to_upper_def compile_trim_def compile_concat_def
  compile_set_response_header_def compile_set_response_body_def compile_remove_response_header_def with_slot_def

lemma src_step_cases:
  assumes "src_step env m step (st, r) = Some (st', r')"
  obtains (assign) a v where "plain step" "sAction (cfg step) = bytes_of a" "a \<in> set (take 7 text_actions)"
      "assigned_value env m st (cfg step) = Some v" "sAs (cfg step) \<noteq> []" "st' = st(sAs (cfg step) \<mapsto> v)" "r' = r"
  | (known') a v where "plain step" "sAction (cfg step) = bytes_of a" "a \<in> {''set_response_header'', ''set_response_body''}"
      "st (sSource (cfg step)) = Some v" "st' = st" "r' = respond_with (cfg step) v r"
  | (literal) a where "plain step" "sAction (cfg step) = bytes_of a" "a \<in> {''set_response_header'', ''set_response_body''}"
      "st (sSource (cfg step)) = None" "sSource (cfg step) \<noteq> []" "st' = st(sSource (cfg step) \<mapsto> sSource (cfg step))" "r' = respond_with (cfg step) (sSource (cfg step)) r"
  | (remove) "plain step" "sAction (cfg step) = bytes_of ''remove_response_header''" "st' = st" "r' = RemoveResponseHeader (sKey (cfg step)) r"
proof -
  have p: "plain step" using assms by (auto simp: src_step_def Let_def split: if_splits)
  consider "sAction (cfg step) = bytes_of ''set_response_header'' \<or> sAction (cfg step) = bytes_of ''set_response_body''"
    | "sAction (cfg step) = bytes_of ''remove_response_header''"
    | v where "assigned_value env m st (cfg step) = Some v" "sAs (cfg step) \<noteq> []" "st' = st(sAs (cfg step) \<mapsto> v)" "r' = r"
    using assms by (auto simp: src_step_def Let_def split: if_splits)
  then show ?thesis
  proof cases
    case 1
    then show ?thesis using assms p known' literal by (auto simp: src_step_def Let_def split: option.splits if_splits)
  next
    case 2
    then show ?thesis using assms p remove by (auto simp: src_step_def Let_def)
  next
    case 3
    have "\<exists>a \<in> set (take 7 text_actions). sAction (cfg step) = bytes_of a"
      using 3(1) by (auto simp: assigned_value_def text_actions_def Let_def split: if_splits)
    then show ?thesis using assign p 3 by blast
  qed
qed

definition goes :: "Compiler \<Rightarrow> Compiler \<Rightarrow> assn \<Rightarrow> assn \<Rightarrow> bool" where
  \<comment> \<open>the second table is the first with code that leads from states with \<open>P\<close> to states with \<open>Q\<close>\<close>
  "goes c c' P Q \<longleftrightarrow> (\<exists>acts. map Action (GlobalTable c') = map Action (GlobalTable c) @ acts \<and>
     (\<forall>obs table g code. code_at table g code \<longrightarrow> map Action code = acts \<longrightarrow> runs obs table P (int g) Q (int (g + length code))))"

lemma goes_one:
  assumes "map Action (GlobalTable c') = map Action (GlobalTable c) @ [a]" "stable P" "stable Q"
    and "\<And>ctx s. P ctx s \<Longrightarrow> \<exists>ctx'. a ctx s = Inr (next_pc s, ctx', s) \<and> Q ctx' s"
  shows "goes c c' P Q"
proof -
  have "runs obs table P (int g) Q (int (g + length code))" if c: "code_at table g code" "map Action code = [a]" for obs table g code
  proof -
    obtain i where i: "code = [i]" "Action i = a" using c(2) by auto
    have "runs obs table P (int g) Q (int (g + 1))"
      by (rule runs_next [of table g i]) (use c(1) i assms(2-3) in simp_all, use assms(4) in blast)
    then show ?thesis using i by simp
  qed
  then show ?thesis using assms(1) unfolding goes_def by (intro exI [of _ "[a]"]) simp
qed

lemma goes_trans: "goes c c1 P Q \<Longrightarrow> goes c1 c2 Q R \<Longrightarrow> goes c c2 P R"
proof -
  assume "goes c c1 P Q" "goes c1 c2 Q R"
  then obtain as bs where a: "map Action (GlobalTable c1) = map Action (GlobalTable c) @ as"
      "\<And>obs table g code. code_at table g code \<Longrightarrow> map Action code = as \<Longrightarrow> runs obs table P (int g) Q (int (g + length code))"
    and b: "map Action (GlobalTable c2) = map Action (GlobalTable c1) @ bs"
      "\<And>obs table g code. code_at table g code \<Longrightarrow> map Action code = bs \<Longrightarrow> runs obs table Q (int g) R (int (g + length code))"
    unfolding goes_def by blast
  have "runs obs table P (int g) R (int (g + length code))" if c: "code_at table g code" "map Action code = as @ bs" for obs table g code
  proof -
    obtain xs ys where xy: "code = xs @ ys" "map Action xs = as" "map Action ys = bs" using c(2) by (auto simp: map_eq_append_conv)
    then have "code_at table g xs" "code_at table (g + length xs) ys" using c(1) by (simp_all add: code_at_append)
    then have "runs obs table P (int g) R (int (g + length xs + length ys))" using a(2) b(2) xy by (blast intro: runs_trans)
    then show ?thesis using xy by (simp add: add.assoc)
  qed
  then show ?thesis unfolding goes_def using a(1) b(1) by auto
qed

lemma goes_refl: "goes c c P P"
  unfolding goes_def by (rule exI [of _ "[]"]) (simp add: runs_refl)

lemma src_as_Inr:
  "src_as nm f s c = Inr c' \<Longrightarrow> getSlot (sSource s) c = Inr (i0, c) \<Longrightarrow> \<exists>i c1. getSlot (sAs s) c = Inr (i, c1) \<and> c' = emit_instr nm (f i0 i) c1"
  by (auto simp: src_as_def with_slot_def bind_e_def split: sum.splits)

lemma dest_step_Inr:
  "dest_step nm f s c = Inr c' \<Longrightarrow> \<exists>i c1. getSlot (sAs s) c = Inr (i, c1) \<and> c' = emit_instr nm (f i) c1"
  by (auto simp: dest_step_def with_slot_def bind_e_def split: sum.splits)

lemma three_slots_Inr:
  "three_slots nm f s c = Inr c' \<Longrightarrow> getSlot (sKeyIdentifier s) c = Inr (i0, c) \<Longrightarrow> getSlot (sSource s) c = Inr (i1, c) \<Longrightarrow>
   \<exists>i c1. getSlot (sAs s) c = Inr (i, c1) \<and> c' = emit_instr nm (f i0 i1 i) c1"
  by (auto simp: three_slots_def with_slot_def bind_e_def split: sum.splits)

definition assigns :: "Compiler \<Rightarrow> Compiler \<Rightarrow> StepFields \<Rightarrow> store \<Rightarrow> Response \<Rightarrow> RequestMeta \<Rightarrow> bytes \<Rightarrow> bool" where
  \<comment> \<open>one instruction that stores the value in the slot of the result\<close>
  "assigns c c' s st r m v \<longleftrightarrow> (\<exists>i c1 nm act. getSlot (sAs s) c = Inr (i, c1) \<and> c' = emit_instr nm act c1 \<and>
    (\<forall>ctx es. sim (slotMap c) st r m ctx es \<longrightarrow> (\<exists>ctx0. act ctx es = put_slot i v es ctx0 \<and> sim (slotMap c) st r m ctx0 es)))"

lemma sim_alloc_put:
  assumes "sim sm st r m ctx es"
  shows "\<exists>ctx0. andThen (alloc_copy v ctx) (\<lambda>(v', ctx'). put_slot i v' es ctx') = put_slot i v es ctx0 \<and> sim sm st r m ctx0 es"
  using sim_alloc [OF assms, of v] by auto

lemma known_source:
  assumes "slots_inv c" "x \<in> dom st \<Longrightarrow> x \<in> dom (slotMap c)" "st x = Some w"
  obtains i where "getSlot x c = Inr (i, c)" "\<And>ctx es. sim (slotMap c) st r m ctx es \<Longrightarrow> byteSlot i ctx = Inr w"
  using assms sim_read [OF _ assms(1), of st r m _ _ x] by (fastforce simp: getSlot_def dom_def)

lemma assigns_nullary:
  assumes "dest_step nm act s c = Inr c'"
    "\<And>i ctx es. sim (slotMap c) st r m ctx es \<Longrightarrow> \<exists>ctx0. act i ctx es = put_slot i v es ctx0 \<and> sim (slotMap c) st r m ctx0 es"
  shows "assigns c c' s st r m v"
  using dest_step_Inr [OF assms(1)] assms(2) unfolding assigns_def by blast

lemma assigns_unary:
  assumes "src_as nm act s c = Inr c'" "slots_inv c" "sSource s \<in> dom st \<Longrightarrow> sSource s \<in> dom (slotMap c)" "st (sSource s) = Some w"
    "\<And>i0 i ctx es. sim (slotMap c) st r m ctx es \<Longrightarrow> byteSlot i0 ctx = Inr w \<Longrightarrow>
       \<exists>ctx0. act i0 i ctx es = put_slot i v es ctx0 \<and> sim (slotMap c) st r m ctx0 es"
  shows "assigns c c' s st r m v"
proof -
  obtain i0 where i0: "getSlot (sSource s) c = Inr (i0, c)" "\<And>ctx es. sim (slotMap c) st r m ctx es \<Longrightarrow> byteSlot i0 ctx = Inr w"
    by (rule known_source [of c "sSource s" st w r m]) (use assms(2-4) in simp_all)
  then show ?thesis using src_as_Inr [OF assms(1) i0(1)] assms(5) unfolding assigns_def by blast
qed

lemma assigns_concat:
  assumes "compile_concat s c = Inr c'" "slots_inv c"
    "\<And>x. x \<in> {sSource s, sKeyIdentifier s} \<Longrightarrow> x \<in> dom st \<Longrightarrow> x \<in> dom (slotMap c)"
    "st (sKeyIdentifier s) = Some w" "st (sSource s) = Some w'"
  shows "assigns c c' s st r m (w @ sValue s @ w')"
proof -
  obtain i0 where i0: "getSlot (sKeyIdentifier s) c = Inr (i0, c)" "\<And>ctx es. sim (slotMap c) st r m ctx es \<Longrightarrow> byteSlot i0 ctx = Inr w"
    by (rule known_source [of c "sKeyIdentifier s" st w r m]) (use assms(2-4) in simp_all)
  obtain i1 where i1: "getSlot (sSource s) c = Inr (i1, c)" "\<And>ctx es. sim (slotMap c) st r m ctx es \<Longrightarrow> byteSlot i1 ctx = Inr w'"
    by (rule known_source [of c "sSource s" st w' r m]) (use assms(2,3,5) in simp_all)
  obtain i c1 where g: "getSlot (sAs s) c = Inr (i, c1)" "c' = emit_instr ''CONCAT'' (ConcatStep i0 i1 i (sValue s)) c1"
    using three_slots_Inr [OF _ i0(1) i1(1)] assms(1) unfolding compile_concat_def by blast
  have "\<exists>ctx0. ConcatStep i0 i1 i (sValue s) ctx es = put_slot i (w @ sValue s @ w') es ctx0 \<and> sim (slotMap c) st r m ctx0 es"
    if "sim (slotMap c) st r m ctx es" for ctx es
    using sim_alloc_put [OF that, of "w @ sValue s @ w'" i] i0(2) [OF that] i1(2) [OF that] by (simp add: ConcatStep_def)
  then show ?thesis using g unfolding assigns_def by blast
qed

lemma assign_step:
  assumes "compile_leaf env s c = Inr c'" "sAction s = bytes_of a" "a \<in> set (take 7 text_actions)" "slots_inv c"
    and v: "assigned_value env m st s = Some v"
    and known: "\<And>x. x \<in> {sSource s, sKeyIdentifier s} \<Longrightarrow> x \<in> dom st \<Longrightarrow> x \<in> dom (slotMap c)"
  shows "assigns c c' s st r m v"
proof -
  note leaf = assms(1) [unfolded compile_leaf_def assms(2) text_bytes]
  have src: "sSource s \<in> dom st \<Longrightarrow> sSource s \<in> dom (slotMap c)" using known by simp
  have "a = ''set_const'' \<or> a = ''bind_header'' \<or> a = ''bind_query_param'' \<or> a = ''to_lower'' \<or> a = ''to_upper'' \<or>
    a = ''trim'' \<or> a = ''concat''"
    using assms(3) by (simp add: text_actions_def)
  then show ?thesis
  proof (elim disjE)
    assume "a = ''set_const''"
    then have "dest_step ''SET_CONST'' (SetConstStep (sValue s)) s c = Inr c'" "v = sValue s"
      using leaf v assms(2) by (simp_all add: compile_set_const_def assigned_value_def)
    then show ?thesis by - (rule assigns_nullary, simp, simp add: SetConstStep_def, blast)
  next
    assume "a = ''bind_header''"
    then have "\<exists>hdr. env_request env = Some hdr \<and> v = hdr (key_or_identifier s)"
        "dest_step ''BIND_HEADER'' (BindHeader (env_request env) (key_or_identifier s)) s c = Inr c'"
      using leaf v assms(2) by (auto simp: assigned_value_def compile_bind_header_def)
    then show ?thesis by (elim exE) (rule assigns_nullary, simp, auto simp: BindHeader_def Header_Get_def)
  next
    assume "a = ''bind_query_param''"
    then have "dest_step ''BIND_QUERY'' (BindQuery (key_or_identifier s)) s c = Inr c'" "v = scanQuery (RawQuery m) (key_or_identifier s)"
      using leaf v assms(2) by (simp_all add: compile_bind_query_param_def assigned_value_def)
    moreover have "meta ctx = m" if "sim sm st r m ctx es" for sm ctx es using that by (simp add: sim_def)
    ultimately show ?thesis using sim_alloc_put by - (rule assigns_nullary, simp, auto simp: BindQuery_def Let_def)
  next
    assume "a = ''to_lower''"
    then have "src_as ''TO_LOWER'' ToLowerStep s c = Inr c'" "\<exists>w. st (sSource s) = Some w \<and> v = map ascii_lower w"
      using leaf v assms(2) by (auto simp: assigned_value_def compile_to_lower_def)
    then show ?thesis by (elim exE conjE) (rule assigns_unary [OF _ assms(4) src], auto simp: ToLowerStep_def intro: sim_alloc_put)
  next
    assume "a = ''to_upper''"
    then have "src_as ''TO_UPPER'' ToUpperStep s c = Inr c'" "\<exists>w. st (sSource s) = Some w \<and> v = map ascii_upper w"
      using leaf v assms(2) by (auto simp: assigned_value_def compile_to_upper_def)
    then show ?thesis by (elim exE conjE) (rule assigns_unary [OF _ assms(4) src], auto simp: ToUpperStep_def intro: sim_alloc_put)
  next
    assume "a = ''trim''"
    then have "src_as ''TRIM'' TrimStep s c = Inr c'" "\<exists>w. st (sSource s) = Some w \<and> v = TrimSpace w"
      using leaf v assms(2) by (auto simp: assigned_value_def compile_trim_def)
    then show ?thesis by (elim exE conjE) (rule assigns_unary [OF _ assms(4) src], auto simp: TrimStep_def)
  next
    assume "a = ''concat''"
    then have "compile_concat s c = Inr c'"
        "\<exists>w w'. st (sKeyIdentifier s) = Some w \<and> st (sSource s) = Some w' \<and> v = w @ sValue s @ w'"
      using leaf v assms(2) by (auto simp: assigned_value_def split: bind_splits)
    then show ?thesis using assigns_concat [OF _ assms(4) known] by blast
  qed
qed

lemma map_Action_emit [simp]: "map Action (GlobalTable (emit_instr nm a c)) = map Action (GlobalTable c) @ [a]"
  "slotMap (emit_instr nm a c) = slotMap c"
  by (simp_all add: emit_instr_def)

lemma getSlot_dom: "slots_inv c \<Longrightarrow> getSlot x c = Inr (i, c1) \<Longrightarrow> dom (slotMap c1) = insert x (dom (slotMap c)) \<and> GlobalTable c1 = GlobalTable c"
  by (rule getSlot_cases) auto

lemma goes_assigns:
  assumes "assigns c c' s st r m v" "slots_inv c"
  shows "goes c c' (sim (slotMap c) st r m) (sim (slotMap c') (st(sAs s \<mapsto> v)) r m)" "dom (slotMap c') = insert (sAs s) (dom (slotMap c))"
proof -
  obtain i c1 nm act where g: "getSlot (sAs s) c = Inr (i, c1)" "c' = emit_instr nm act c1"
    "\<And>ctx es. sim (slotMap c) st r m ctx es \<Longrightarrow> \<exists>ctx0. act ctx es = put_slot i v es ctx0 \<and> sim (slotMap c) st r m ctx0 es"
    using assms(1) unfolding assigns_def by blast
  have "\<exists>ctx'. act ctx es = Inr (next_pc es, ctx', es) \<and> sim (slotMap c1) (st(sAs s \<mapsto> v)) r m ctx' es"
    if "sim (slotMap c) st r m ctx es" for ctx es
    using g(3) [OF that] sim_put [OF _ assms(2) g(1)] by metis
  then show "goes c c' (sim (slotMap c) st r m) (sim (slotMap c') (st(sAs s \<mapsto> v)) r m)"
    using g getSlot_dom [OF assms(2) g(1)] by (intro goes_one [where a = act]) (simp_all add: stable_sim)
  show "dom (slotMap c') = insert (sAs s) (dom (slotMap c))" using g getSlot_dom [OF assms(2) g(1)] by simp
qed

definition respond_action :: "StepFields \<Rightarrow> int \<Rightarrow> InstructionFunc" where
  "respond_action s i = (if sAction s = bytes_of ''set_response_header'' then SetResponseHeaderFromSlot (sKey s) i else SetResponseBodyStep i)"

lemma respond_leaf:
  assumes "compile_leaf env s c = Inr c'" "sAction s = bytes_of a" "a \<in> {''set_response_header'', ''set_response_body''}"
  shows "\<exists>nm. literal_slot s (\<lambda>i c. Inr (emit_instr nm (respond_action s i) c)) c = Inr c'"
  using assms(1,3) unfolding compile_leaf_def assms(2) text_bytes
  by (auto simp: compile_set_response_header_def compile_set_response_body_def respond_action_def assms(2))

lemma goes_respond:
  assumes "slots_inv c" "slotMap c (sSource s) = Some i" "st (sSource s) = Some v"
    "sAction s = bytes_of a" "a \<in> {''set_response_header'', ''set_response_body''}"
  shows "goes c (emit_instr nm (respond_action s i) c) (sim (slotMap c) st r m) (sim (slotMap c) st (respond_with s v r) m)"
proof (rule goes_one [OF map_Action_emit(1) stable_sim stable_sim])
  fix ctx es assume sim: "sim (slotMap c) st r m ctx es"
  have b: "byteSlot i ctx = Inr v" using sim_read [OF sim assms(1,2)] assms(3) by simp
  have r: "resp ctx = r" using sim by (simp add: sim_def)
  show "\<exists>ctx'. respond_action s i ctx es = Inr (next_pc es, ctx', es) \<and> sim (slotMap c) st (respond_with s v r) m ctx' es"
  proof (cases "a = ''set_response_header''")
    case True
    then show ?thesis using b sim_resp [OF sim, of "SetResponseHeader (sKey s) v"] assms(4)
      by (simp add: respond_action_def respond_with_def SetResponseHeaderFromSlot_def continue_def)
  next
    case False
    then show ?thesis using b sim sim_resp [OF sim, of "\<lambda>r. r\<lparr>ResponseBuffer := v, IsBuffered := True\<rparr>"] assms(4,5) r
      by (simp add: respond_action_def respond_with_def SetResponseBodyStep_def continue_def set_body_def)
  qed
qed

lemma goes_literal:
  assumes "slots_inv c" "getSlot x c = Inr (i, c1)"
  shows "goes c (emit_instr nm (SetConstStep v i) c1) (sim (slotMap c) st r m) (sim (slotMap c1) (st(x \<mapsto> v)) r m)"
  using getSlot_dom [OF assms] sim_put [OF _ assms]
  by (intro goes_one [where a = "SetConstStep v i"]) (simp_all add: stable_sim SetConstStep_def)

lemma goes_response_step:
  assumes "compile_leaf env s c = Inr c'" "sAction s = bytes_of a" "a \<in> {''set_response_header'', ''set_response_body''}"
    "slots_inv c" "dom (slotMap c) \<subseteq> dom st" "sSource s \<in> dom st \<longrightarrow> sSource s \<in> dom (slotMap c)"
    and st': "st' = (if sSource s \<in> dom st then st else st(sSource s \<mapsto> sSource s))"
  shows "goes c c' (sim (slotMap c) st r m) (sim (slotMap c') st' (respond_with s (the (st' (sSource s))) r) m)"
    "dom (slotMap c') = insert (sSource s) (dom (slotMap c))"
proof -
  obtain nm where l: "literal_slot s (\<lambda>i c. Inr (emit_instr nm (respond_action s i) c)) c = Inr c'"
    using respond_leaf [OF assms(1-3)] by blast
  have "goes c c' (sim (slotMap c) st r m) (sim (slotMap c') st' (respond_with s (the (st' (sSource s))) r) m) \<and>
      dom (slotMap c') = insert (sSource s) (dom (slotMap c))"
  proof (cases "sSource s \<in> dom st")
    case True
    then obtain i v where iv: "slotMap c (sSource s) = Some i" "st (sSource s) = Some v" using assms(6) by blast
    then have "c' = emit_instr nm (respond_action s i) c" using l by (simp add: literal_slot_def with_slot_def bind_e_def getSlot_def)
    then show ?thesis using goes_respond [of c s i st v, OF assms(4) iv assms(2,3)] True st' iv by auto
  next
    case False
    then have n: "slotMap c (sSource s) = None" using assms(5) by (meson domIff subsetD)
    then obtain i c1 where g: "getSlot (sSource s) c = Inr (i, c1)"
        "c' = emit_instr nm (respond_action s i) (emit_instr ''SET_CONST'' (SetConstStep (sSource s) i) c1)"
      using l by (auto simp: literal_slot_def with_slot_def bind_e_def split: sum.splits)
    let ?c = "emit_instr ''SET_CONST'' (SetConstStep (sSource s) i) c1"
    have st: "st' = st(sSource s \<mapsto> sSource s)" using False st' by simp
    have i: "slotMap c1 (sSource s) = Some i" using assms(4) g(1) by (rule getSlot_cases) simp_all
    have c: "slots_inv ?c" "slotMap ?c (sSource s) = Some i" "st' (sSource s) = Some (sSource s)"
      using getSlot_keeps [OF g(1) assms(4)] i st by simp_all
    have 1: "goes c ?c (sim (slotMap c) st r m) (sim (slotMap c1) st' r m)" unfolding st by (rule goes_literal [OF assms(4) g(1)])
    have 2: "goes ?c c' (sim (slotMap c1) st' r m) (sim (slotMap c1) st' (respond_with s (sSource s) r) m)"
      using goes_respond [of ?c s i st' "sSource s" a nm r m, OF c assms(2,3)] unfolding g(2) map_Action_emit(2) .
    have "slotMap c' = slotMap c1" unfolding g(2) by simp
    then show ?thesis using goes_trans [OF 1 2] getSlot_dom [OF assms(4) g(1)] c(3) by simp
  qed
  then show "goes c c' (sim (slotMap c) st r m) (sim (slotMap c') st' (respond_with s (the (st' (sSource s))) r) m)"
    "dom (slotMap c') = insert (sSource s) (dom (slotMap c))" by auto
qed

lemma goes_remove:
  "goes c (emit_instr nm (RemoveResponseHeaderStep k) c) (sim (slotMap c) st r m) (sim (slotMap c) st (RemoveResponseHeader k r) m)"
  by (rule goes_one [OF map_Action_emit(1) stable_sim stable_sim]) (simp add: RemoveResponseHeaderStep_def continue_def sim_resp)

lemma refs_in_step: "x \<in> {sAs s, sSource s, sKeyIdentifier s} \<Longrightarrow> x \<noteq> [] \<Longrightarrow> x \<in> set (varRefsInStep s)"
  by (auto simp: varRefsInStep_def nonempty_def)

lemma step_done:
  assumes "goes c c' P Q" "dom (slotMap c') = insert x (dom (slotMap c))" "dom st' = insert x (dom st)" "[] \<notin> dom st" "x \<noteq> []"
    "x \<in> dom st \<longrightarrow> x \<in> dom (slotMap c)"
  shows "goes c c' P Q \<and> [] \<notin> dom st' \<and> dom (slotMap c') = dom (slotMap c) \<union> (dom st' - dom st) \<and> dom st \<subseteq> dom st'"
  unfolding assms(2,3) using assms(1,4-6) by blast

lemma text_step_goes:
  assumes src: "src_step env m step (st, r) = Some (st', r')" and comp: "compileStep n env step c = Some (Inr c')"
    and inv: "slots_inv c" "dom (slotMap c) \<subseteq> dom st" "[] \<notin> dom st"
    and live: "\<And>x. x \<in> set (varRefsInStep (cfg step)) \<Longrightarrow> x \<in> dom st \<Longrightarrow> x \<in> dom (slotMap c)"
  shows "goes c c' (sim (slotMap c) st r m) (sim (slotMap c') st' r' m) \<and> [] \<notin> dom st' \<and>
    dom (slotMap c') = dom (slotMap c) \<union> (dom st' - dom st) \<and> dom st \<subseteq> dom st'"
proof -
  let ?s = "cfg step"
  have known: "x \<in> dom (slotMap c)" if "x \<in> {sAs ?s, sSource ?s, sKeyIdentifier ?s}" "x \<in> dom st" for x
  proof -
    have "x \<noteq> []" using that(2) inv(3) by auto
    then show ?thesis using live [OF refs_in_step [OF that(1)]] that(2) by blast
  qed
  then have kn: "sSource ?s \<in> dom st \<longrightarrow> sSource ?s \<in> dom (slotMap c)" by blast
  note leaf = text_step_leaf [OF comp]
  show ?thesis
    using src
  proof (cases rule: src_step_cases)
    case (assign a v)
    have "compile_leaf env ?s c = Inr c'" using leaf [OF assign(1,2)] assign(3) by (meson in_set_takeD)
    then have "assigns c c' ?s st r m v" by (rule assign_step [OF _ assign(2,3) inv(1) assign(4)]) (use known in simp)
    note g = goes_assigns [OF this inv(1)]
    have d: "dom st' = insert (sAs ?s) (dom st)" using assign(6) by simp
    show ?thesis by (rule step_done [OF _ g(2) d inv(3) assign(5)]) (use g(1) assign(6,7) in simp, use known in blast)
  next
    case (known' a v)
    have "a \<in> set text_actions" using known'(3) by (auto simp: text_actions_def)
    then have lf: "compile_leaf env ?s c = Inr c'" by (rule leaf [OF known'(1,2)])
    have eq: "st' = (if sSource ?s \<in> dom st then st else st(sSource ?s \<mapsto> sSource ?s))" using known'(4,5) by (simp add: domI)
    note g = goes_response_step(1) [of env ?s c c' a st st' r m, OF lf known'(2,3) inv(1,2) kn eq]
      goes_response_step(2) [of env ?s c c' a st st', OF lf known'(2,3) inv(1,2) kn eq]
    have d: "dom st' = insert (sSource ?s) (dom st)" using known'(4,5) by (simp add: domI insert_absorb)
    have ne: "sSource ?s \<noteq> []" using known'(4) inv(3) by (metis domI)
    show ?thesis by (rule step_done [OF _ g(2) d inv(3) ne]) (use g(1) known'(4-6) in simp, rule kn)
  next
    case (literal a)
    have "a \<in> set text_actions" using literal(3) by (auto simp: text_actions_def)
    then have lf: "compile_leaf env ?s c = Inr c'" by (rule leaf [OF literal(1,2)])
    have eq: "st' = (if sSource ?s \<in> dom st then st else st(sSource ?s \<mapsto> sSource ?s))" using literal(4,6) by (simp add: domIff)
    note g = goes_response_step(1) [of env ?s c c' a st st' r m, OF lf literal(2,3) inv(1,2) kn eq]
      goes_response_step(2) [of env ?s c c' a st st', OF lf literal(2,3) inv(1,2) kn eq]
    have d: "dom st' = insert (sSource ?s) (dom st)" using literal(6) by simp
    show ?thesis by (rule step_done [OF _ g(2) d inv(3) literal(5)]) (use g(1) literal(4-7) in simp, rule kn)
  next
    case remove
    then have "compile_leaf env ?s c = Inr c'" using leaf [OF remove(1,2)] by (simp add: text_actions_def)
    then have "c' = emit_instr ''REMOVE_RESPONSE_HEADER'' (RemoveResponseHeaderStep (sKey ?s)) c"
      unfolding compile_leaf_def remove(2) text_bytes by (simp add: compile_remove_response_header_def)
    then show ?thesis using goes_remove remove(3,4) inv(3) by simp
  qed
qed

subsection \<open>Liveness\<close>

lemma map_of_use_at: "map_of (use_at i names lu) x = (if x \<in> set names then Some i else map_of lu x)"
  unfolding use_at_def by (induction names arbitrary: lu) (auto simp: update_conv')

lemma distinct_use_at: "distinct (map fst lu) \<Longrightarrow> distinct (map fst (use_at i names lu))"
  unfolding use_at_def by (induction names arbitrary: lu) (simp_all add: distinct_update)

lemma computeLastUse_keeps:
  "computeLastUse n env i flow lu = Some lu' \<Longrightarrow> map_of lu x = Some l \<Longrightarrow> l \<le> i \<Longrightarrow> \<exists>l' \<ge> l. map_of lu' x = Some l'"
proof (induction flow arbitrary: i lu l)
  case (Cons step flow)
  then obtain rs where rs: "computeLastUse n env (Suc i) flow (use_at i rs (use_at i (varRefsInStep (cfg step)) lu)) = Some lu'"
    by (auto split: bind_splits)
  obtain l1 where "map_of (use_at i rs (use_at i (varRefsInStep (cfg step)) lu)) x = Some l1" "l \<le> l1" "l1 \<le> Suc i"
    by (rule that [of "if x \<in> set rs \<or> x \<in> set (varRefsInStep (cfg step)) then i else l"])
      (use Cons.prems(2,3) in \<open>simp_all add: map_of_use_at\<close>)
  then show ?case using Cons.IH [OF rs] by (meson le_trans)
qed auto

lemma computeLastUse_refs:
  "computeLastUse n env i flow lu = Some lu' \<Longrightarrow> j < length flow \<Longrightarrow> x \<in> set (varRefsInStep (cfg (flow ! j))) \<Longrightarrow>
   \<exists>l \<ge> i + j. map_of lu' x = Some l"
proof (induction flow arbitrary: i j lu)
  case (Cons step flow)
  then obtain rs where rs: "computeLastUse n env (Suc i) flow (use_at i rs (use_at i (varRefsInStep (cfg step)) lu)) = Some lu'"
    by (auto split: bind_splits)
  show ?case
  proof (cases j)
    case 0
    then have "map_of (use_at i rs (use_at i (varRefsInStep (cfg step)) lu)) x = Some i"
      using Cons.prems(3) by (simp add: map_of_use_at)
    then show ?thesis using computeLastUse_keeps [OF rs] 0 by fastforce
  next
    case (Suc k)
    then show ?thesis using Cons.IH [OF rs, of k] Cons.prems(2,3) by simp
  qed
qed simp

lemma computeLastUse_distinct: "computeLastUse n env i flow lu = Some lu' \<Longrightarrow> distinct (map fst lu) \<Longrightarrow> distinct (map fst lu')"
  by (induction n env i flow lu rule: computeLastUse.induct) (auto simp: distinct_use_at split: bind_splits)

lemma release_law:
  "slotMap (release i lu c) \<subseteq>\<^sub>m slotMap c \<and> GlobalTable (release i lu c) = GlobalTable c \<and>
   (\<forall>x. (x, i) \<notin> set lu \<longrightarrow> slotMap (release i lu c) x = slotMap c x)"
proof (induction i lu c rule: release.induct)
  case (2 i name l lu c)
  let ?c = "if l = i \<and> \<not> HasPrefix name (bytes_of ''path.'')
    then case slotMap c name of Some slot \<Rightarrow> c\<lparr>freeSlots := freeSlots c @ [slot], slotMap := (slotMap c)(name := None)\<rparr> | None \<Rightarrow> c else c"
  have "slotMap ?c \<subseteq>\<^sub>m slotMap c" "GlobalTable ?c = GlobalTable c" "\<forall>x. (x, i) \<noteq> (name, l) \<longrightarrow> slotMap ?c x = slotMap c x"
    by (auto simp: map_le_def split: option.splits)
  with 2 show ?case by (auto intro: map_le_trans)
qed simp

subsection \<open>Whole flows\<close>

lemma map_Action_tag [simp]: "map Action (GlobalTable (tag_steps k i c)) = map Action (GlobalTable c)" "slotMap (tag_steps k i c) = slotMap c"
proof -
  have "map Action (take k t @ map (\<lambda>ins. ins\<lparr>StepIdx := i\<rparr>) (drop k t)) = map Action (take k t @ drop k t)" for t
    by (simp only: map_append map_map comp_def) simp
  then show "map Action (GlobalTable (tag_steps k i c)) = map Action (GlobalTable c)" by (simp add: tag_steps_def)
qed (simp add: tag_steps_def)

lemma runs_weaken: "runs obs table P pc Q pc' \<Longrightarrow> (\<And>ctx s. Q ctx s \<Longrightarrow> Q' ctx s) \<Longrightarrow> runs obs table P pc Q' pc'"
  unfolding runs_def by metis

lemma goes_cong:
  assumes "goes c c1 P Q" "map Action (GlobalTable c2) = map Action (GlobalTable c1)" "\<And>ctx s. Q ctx s \<Longrightarrow> Q' ctx s"
  shows "goes c c2 P Q'"
proof -
  obtain as where a: "map Action (GlobalTable c1) = map Action (GlobalTable c) @ as"
      "\<And>obs table g code. code_at table g code \<Longrightarrow> map Action code = as \<Longrightarrow> runs obs table P (int g) Q (int (g + length code))"
    using assms(1) unfolding goes_def by blast
  have "runs obs table P (int g) Q' (int (g + length code))" if "code_at table g code" "map Action code = as" for obs table g code
    by (rule runs_weaken [OF a(2) [OF that]]) (rule assms(3))
  then show ?thesis unfolding goes_def assms(2) using a(1) by blast
qed

definition flow_inv :: "(bytes \<times> nat) list \<Rightarrow> nat \<Rightarrow> StepConfig list \<Rightarrow> Compiler \<Rightarrow> store \<Rightarrow> bool" where
  \<comment> \<open>before the rest of a flow, from its i-th step on: the variables in use have slots, and their last uses are known\<close>
  "flow_inv lu i flow c st \<longleftrightarrow> slots_inv c \<and> dom (slotMap c) \<subseteq> dom st \<and> [] \<notin> dom st \<and>
     (\<forall>x \<in> dom st. (\<forall>l. map_of lu x = Some l \<longrightarrow> i \<le> l) \<longrightarrow> x \<in> dom (slotMap c)) \<and>
     (\<forall>j < length flow. \<forall>x \<in> set (varRefsInStep (cfg (flow ! j))). \<exists>l \<ge> i + j. map_of lu x = Some l)"

abbreviation after_step :: "Env \<Rightarrow> (bytes \<times> nat) list \<Rightarrow> nat \<Rightarrow> Compiler \<Rightarrow> Compiler \<Rightarrow> Compiler" where
  "after_step env lu i c c1 \<equiv> releaseDeadSlots env i lu (tag_steps (length (GlobalTable c)) (i16 (int i)) c1)"

lemma flow_invD:
  assumes "flow_inv lu i flow c st"
  shows "slots_inv c" "dom (slotMap c) \<subseteq> dom st" "[] \<notin> dom st"
    "\<And>x. x \<in> dom st \<Longrightarrow> (\<And>l. map_of lu x = Some l \<Longrightarrow> i \<le> l) \<Longrightarrow> x \<in> dom (slotMap c)"
    "\<And>j x. j < length flow \<Longrightarrow> x \<in> set (varRefsInStep (cfg (flow ! j))) \<Longrightarrow> \<exists>l \<ge> i + j. map_of lu x = Some l"
  using assms unfolding flow_inv_def by (blast, blast, blast, blast, blast)

lemma flow_inv_live:
  assumes "flow_inv lu i (step # flow) c st" "x \<in> set (varRefsInStep (cfg step))" "x \<in> dom st" shows "x \<in> dom (slotMap c)"
proof (rule flow_invD(4) [OF assms(1,3)])
  show "i \<le> l" if "map_of lu x = Some l" for l
    using flow_invD(5) [OF assms(1), of 0 x] assms(2) that by simp
qed

lemma flow_inv_step:
  assumes perm: "\<forall>lu. set (range_order env lu) = set lu" and dist: "distinct (map fst lu)"
    and c1: "compileStep n env step c = Some (Inr c1)" and s1: "src_step env m step (st, r) = Some (st1, r1)"
    and inv: "flow_inv lu i (step # flow) c st"
  shows "goes c (after_step env lu i c c1) (sim (slotMap c) st r m) (sim (slotMap (after_step env lu i c c1)) st1 r1 m)"
    "flow_inv lu (Suc i) flow (after_step env lu i c c1) st1"
proof -
  let ?t = "tag_steps (length (GlobalTable c)) (i16 (int i)) c1" and ?c2 = "after_step env lu i c c1"
  note i = flow_invD [OF inv]
  have g: "goes c c1 (sim (slotMap c) st r m) (sim (slotMap c1) st1 r1 m)" "[] \<notin> dom st1"
      "dom (slotMap c1) = dom (slotMap c) \<union> (dom st1 - dom st)" "dom st \<subseteq> dom st1"
    using text_step_goes [OF s1 c1 i(1-3) flow_inv_live [OF inv]] by blast+
  have rel: "slotMap ?c2 \<subseteq>\<^sub>m slotMap c1" "GlobalTable ?c2 = GlobalTable ?t"
      "\<And>x. (x, i) \<notin> set lu \<Longrightarrow> slotMap ?c2 x = slotMap c1 x"
    using release_law [of i "range_order env lu" ?t] perm by (simp_all add: releaseDeadSlots_def)
  show "goes c ?c2 (sim (slotMap c) st r m) (sim (slotMap ?c2) st1 r1 m)"
    by (rule goes_cong [of c c1 _ "sim (slotMap c1) st1 r1 m"]) (rule g(1), simp add: rel(2), rule sim_weaken [OF _ rel(1)])
  have "slots_inv ?c2" using keeps_oD [OF keeps_compileStep c1 i(1)] by (simp add: releaseDeadSlots_def slots_inv_release)
  moreover have "dom (slotMap ?c2) \<subseteq> dom st1" using map_le_implies_dom_le [OF rel(1)] g(3,4) i(2) by blast
  moreover have "x \<in> dom (slotMap ?c2)" if x: "x \<in> dom st1" "\<forall>l. map_of lu x = Some l \<longrightarrow> Suc i \<le> l" for x
  proof -
    have "x \<in> dom (slotMap c)" if "x \<in> dom st" using i(4) [OF that] x(2) by (meson Suc_leD)
    then have "x \<in> dom (slotMap c1)" unfolding g(3) using x(1) by blast
    moreover have "(x, i) \<notin> set lu" using x(2) dist by (metis map_of_is_SomeI not_less_eq_eq order_refl)
    ultimately show ?thesis using rel(3) by (simp add: domIff)
  qed
  moreover have "\<exists>l \<ge> Suc i + j. map_of lu x = Some l" if "j < length flow" "x \<in> set (varRefsInStep (cfg (flow ! j)))" for j x
    using i(5) [of "Suc j" x] that by simp
  ultimately show "flow_inv lu (Suc i) flow ?c2 st1" using g(2) unfolding flow_inv_def by simp
qed

lemma text_flow_goes:
  assumes "\<forall>lu. set (range_order env lu) = set lu" "distinct (map fst lu)"
  shows "bake_steps env (compileStep n env) lu i flow c = Some (Inr c') \<Longrightarrow> src_flow env m flow (st, r) = Some (st', r') \<Longrightarrow>
    flow_inv lu i flow c st \<Longrightarrow> goes c c' (sim (slotMap c) st r m) (\<lambda>ctx s. flow_ok ctx \<and> meta ctx = m \<and> resp ctx = r')"
proof (induction flow arbitrary: i c st r)
  case Nil
  then have [simp]: "c' = c" "r' = r" by auto
  show ?case by (rule goes_cong [OF goes_refl [of c "sim (slotMap c) st r m"]]) (simp_all add: sim_def)
next
  case (Cons step flow)
  obtain c1 where c1: "compileStep n env step c = Some (Inr c1)"
      "bake_steps env (compileStep n env) lu (Suc i) flow (after_step env lu i c c1) = Some (Inr c')"
    using Cons.prems(1) by (auto elim: bind_o_SomeE)
  obtain st1 r1 where s1: "src_step env m step (st, r) = Some (st1, r1)" "src_flow env m flow (st1, r1) = Some (st', r')"
    using Cons.prems(2) by (auto split: bind_splits)
  note f = flow_inv_step [OF assms c1(1) s1(1) Cons.prems(3)]
  show ?case by (rule goes_trans [OF f(1) Cons.IH [OF c1(2) s1(2) f(2)]])
qed

lemma exec_n_loop:
  "exec_n obs table n k pc ctx s = Inr (int (length table), ctx', s') \<Longrightarrow> length table < 2 ^ 15 \<Longrightarrow>
   exec_loop obs table k pc ctx s = Some (Inr (ctx', s'))"
proof (induction n arbitrary: k pc ctx s)
  case 0
  then show ?case by (simp add: exec_loop.simps i16_id)
next
  case (Suc n)
  then obtain pc1 ctx1 s1 where e: "exec_step obs table k pc ctx s = Inr (pc1, ctx1, s1)"
      "exec_n obs table n (Suc k) pc1 ctx1 s1 = Inr (int (length table), ctx', s')"
    by (auto simp: andThen_eq_Inr_iff)
  have pc: "0 \<le> pc" "pc < i16 (int (length table))"
    using e(1) Suc.prems(2) by (auto simp: exec_step_def andThen_eq_Inr_iff idx_eq_Inr_iff i16_id)
  have "pc1 \<noteq> StopPlan"
    using e(2) by (cases n) (auto simp: StopPlan_def exec_step_def andThen_eq_Inr_iff idx_eq_Inr_iff)
  then show ?case using Suc.IH [OF e(2) Suc.prems(2)] e(1) pc by (subst exec_loop.simps) simp
qed

lemma runs_Execute:
  assumes "runs obs table P 0 Q (int (length table))" "length table < 2 ^ 15" "\<And>s. P ctx s"
  shows "\<exists>ctx' s'. Execute obs table 0 d ctx = Some (Inr ctx') \<and> Q ctx' s'"
proof -
  let ?s = "if d > 15 then zero_state\<lparr>LinkExt := Some BorrowLinkExt\<rparr> else zero_state"
  obtain n ctx' s' where "exec_n obs table n 0 0 ctx ?s = Inr (int (length table), ctx', s')" "Q ctx' s'"
    using assms(1,3) unfolding runs_def by blast
  then show ?thesis using exec_n_loop [OF _ assms(2)] unfolding Execute_def by fastforce
qed

lemma stream_frags_none: "frags env = Map.empty \<Longrightarrow> length refs < n \<Longrightarrow> stream_frags n env refs v = Some (True, v)"
proof (induction refs arbitrary: n)
  case Nil
  then show ?case by (cases n) simp_all
next
  case (Cons ref refs)
  then show ?case by (cases n) simp_all
qed

definition stream_fuel :: "StepConfig list \<Rightarrow> nat" where
  "stream_fuel flow = sum_list (map (\<lambda>step. 4 + length (sCases (cfg step))) flow) + 1"

lemma stream_steps_flat:
  "frags env = Map.empty \<Longrightarrow> \<forall>step \<in> set flow. Do step = [] \<and> sAction (cfg step) \<noteq> bytes_of ''set_response_body'' \<and>
     sAction (cfg step) \<noteq> bytes_of ''http_call'' \<Longrightarrow> stream_fuel flow \<le> n \<Longrightarrow> stream_steps n env flow v = Some (True, v)"
proof (induction flow arbitrary: n)
  case Nil
  then show ?case by (cases n) (simp_all add: stream_fuel_def)
next
  case (Cons step flow)
  obtain k where k: "n = Suc k" using Cons.prems(3) by (cases n) (simp_all add: stream_fuel_def)
  obtain s where s: "step = Step s []" using Cons.prems(2) by (cases step) simp
  have fuel: "stream_fuel flow \<le> k" "length ([sThen s, sElse s, sFlowName s] @ map snd (sCases s)) < k"
    using Cons.prems(3) k s by (simp_all add: stream_fuel_def)
  have "stream_steps k env [] v = Some (True, v)" using fuel(2) by (cases k) simp_all
  moreover have "stream_steps k env flow v = Some (True, v)" using Cons.IH [OF Cons.prems(1) _ fuel(1)] Cons.prems(2) by simp
  ultimately show ?case using Cons.prems(2) stream_frags_none [OF Cons.prems(1) fuel(2), of v] unfolding k s by simp
qed

lemma src_flow_steps: "src_flow env m flow (st, r) = Some x \<Longrightarrow> step \<in> set flow \<Longrightarrow> plain step \<and> (\<exists>a \<in> set text_actions. sAction (cfg step) = bytes_of a)"
proof (induction flow arbitrary: st r)
  case (Cons s flow)
  obtain st1 r1 where s: "src_step env m s (st, r) = Some (st1, r1)" "src_flow env m flow (st1, r1) = Some x"
    using Cons.prems(1) by (auto split: bind_splits)
  have "plain s \<and> (\<exists>a \<in> set text_actions. sAction (cfg s) = bytes_of a)"
    using s(1) by (cases rule: src_step_cases) (auto simp: text_actions_def)
  then show ?case using Cons.IH [OF s(2)] Cons.prems(2) by auto
qed simp

definition flow_result :: "Env \<Rightarrow> StepConfig list \<Rightarrow> Context \<Rightarrow> Response option" where
  \<comment> \<open>the response the flow asks for; streaming is on unless a step sets the body\<close>
  "flow_result env flow ctx = map_option snd (src_flow env (meta ctx) flow
     (Map.empty, (resp ctx)\<lparr>StreamResponseBody := \<forall>step \<in> set flow. sAction (cfg step) \<noteq> bytes_of ''set_response_body''\<rparr>))"

subsection \<open>Flows with few variables compile\<close>

definition slots_exact :: "Compiler \<Rightarrow> bool" where
  \<comment> \<open>every slot handed out is in use or free again\<close>
  "slots_exact c \<longleftrightarrow> finite (dom (slotMap c)) \<and> nextSlot c = int (card (dom (slotMap c)) + length (freeSlots c))"

lemma slots_exact_emit [simp]: "slots_exact (emit_instr nm a c) = slots_exact c" "slots_exact (tag_steps k i c) = slots_exact c"
  by (simp_all add: slots_exact_def emit_instr_def tag_steps_def)

lemma length_emit [simp]: "length (GlobalTable (emit_instr nm a c)) = Suc (length (GlobalTable c))"
  by (simp add: emit_instr_def)

lemma getSlot_exact:
  assumes "slots_exact c" "dom (slotMap c) \<subseteq> N" "x \<in> N" "finite N" "card N \<le> 48"
  shows "\<exists>i c'. getSlot x c = Inr (i, c') \<and> slots_exact c' \<and> dom (slotMap c') = insert x (dom (slotMap c)) \<and> GlobalTable c' = GlobalTable c"
proof (cases "slotMap c x")
  case (Some i)
  then show ?thesis using assms(1) by (simp add: getSlot_def domI insert_absorb)
next
  case None
  then have x: "x \<notin> dom (slotMap c)" by (simp add: domIff)
  show ?thesis
  proof (cases "freeSlots c = []")
    case True
    have "card (insert x (dom (slotMap c))) \<le> 48" using assms(2-5) by (meson card_mono insert_subset le_trans)
    then have "card (dom (slotMap c)) < 48" using x assms(1) by (simp add: slots_exact_def)
    then show ?thesis using None True assms(1) x by (simp add: getSlot_def slots_exact_def BaseByteSlots_def)
  next
    case False
    then obtain k where "length (freeSlots c) = Suc k" by (cases "freeSlots c") auto
    then show ?thesis using None False assms(1) x by (simp add: getSlot_def slots_exact_def Let_def)
  qed
qed

lemma slots_exact_release: "slots_exact c \<Longrightarrow> slots_exact (release i lu c)"
proof (induction i lu c rule: release.induct)
  case (2 i name l lu c)
  have "slots_exact (c\<lparr>freeSlots := freeSlots c @ [slot], slotMap := (slotMap c)(name := None)\<rparr>)" if "slotMap c name = Some slot" for slot
  proof -
    have "card (dom (slotMap c) - {name}) + 1 = card (dom (slotMap c))"
      using 2(2) that by (metis Suc_eq_plus1 card_Suc_Diff1 domI slots_exact_def)
    then show ?thesis using 2(2) by (simp add: slots_exact_def)
  qed
  then show ?case using 2 by (auto split: option.splits)
qed simp

lemma assign_compiles:
  assumes "sAction s = bytes_of a" "a \<in> set (take 7 text_actions)" "assigned_value env m st s = Some v"
    and known: "\<And>x. x \<in> {sSource s, sKeyIdentifier s} \<Longrightarrow> x \<in> dom st \<Longrightarrow> x \<in> dom (slotMap c)"
    and g: "getSlot (sAs s) c = Inr (i, c1)"
  shows "\<exists>nm act. compile_leaf env s c = Inr (emit_instr nm act c1)"
proof -
  have src: "\<exists>j. getSlot x c = Inr (j, c)" if "x \<in> {sSource s, sKeyIdentifier s}" "st x \<noteq> None" for x
    using known [OF that(1)] that(2) by (auto simp: getSlot_def domIff)
  have unary: "\<exists>nm act. src_as n f s c = Inr (emit_instr nm act c1)" if h: "st (sSource s) \<noteq> None" for n f
  proof -
    obtain j where "getSlot (sSource s) c = Inr (j, c)" using src [OF _ h] by blast
    then show ?thesis using g by (intro exI [of _ n] exI [of _ "f j i"]) (simp add: src_as_def with_slot_def bind_e_def)
  qed
  have nullary: "\<exists>nm act. dest_step n f s c = Inr (emit_instr nm act c1)" for n f
    using g by (intro exI [of _ n] exI [of _ "f i"]) (simp add: dest_step_def with_slot_def bind_e_def)
  have ternary: "\<exists>nm act. three_slots n f s c = Inr (emit_instr nm act c1)" if h: "st (sKeyIdentifier s) \<noteq> None" "st (sSource s) \<noteq> None" for n f
  proof -
    obtain j k where "getSlot (sKeyIdentifier s) c = Inr (j, c)" "getSlot (sSource s) c = Inr (k, c)"
      using src [OF _ h(1)] src [OF _ h(2)] by blast
    then show ?thesis using g by (intro exI [of _ n] exI [of _ "f j k i"]) (simp add: three_slots_def with_slot_def bind_e_def)
  qed
  have "a = ''set_const'' \<or> a = ''bind_header'' \<or> a = ''bind_query_param'' \<or> a = ''to_lower'' \<or> a = ''to_upper'' \<or>
    a = ''trim'' \<or> a = ''concat''"
    using assms(2) by (simp add: text_actions_def)
  moreover have "st (sSource s) \<noteq> None" if "a \<in> {''to_lower'', ''to_upper'', ''trim'', ''concat''}"
    using assms(1,3) that by (auto simp: assigned_value_def split: bind_splits)
  moreover have "st (sKeyIdentifier s) \<noteq> None" if "a = ''concat''"
    using assms(1,3) that by (auto simp: assigned_value_def split: bind_splits)
  ultimately show ?thesis unfolding compile_leaf_def assms(1) text_bytes
    by (elim disjE) (simp_all add: compile_set_const_def compile_bind_header_def compile_bind_query_param_def
      compile_to_lower_def compile_to_upper_def compile_trim_def compile_concat_def unary nullary ternary)
qed

lemma response_compiles:
  assumes "sAction s = bytes_of a" "a \<in> {''set_response_header'', ''set_response_body''}" "getSlot (sSource s) c = Inr (i, c1)"
  shows "\<exists>c'. compile_leaf env s c = Inr c' \<and> (slots_exact c1 \<longrightarrow> slots_exact c') \<and> slotMap c' = slotMap c1 \<and>
    length (GlobalTable c') \<le> length (GlobalTable c1) + 2"
proof -
  have l: "\<exists>c'. literal_slot s (\<lambda>i c. Inr (emit_instr nm (act i) c)) c = Inr c' \<and> (slots_exact c1 \<longrightarrow> slots_exact c') \<and>
      slotMap c' = slotMap c1 \<and> length (GlobalTable c') \<le> length (GlobalTable c1) + 2" for nm act
    using assms(3) by (simp add: literal_slot_def with_slot_def bind_e_def)
  show ?thesis
  proof (cases "a = ''set_response_header''")
    case True
    then show ?thesis using l [of "''SET_RESPONSE_HEADER''" "SetResponseHeaderFromSlot (sKey s)"]
      by (simp add: compile_leaf_def assms(1) compile_set_response_header_def)
  next
    case False
    then show ?thesis using l [of "''SET_RESPONSE_BODY''" SetResponseBodyStep] assms(2)
      by (simp add: compile_leaf_def assms(1) compile_set_response_body_def)
  qed
qed

lemma text_step_compiles:
  assumes src: "src_step env m step (st, r) = Some (st', r')" and "slots_exact c" "dom (slotMap c) \<subseteq> N" "[] \<notin> dom st"
    and N: "sAs (cfg step) \<in> N" "sSource (cfg step) \<in> N" "finite N" "card N \<le> 48"
    and live: "\<And>x. x \<in> set (varRefsInStep (cfg step)) \<Longrightarrow> x \<in> dom st \<Longrightarrow> x \<in> dom (slotMap c)"
  shows "\<exists>c'. compileStep (Suc n) env step c = Some (Inr c') \<and> slots_exact c' \<and> dom (slotMap c') \<subseteq> N \<and>
    length (GlobalTable c') \<le> length (GlobalTable c) + 2"
proof -
  let ?s = "cfg step"
  have known: "x \<in> dom (slotMap c)" if "x \<in> {sSource ?s, sKeyIdentifier ?s}" "x \<in> dom st" for x
  proof -
    have "x \<noteq> []" using that(2) assms(4) by auto
    then show ?thesis using live [OF refs_in_step [of x ?s]] that by blast
  qed
  have leaf: ?thesis if p: "plain step" "sAction ?s = bytes_of a" "a \<in> set text_actions"
      "compile_leaf env ?s c = Inr c'" "slots_exact c'" "dom (slotMap c') \<subseteq> N" "length (GlobalTable c') \<le> length (GlobalTable c) + 2" for a c'
  proof -
    have "a \<noteq> ''if'' \<and> a \<noteq> ''switch'' \<and> a \<noteq> ''foreach'' \<and> a \<noteq> ''while'' \<and> a \<noteq> ''call'' \<and> a \<noteq> ''transaction''"
      using p(3) by (auto simp: text_actions_def)
    then have "compile_body n env (compileStep n env) step c = Some (Inr c')"
      using p(4) observe_plain [OF p(1)] by (simp add: compile_body_def p(2) Let_def bind_o_def)
    then show ?thesis using p(5-7) by simp
  qed
  have respond: ?thesis if p: "plain step" "sAction ?s = bytes_of a" "a \<in> {''set_response_header'', ''set_response_body''}" for a
  proof -
    obtain i c1 where g: "getSlot (sSource ?s) c = Inr (i, c1)" "slots_exact c1" "dom (slotMap c1) = insert (sSource ?s) (dom (slotMap c))"
        "GlobalTable c1 = GlobalTable c"
      using getSlot_exact [OF assms(2,3) N(2,3,4)] by blast
    obtain c' where c': "compile_leaf env ?s c = Inr c'" "slots_exact c'" "slotMap c' = slotMap c1" "length (GlobalTable c') \<le> length (GlobalTable c1) + 2"
      using response_compiles [OF p(2,3) g(1), of env] g(2) by blast
    have a: "a \<in> set text_actions" using p(3) by (auto simp: text_actions_def)
    show ?thesis by (rule leaf [OF p(1,2) a c'(1,2)]) (use c'(3,4) g(3,4) N(2) assms(3) in simp_all)
  qed
  show ?thesis
    using src
  proof (cases rule: src_step_cases)
    case (assign a v)
    obtain i c1 where g: "getSlot (sAs ?s) c = Inr (i, c1)" "slots_exact c1" "dom (slotMap c1) = insert (sAs ?s) (dom (slotMap c))"
        "GlobalTable c1 = GlobalTable c"
      using getSlot_exact [OF assms(2,3) N(1,3,4)] by blast
    obtain nm act where l: "compile_leaf env ?s c = Inr (emit_instr nm act c1)" using assign_compiles [OF assign(2-4) known g(1)] by blast
    show ?thesis by (rule leaf [OF assign(1,2) in_set_takeD [OF assign(3)] l]) (use g N(1) assms(3) in simp_all)
  next
    case (known' a v)
    then show ?thesis using respond by blast
  next
    case (literal a)
    then show ?thesis using respond by blast
  next
    case remove
    have l: "compile_leaf env ?s c = Inr (emit_instr ''REMOVE_RESPONSE_HEADER'' (RemoveResponseHeaderStep (sKey ?s)) c)"
      by (simp add: compile_leaf_def remove(2) compile_remove_response_header_def)
    show ?thesis by (rule leaf [OF remove(1,2) _ l]) (use assms(2,3) in \<open>simp_all add: text_actions_def\<close>)
  qed
qed

lemma text_flow_compiles:
  assumes "\<forall>lu. set (range_order env lu) = set lu" "distinct (map fst lu)" "finite N" "card N \<le> 48"
  shows "src_flow env m flow (st, r) = Some x \<Longrightarrow> flow_inv lu i flow c st \<Longrightarrow> slots_exact c \<Longrightarrow> dom (slotMap c) \<subseteq> N \<Longrightarrow>
    \<forall>step \<in> set flow. sAs (cfg step) \<in> N \<and> sSource (cfg step) \<in> N \<Longrightarrow>
    \<exists>c'. bake_steps env (compileStep (Suc n) env) lu i flow c = Some (Inr c') \<and> length (GlobalTable c') \<le> length (GlobalTable c) + 2 * length flow"
proof (induction flow arbitrary: i c st r)
  case (Cons step flow)
  obtain st1 r1 where s1: "src_step env m step (st, r) = Some (st1, r1)" "src_flow env m flow (st1, r1) = Some x"
    using Cons.prems(1) by (auto split: bind_splits)
  have n: "[] \<notin> dom st" "sAs (cfg step) \<in> N" "sSource (cfg step) \<in> N" using Cons.prems(2,5) by (auto simp: flow_inv_def)
  obtain c1 where c1: "compileStep (Suc n) env step c = Some (Inr c1)" "slots_exact c1" "dom (slotMap c1) \<subseteq> N"
      "length (GlobalTable c1) \<le> length (GlobalTable c) + 2"
    using text_step_compiles [OF s1(1) Cons.prems(3,4) n assms(3,4) flow_inv_live [OF Cons.prems(2)], of n] by blast
  let ?c2 = "after_step env lu i c c1"
  have f: "flow_inv lu (Suc i) flow ?c2 st1" by (rule flow_inv_step(2) [OF assms(1,2) c1(1) s1(1) Cons.prems(2)])
  have r: "slotMap ?c2 \<subseteq>\<^sub>m slotMap c1" "length (GlobalTable ?c2) = length (GlobalTable c1)" "slots_exact ?c2"
    using release_law [of i "range_order env lu" "tag_steps (length (GlobalTable c)) (i16 (int i)) c1"]
      slots_exact_release [of "tag_steps (length (GlobalTable c)) (i16 (int i)) c1"] c1(2)
    by (simp_all add: releaseDeadSlots_def) (simp add: tag_steps_def)
  have "dom (slotMap ?c2) \<subseteq> N" using map_le_implies_dom_le [OF r(1)] c1(3) by blast
  then obtain c' where "bake_steps env (compileStep (Suc n) env) lu (Suc i) flow ?c2 = Some (Inr c')"
      "length (GlobalTable c') \<le> length (GlobalTable ?c2) + 2 * length flow"
    using Cons.IH [OF s1(2) f r(3)] Cons.prems(5) by auto
  then show ?case using c1(1,4) r(2) by (simp add: bind_o_def del: compileStep.simps)
qed simp

lemma text_computeLastUse:
  "\<forall>step \<in> set flow. \<exists>a \<in> set text_actions. sAction (cfg step) = bytes_of a \<Longrightarrow> \<exists>lu'. computeLastUse n env i flow lu = Some lu'"
proof (induction flow arbitrary: i lu)
  case (Cons step flow)
  then obtain a where a: "a \<in> set text_actions" "sAction (cfg step) = bytes_of a" by auto
  then have "a \<noteq> ''if'' \<and> a \<noteq> ''pattern_match'' \<and> a \<noteq> ''foreach'' \<and> a \<noteq> ''call''" by (auto simp: text_actions_def)
  then have "branch_refs n env step = Some []" using a(2) by (simp add: branch_refs_def Let_def)
  then show ?case using Cons by simp
qed simp

lemma text_canStream:
  assumes "frags env = Map.empty" "src_flow env m flow (st, r) = Some x" "stream_fuel flow \<le> n"
  shows "canStreamResponseBodyWithFragments n env flow = Some (\<forall>step \<in> set flow. sAction (cfg step) \<noteq> bytes_of ''set_response_body'')"
proof (cases "\<exists>step \<in> set flow. sAction (cfg step) = bytes_of ''set_response_body''")
  case False
  have "Do step = [] \<and> sAction (cfg step) \<noteq> bytes_of ''http_call''" if "step \<in> set flow" for step
    using src_flow_steps [OF assms(2) that] by (auto simp: plain_def text_actions_def)
  then have "stream_steps n env flow [] = Some (True, [])" using False assms(1,3) by (intro stream_steps_flat) auto
  then show ?thesis using False by (simp add: canStreamResponseBodyWithFragments_def)
qed (auto simp: canStreamResponseBodyWithFragments_def)

lemma src_flow_env: "src_flow (env\<lparr>frags := f\<rparr>) m flow st = src_flow env m flow st"
proof -
  have a: "assigned_value (env\<lparr>frags := f\<rparr>) m = assigned_value env m" by (simp add: assigned_value_def Let_def fun_eq_iff)
  have "src_step (env\<lparr>frags := f\<rparr>) m step = src_step env m step" for step unfolding src_step_def a ..
  then have "src_flow (env\<lparr>frags := f\<rparr>) m flow = src_flow env m flow" by (induction flow) (intro ext, simp)+
  then show ?thesis by simp
qed

lemma goes_whole:
  assumes "goes c0 c P Q" "GlobalTable c0 = []" "length (GlobalTable c) < 2 ^ 15"
  shows "runs obs (GlobalTable c) P 0 Q (int (length (GlobalTable c)))"
proof -
  have "code_at (GlobalTable c) 0 (GlobalTable c)" using assms(3) by (simp add: code_at_def)
  moreover have "map Action (GlobalTable c) = map Action (GlobalTable c0) @ map Action (GlobalTable c)" using assms(2) by simp
  ultimately have "runs obs (GlobalTable c) P (int 0) Q (int (0 + length (GlobalTable c)))"
    using assms(1) unfolding goes_def by (metis same_append_eq)
  then show ?thesis by simp
qed

lemma compiled_text_flow:
  assumes perm: "\<forall>lu. set (range_order env lu) = set lu"
    and src: "src_flow env m flow (Map.empty, r\<lparr>StreamResponseBody := \<forall>step \<in> set flow. sAction (cfg step) \<noteq> bytes_of ''set_response_body''\<rparr>) = Some (st, r')"
    and small: "card (\<Union>step \<in> set flow. {sAs (cfg step), sSource (cfg step)}) \<le> 48" "length flow < 2 ^ 14"
    and fuel: "stream_fuel flow \<le> n"
  shows "\<exists>c. Compile n env flow c0 = Some (Inr c) \<and> length (GlobalTable c) < 2 ^ 15 \<and>
    (\<forall>obs. runs obs (GlobalTable c) (\<lambda>ctx s. flow_ok ctx \<and> meta ctx = m \<and> resp ctx = r) 0
      (\<lambda>ctx s. flow_ok ctx \<and> meta ctx = m \<and> resp ctx = r') (int (length (GlobalTable c))))"
proof -
  let ?env = "env\<lparr>frags := Map.empty\<rparr>" and ?b = "\<forall>step \<in> set flow. sAction (cfg step) \<noteq> bytes_of ''set_response_body''"
  let ?r = "r\<lparr>StreamResponseBody := ?b\<rparr>" and ?N = "\<Union>step \<in> set flow. {sAs (cfg step), sSource (cfg step)}"
  let ?c0 = "resetSlots (c0\<lparr>GlobalTable := []\<rparr>)"
  let ?c1 = "emit_instr ''SET_STREAM_RESPONSE_BODY'' (SetStreamResponseBodyStep ?b) ?c0"
  have perm': "\<forall>lu. set (range_order ?env lu) = set lu" using perm by simp
  have src': "src_flow ?env m flow (Map.empty, ?r) = Some (st, r')" using src by (simp add: src_flow_env)
  obtain k where k: "n = Suc k" using fuel by (cases n) (simp_all add: stream_fuel_def)
  obtain lu where lu: "computeLastUse n ?env 0 flow [] = Some lu" using text_computeLastUse src_flow_steps [OF src'] by meson
  have dist: "distinct (map fst lu)" using computeLastUse_distinct [OF lu] by simp
  have fi: "flow_inv lu 0 flow ?c1 Map.empty"
    using computeLastUse_refs [OF lu] by (simp add: flow_inv_def slots_inv_def resetSlots_def emit_instr_def)
  have ex: "slots_exact ?c1" "dom (slotMap ?c1) \<subseteq> ?N" by (simp_all add: slots_exact_def resetSlots_def emit_instr_def)
  obtain c where c: "bake_steps ?env (compileStep n ?env) lu 0 flow ?c1 = Some (Inr c)"
      "length (GlobalTable c) \<le> length (GlobalTable ?c1) + 2 * length flow"
    using text_flow_compiles [OF perm' dist _ small(1) src' fi ex, of k] unfolding k by auto
  have "Compile n env flow c0 = Some (Inr c)"
    using c(1) text_canStream [OF _ src' fuel] lu by (simp add: Compile_def Let_def bakeFlow_def)
  moreover have len: "length (GlobalTable c) < 2 ^ 15" using c(2) small(2) by (simp add: resetSlots_def)
  moreover have "goes ?c0 ?c1 (\<lambda>ctx s. flow_ok ctx \<and> meta ctx = m \<and> resp ctx = r) (sim (slotMap ?c1) Map.empty ?r m)"
    by (rule goes_one [OF map_Action_emit(1) _ stable_sim])
      (auto simp: stable_def log_instr_def SetStreamResponseBodyStep_def continue_def sim_def with_resp_def resetSlots_def
        flow_ok_resp [unfolded with_resp_def] split: option.splits)
  then have "goes ?c0 c (\<lambda>ctx s. flow_ok ctx \<and> meta ctx = m \<and> resp ctx = r) (\<lambda>ctx s. flow_ok ctx \<and> meta ctx = m \<and> resp ctx = r')"
    by (rule goes_trans [OF _ text_flow_goes [OF perm' dist c(1) src' fi]])
  from goes_whole [OF this _ len] have "runs obs (GlobalTable c) (\<lambda>ctx s. flow_ok ctx \<and> meta ctx = m \<and> resp ctx = r) 0
      (\<lambda>ctx s. flow_ok ctx \<and> meta ctx = m \<and> resp ctx = r') (int (length (GlobalTable c)))" for obs
    by (simp add: resetSlots_def)
  ultimately show ?thesis by blast
qed

text \<open>C2. The compiler and the executor together compute what a flow says. A straight flow of the text steps (constants, headers,
  query parameters, case changes, trimming, concatenation, response headers and body) that reads only variables it has set, with at most
  48 variable names, compiles given enough fuel, and executing the table leaves in the context exactly the response the flow describes,
  although the compiler lets variables share slots once they are not read any more.\<close>

theorem compiled_flow_correct:
  assumes "\<forall>lu. set (range_order env lu) = set lu" "flow_result env flow ctx = Some r" "flow_ok ctx"
    "card (\<Union>step \<in> set flow. {sAs (cfg step), sSource (cfg step)}) \<le> 48" "length flow < 2 ^ 14"
  shows "\<exists>n0. \<forall>n \<ge> n0. \<exists>c ctx'. Compile n env flow c0 = Some (Inr c) \<and>
    Execute obs (GlobalTable c) 0 d ctx = Some (Inr ctx') \<and> resp ctx' = r"
proof (rule exI [of _ "stream_fuel flow"], intro allI impI)
  fix n assume n: "stream_fuel flow \<le> n"
  obtain st where "src_flow env (meta ctx) flow (Map.empty, (resp ctx)\<lparr>StreamResponseBody :=
      \<forall>step \<in> set flow. sAction (cfg step) \<noteq> bytes_of ''set_response_body''\<rparr>) = Some (st, r)"
    using assms(2) by (auto simp: flow_result_def)
  from compiled_text_flow [OF assms(1) this assms(4,5) n, of c0] obtain c where c: "Compile n env flow c0 = Some (Inr c)"
      "length (GlobalTable c) < 2 ^ 15"
      "runs obs (GlobalTable c) (\<lambda>ctx' s. flow_ok ctx' \<and> meta ctx' = meta ctx \<and> resp ctx' = resp ctx) 0
        (\<lambda>ctx' s. flow_ok ctx' \<and> meta ctx' = meta ctx \<and> resp ctx' = r) (int (length (GlobalTable c)))"
    by blast
  then show "\<exists>c ctx'. Compile n env flow c0 = Some (Inr c) \<and> Execute obs (GlobalTable c) 0 d ctx = Some (Inr ctx') \<and> resp ctx' = r"
    using runs_Execute [OF c(3,2), of ctx d] assms(3) by blast
qed

end
