(* ===== verification/Rah_Compile_Limits.thy ===== *)
theory Rah_Compile_Limits
  imports Rah_Compile_Correct
begin

text \<open>
  Concrete flows, compiled and run: instances of the general theorems on the compiler, and flows it does not compile to what they say.
\<close>

definition plain_env :: "fragments \<Rightarrow> Env" where
  \<comment> \<open>an environment with the fragments, a request without headers and no database\<close>
  "plain_env fs = \<lparr>frags = fs, range_order = (\<lambda>lu. lu), env_request = Some (\<lambda>_. []), env_gjson = (\<lambda>_ _. []), env_array = (\<lambda>_. None),
     env_body = None, env_regex = (\<lambda>_. None), env_db = (\<lambda>_. (False, False, \<lambda>_. False, False))\<rparr>"

definition const_step :: "string \<Rightarrow> string \<Rightarrow> StepConfig" where
  "const_step x v = Step (blank\<lparr>sAction := bytes_of ''set_const'', sAs := bytes_of x, sValue := bytes_of v\<rparr>) []"

definition lower_step :: "string \<Rightarrow> string \<Rightarrow> StepConfig" where
  "lower_step x y = Step (blank\<lparr>sAction := bytes_of ''to_lower'', sSource := bytes_of x, sAs := bytes_of y\<rparr>) []"

definition concat_step :: "string \<Rightarrow> string \<Rightarrow> string \<Rightarrow> StepConfig" where
  "concat_step x y z = Step (blank\<lparr>sAction := bytes_of ''concat'', sKeyIdentifier := bytes_of x, sSource := bytes_of y, sAs := bytes_of z\<rparr>) []"

definition body_step :: "string \<Rightarrow> StepConfig" where
  "body_step x = Step (blank\<lparr>sAction := bytes_of ''set_response_body'', sSource := bytes_of x\<rparr>) []"

definition status_step :: "string \<Rightarrow> StepConfig" where
  "status_step n = Step (blank\<lparr>sAction := bytes_of ''set_response_status'', sValue := bytes_of n\<rparr>) []"

definition if_step :: "string \<Rightarrow> string \<Rightarrow> string \<Rightarrow> StepConfig" where
  "if_step b x y = Step (blank\<lparr>sAction := bytes_of ''if'', sCondition := bytes_of b, sThen := bytes_of x, sElse := bytes_of y\<rparr>) []"

definition compiled :: "Env \<Rightarrow> StepConfig list \<Rightarrow> Compiler option" where
  "compiled env flow = (case CompileExecutable 9 env flow NewCompiler of Some (Inr c) \<Rightarrow> Some c | _ \<Rightarrow> None)"

definition run_flow :: "Env \<Rightarrow> StepConfig list \<Rightarrow> Context \<Rightarrow> (bytes \<times> int) option" where
  \<comment> \<open>the body and the status of the response\<close>
  "run_flow env flow ctx =
     Option.bind (compiled env flow) (\<lambda>c.
       case Execute (\<lambda>_. None) (GlobalTable c) 0 0 ctx of
         Some (Inr ctx') \<Rightarrow> Some (ResponseBuffer (resp ctx'), ResponseStatus (resp ctx'))
       | _ \<Rightarrow> None)"

definition preset :: "int \<Rightarrow> string \<Rightarrow> Context \<Rightarrow> Context" where
  "preset i v ctx = (case set_byteSlot i (bytes_of v) ctx of Inr ctx' \<Rightarrow> ctx' | Inl _ \<Rightarrow> ctx)"

definition demo_flow :: "StepConfig list" where
  "demo_flow = [const_step ''x'' ''Ab'', lower_step ''x'' ''y'', const_step ''z'' ''C'', concat_step ''y'' ''z'' ''w'', body_step ''w'']"

theorem slots_stay_distinct_witness:
  "\<exists>c'. compileStep 9 (plain_env Map.empty) (concat_step ''x'' ''y'' ''z'') NewCompiler = Some (Inr c') \<and> slotMap c' (bytes_of ''z'') = Some 2 \<and>
     (\<forall>x. slotMap c' x = Some 2 \<longrightarrow> x = bytes_of ''z'')"
proof -
  let ?r = "compileStep 9 (plain_env Map.empty) (concat_step ''x'' ''y'' ''z'') NewCompiler"
  have "(case ?r of Some (Inr c') \<Rightarrow> slotMap c' (bytes_of ''z'') | _ \<Rightarrow> None) = Some 2" by code_simp
  then obtain c' where c': "?r = Some (Inr c')" "slotMap c' (bytes_of ''z'') = Some 2" by (auto split: option.splits sum.splits)
  have "slots_inv NewCompiler" by (simp add: slots_inv_def NewCompiler_def)
  then show ?thesis using slots_stay_distinct [of NewCompiler 9 "plain_env Map.empty" "concat_step ''x'' ''y'' ''z''" c'] c' by blast
qed

theorem compiled_flow_correct_witness:
  "\<exists>n0. \<forall>n \<ge> n0. \<exists>c ctx'. Compile n (plain_env Map.empty) demo_flow NewCompiler = Some (Inr c) \<and>
     Execute (\<lambda>_. None) (GlobalTable c) 0 0 (fresh_context 64) = Some (Inr ctx') \<and> ResponseBuffer (resp ctx') = bytes_of ''abC''"
proof -
  have "map_option ResponseBuffer (flow_result (plain_env Map.empty) demo_flow (fresh_context 64)) = Some (bytes_of ''abC'')" by code_simp
  then obtain r where r: "flow_result (plain_env Map.empty) demo_flow (fresh_context 64) = Some r" "ResponseBuffer r = bytes_of ''abC''"
    by auto
  have "\<forall>lu. set (range_order (plain_env Map.empty) lu) = set lu" by (simp add: plain_env_def)
  moreover have "card (\<Union>step \<in> set demo_flow. {sAs (cfg step), sSource (cfg step)}) \<le> 48" "length demo_flow < 2 ^ 14" by code_simp+
  ultimately show ?thesis
    using compiled_flow_correct [OF _ r(1) flow_ok_fresh, of NewCompiler "\<lambda>_. None" 0] r(2) by metis
qed

text \<open>Two branches of an \<open>if\<close> that use the same literal are compiled wrongly. The flow sets the body to a literal in both branches
  and then the status. The literal is a known variable once the first branch is compiled, so the second branch has no instruction that
  stores it and its body is empty; and the jump over the second branch, counted before, skips the step after the \<open>if\<close>.\<close>

theorem if_shared_literal:
  "let run = run_flow (plain_env [bytes_of ''hello'' \<mapsto> [body_step ''hello'']]) [if_step ''method'' ''hello'' ''hello'', status_step ''404''];
       ctx = fresh_context 64
   in run (ctx\<lparr>meta := (meta ctx)\<lparr>Method := bytes_of ''GET''\<rparr>\<rparr>) = Some (bytes_of ''hello'', 0) \<and> run ctx = Some ([], 404)"
  by code_simp

text \<open>The constants of an endpoint do not reach its flow. The flow reads the constant \<open>greeting\<close> in slot 0, but all slots of the
  flow are released when it has been compiled, so the constant is given a slot of its own after it, slot 3, as \<open>EndpointConfigs\<close> are set
  up. A run with the constant there answers with an empty body; a run with it in slot 0 answers with the constant.\<close>

theorem constants_miss_flow:
  "let env = plain_env Map.empty; flow = [concat_step ''greeting'' ''name'' ''out'', body_step ''out'']; ctx = fresh_context 64
   in map_option (\<lambda>c. let (m, n) = SnapshotSlots c
        in case AllocConstantSlots [(bytes_of ''greeting'', bytes_of ''hi'')] (RestoreSlots m n c) of Inr (ss, _) \<Rightarrow> ss | Inl _ \<Rightarrow> [])
        (compiled env flow) = Some [(3, bytes_of ''hi'')] \<and>
      run_flow env flow (preset 3 ''hi'' ctx) = Some ([], 0) \<and> run_flow env flow (preset 0 ''hi'' ctx) = Some (bytes_of ''hi'', 0)"
  by code_simp

text \<open>Variables that only the body of a \<open>while\<close> reads are taken for dead before it: a flow that sets \<open>a\<close> to 1 and \<open>b\<close> to 2 and answers
  with both from inside a \<open>while\<close> loses the first, whereas the same body outside the loop answers 12.\<close>

theorem while_body_loses_variable:
  "let env = plain_env Map.empty; before = [const_step ''a'' ''1'', const_step ''b'' ''2'']; body = [concat_step ''a'' ''b'' ''c'', body_step ''c''];
       while_step = Step (blank\<lparr>sAction := bytes_of ''while'', sCondition := bytes_of ''path'', sInput := [(bytes_of ''max_iter'', bytes_of ''1'')]\<rparr>) body;
       ctx = fresh_context 64; ctx' = ctx\<lparr>meta := (meta ctx)\<lparr>Path := bytes_of ''/''\<rparr>\<rparr>
   in run_flow env (before @ body) ctx' = Some (bytes_of ''12'', 0) \<and> run_flow env (before @ [while_step]) ctx' = Some (bytes_of ''2'', 0)"
  by code_simp

end
