(* ===== verification/Rah_Ring.thy ===== *)
theory Rah_Ring
  imports Rah_Prelude
begin

unbundle bit_operations_syntax

section \<open>Bounded lock-free queues\<close>

text \<open>
  The rings through which events, scheduled tasks and log lines pass between goroutines
  (\<open>internal/ingest/ring.go\<close>, \<open>internal/scheduler/dispatch_ring.go\<close>, \<open>internal/gatewaylog/ring.go\<close>). All three give every cell a
  sequence number that says for which position it is ready. The operations of the first are written as atomic accesses
  (\<open>ring_step\<close>), so that they can be interleaved; \<open>TryPush\<close> and \<open>Pop\<close> run one of them to its end with nobody else
  running, which is also how the operations of the other two are modelled.
\<close>

subsection \<open>The event ring (\<open>ingest/ring.go\<close>)\<close>

record 'e ringSlot =
  ring_seq :: u64
  event :: 'e

record 'e Ring =
  enqPos :: u64
  deqPos :: u64
  ring_mask :: u64
  ring_slots :: "'e ringSlot list"

definition smear :: "nat \<Rightarrow> u64 \<Rightarrow> u64" where
  "smear k n = n OR drop_bit k n"

definition ring_nextPow2 :: "u64 \<Rightarrow> u64" where
  "ring_nextPow2 n =
     (if n = 0 then 1
      else smear 32 (smear 16 (smear 8 (smear 4 (smear 2 (smear 1 (n - 1)))))) + 1)"

definition NewRing :: "'e \<Rightarrow> int \<Rightarrow> 'e Ring" where
  \<comment> \<open>\<open>zero\<close>: the zero value of an event\<close>
  "NewRing zero capacity =
     (let sz = max (ring_nextPow2 (word_of_int capacity)) 2
      in \<lparr>enqPos = 0, deqPos = 0, ring_mask = sz - 1,
          ring_slots = map (\<lambda>i. \<lparr>ring_seq = of_nat i, event = zero\<rparr>) [0..<unat sz]\<rparr>)"

text \<open>What a goroutine has done of an operation: the atomic access it makes next, with its local variables.\<close>

datatype 'e ring_pc =
    Idle
  | Pushing 'e
  | PushPos 'e u64
  | PushClaim 'e u64
  | PushWrite 'e u64
  | PushStore 'e u64
  | Pushed 'e bool
  | Popping
  | PopPos u64
  | PopClaim u64
  | PopRead u64
  | PopStore u64 'e
  | Popped "'e option"

definition slot_at :: "u64 \<Rightarrow> 'e Ring \<Rightarrow> 'e ringSlot go" where
  "slot_at pos r = idx (ring_slots r) (uint (pos AND ring_mask r))"

definition set_slot :: "u64 \<Rightarrow> ('e ringSlot \<Rightarrow> 'e ringSlot) \<Rightarrow> 'e Ring \<Rightarrow> 'e Ring go" where
  "set_slot pos f r =
     andThen (slot_at pos r) (\<lambda>sl.
     andThen (set_idx (ring_slots r) (uint (pos AND ring_mask r)) (f sl)) (\<lambda>sls. Inr (r\<lparr>ring_slots := sls\<rparr>)))"

fun ring_step :: "'e ring_pc \<Rightarrow> 'e Ring \<Rightarrow> ('e ring_pc \<times> 'e Ring) go" where
  "ring_step (Pushing e) r = Inr (PushPos e (enqPos r), r)"
| "ring_step (PushPos e pos) r =
     andThen (slot_at pos r) (\<lambda>sl.
       let diff = sint (ring_seq sl - pos)
       in Inr (if diff = 0 then PushClaim e pos else if diff < 0 then Pushed e False else Pushing e, r))"
| "ring_step (PushClaim e pos) r =
     (if enqPos r = pos then Inr (PushWrite e pos, r\<lparr>enqPos := pos + 1\<rparr>) else Inr (Pushing e, r))"
| "ring_step (PushWrite e pos) r = andThen (set_slot pos (\<lambda>sl. sl\<lparr>event := e\<rparr>) r) (\<lambda>r'. Inr (PushStore e pos, r'))"
| "ring_step (PushStore e pos) r = andThen (set_slot pos (\<lambda>sl. sl\<lparr>ring_seq := pos + 1\<rparr>) r) (\<lambda>r'. Inr (Pushed e True, r'))"
| "ring_step Popping r = Inr (PopPos (deqPos r), r)"
| "ring_step (PopPos pos) r =
     andThen (slot_at pos r) (\<lambda>sl.
       let diff = sint (ring_seq sl - (pos + 1))
       in Inr (if diff = 0 then PopClaim pos else if diff < 0 then Popped None else Popping, r))"
| "ring_step (PopClaim pos) r =
     (if deqPos r = pos then Inr (PopRead pos, r\<lparr>deqPos := pos + 1\<rparr>) else Inr (Popping, r))"
| "ring_step (PopRead pos) r = andThen (slot_at pos r) (\<lambda>sl. Inr (PopStore pos (event sl), r))"
| "ring_step (PopStore pos e) r =
     andThen (set_slot pos (\<lambda>sl. sl\<lparr>ring_seq := pos + ring_mask r + 1\<rparr>) r) (\<lambda>r'. Inr (Popped (Some e), r'))"
| "ring_step p r = Inr (p, r)"

partial_function (option) push_loop :: "'e ring_pc \<Rightarrow> 'e Ring \<Rightarrow> (bool \<times> 'e Ring) go option" where
  "push_loop p r =
     (case p of
        Pushed e b \<Rightarrow> Some (Inr (b, r))
      | _ \<Rightarrow> (case ring_step p r of Inl err \<Rightarrow> Some (Inl err) | Inr pr \<Rightarrow> push_loop (fst pr) (snd pr)))"

definition TryPush :: "'e \<Rightarrow> 'e Ring \<Rightarrow> (bool \<times> 'e Ring) go option" where
  "TryPush e r = push_loop (Pushing e) r"

partial_function (option) pop_loop :: "'e ring_pc \<Rightarrow> 'e Ring \<Rightarrow> ('e option \<times> 'e Ring) go option" where
  "pop_loop p r =
     (case p of
        Popped res \<Rightarrow> Some (Inr (res, r))
      | _ \<Rightarrow> (case ring_step p r of Inl err \<Rightarrow> Some (Inl err) | Inr pr \<Rightarrow> pop_loop (fst pr) (snd pr)))"

definition Pop :: "'e Ring \<Rightarrow> ('e option \<times> 'e Ring) go option" where
  "Pop r = pop_loop Popping r"

definition ring_Len :: "'e Ring \<Rightarrow> int" where
  "ring_Len r = (if enqPos r > deqPos r then sint (enqPos r - deqPos r) else 0)"

subsection \<open>The dispatch ring (\<open>scheduler/dispatch_ring.go\<close>)\<close>

record 'e dispatchCell =
  cell_seq :: u64
  cell_ptr :: "'e option"

record 'e DispatchRing =
  disp_enqPos :: u64
  disp_deqPos :: u64
  disp_mask :: u64
  disp_cells :: "'e dispatchCell list"
  NotifyCh :: bool

definition NewDispatchRing :: "u64 \<Rightarrow> 'e DispatchRing go" where
  "NewDispatchRing c =
     (if c = 0 \<or> c AND (c - 1) \<noteq> 0 then Inl (Explicit ''dispatch ring capacity must be a power of two'')
      else Inr \<lparr>disp_enqPos = 0, disp_deqPos = 0, disp_mask = c - 1,
        disp_cells = map (\<lambda>i. \<lparr>cell_seq = of_nat i, cell_ptr = None\<rparr>) [0..<unat c], NotifyCh = False\<rparr>)"

definition maxPushSpins :: nat where "maxPushSpins = 10000"

definition disp_index :: "u64 \<Rightarrow> 'e DispatchRing \<Rightarrow> int" where
  "disp_index pos r = uint (pos AND disp_mask r)"

fun push_spins :: "nat \<Rightarrow> 'e \<Rightarrow> 'e DispatchRing \<Rightarrow> (bool \<times> 'e DispatchRing) go" where
  "push_spins 0 ev r = Inr (False, r)"
| "push_spins (Suc spins) ev r =
     (let pos = disp_enqPos r in
      andThen (idx (disp_cells r) (disp_index pos r)) (\<lambda>cell.
        let diff = sint (cell_seq cell - pos) in
        if diff = 0 then
          andThen (set_idx (disp_cells r) (disp_index pos r) (cell\<lparr>cell_ptr := Some ev, cell_seq := pos + 1\<rparr>)) (\<lambda>cells.
            Inr (True, r\<lparr>disp_enqPos := pos + 1, disp_cells := cells, NotifyCh := True\<rparr>))
        else if diff < 0 then Inr (False, r)
        else push_spins spins ev r))"

definition dispatch_TryPush :: "'e \<Rightarrow> 'e DispatchRing \<Rightarrow> (bool \<times> 'e DispatchRing) go" where
  "dispatch_TryPush ev r = push_spins maxPushSpins ev r"

partial_function (option) TryPop :: "'e DispatchRing \<Rightarrow> ('e option \<times> 'e DispatchRing) go option" where
  "TryPop r =
     (let pos = disp_deqPos r in
      case idx (disp_cells r) (disp_index pos r) of
        Inl err \<Rightarrow> Some (Inl err)
      | Inr cell \<Rightarrow>
          let diff = sint (cell_seq cell - (pos + 1)) in
          if diff = 0 then
            Some (andThen (set_idx (disp_cells r) (disp_index pos r) (cell\<lparr>cell_ptr := None, cell_seq := pos + disp_mask r + 1\<rparr>)) (\<lambda>cells.
              Inr (cell_ptr cell, r\<lparr>disp_deqPos := pos + 1, disp_cells := cells\<rparr>)))
          else if diff < 0 then Some (Inr (None, r))
          else TryPop r)"

subsection \<open>The log ring (\<open>gatewaylog/ring.go\<close>)\<close>

record 'b logSlot =
  log_seq :: u64
  msg :: "'b option"

record 'b LogRing =
  log_head :: u64
  log_tail :: u64
  log_slots :: "'b logSlot list"

definition RingCap :: u64 where "RingCap = 8192"

definition ringMask :: u64 where "ringMask = RingCap - 1"

definition NewLogRing :: "'b LogRing" where
  "NewLogRing = \<lparr>log_head = 0, log_tail = 0, log_slots = map (\<lambda>i. \<lparr>log_seq = of_nat i, msg = None\<rparr>) [0..<unat RingCap]\<rparr>"

partial_function (option) TryEnqueue :: "'b \<Rightarrow> 'b LogRing \<Rightarrow> (bool \<times> 'b LogRing) go option" where
  "TryEnqueue m r =
     (let head = log_head r in
      case idx (log_slots r) (uint (head AND ringMask)) of
        Inl err \<Rightarrow> Some (Inl err)
      | Inr sl \<Rightarrow>
          let diff = sint (log_seq sl - head) in
          if diff < 0 then Some (Inr (False, r))
          else if diff > 0 then TryEnqueue m r
          else
            Some (andThen (set_idx (log_slots r) (uint (head AND ringMask)) (sl\<lparr>msg := Some m, log_seq := head + 1\<rparr>)) (\<lambda>sls.
              Inr (True, r\<lparr>log_head := head + 1, log_slots := sls\<rparr>))))"

definition Dequeue :: "'b LogRing \<Rightarrow> ('b option \<times> 'b LogRing) go" where
  "Dequeue r =
     (let tail = log_tail r in
      andThen (idx (log_slots r) (uint (tail AND ringMask))) (\<lambda>sl.
        if log_seq sl \<noteq> tail + 1 then Inr (None, r)
        else
          andThen (set_idx (log_slots r) (uint (tail AND ringMask)) (sl\<lparr>msg := None, log_seq := tail + RingCap\<rparr>)) (\<lambda>sls.
            Inr (msg sl, r\<lparr>log_slots := sls, log_tail := tail + 1\<rparr>))))"

end
