(* ===== verification/Rah_Ring_Laws.thy ===== *)
theory Rah_Ring_Laws
  imports Rah_Ring
begin

unbundle bit_operations_syntax

text \<open>
  Every ring behaves as a bounded first-in first-out queue, for every sequence of operations and also when its positions wrap
  around (the interface \<open>bounded_queue\<close>, interpreted for the three rings).
\<close>

subsection \<open>Positions and cells\<close>

definition cell_of :: "nat \<Rightarrow> 'w::len word \<Rightarrow> nat" where
  "cell_of k pos = unat pos mod 2 ^ k"

lemma unat_and_mask:
  assumes "k \<le> LENGTH('w)" "m = 2 ^ k - 1"
  shows "unat (pos AND m :: 'w::len word) = cell_of k pos"
proof -
  have "pos AND m = take_bit k pos"
    using assms(2) by (simp add: take_bit_eq_mask mask_eq_decr_exp)
  then have "unat (pos AND m) = take_bit k (unat pos)" by (simp only: unsigned_take_bit_eq)
  then show ?thesis by (simp add: cell_of_def take_bit_eq_mod)
qed

lemma cell_of_add:
  assumes "k \<le> LENGTH('w)"
  shows "cell_of k (pos + of_nat i :: 'w::len word) = (cell_of k pos + i) mod 2 ^ k"
proof -
  have "(unat pos + unat (of_nat i :: 'w word)) mod 2 ^ LENGTH('w) mod 2 ^ k = (unat pos + i) mod 2 ^ k"
    using assms by (simp add: unsigned_of_nat take_bit_eq_mod mod_mod_cancel le_imp_power_dvd mod_simps)
  then show ?thesis
    by (simp add: cell_of_def unat_word_ariths mod_simps)
qed

lemma cell_of_less: "cell_of k pos < 2 ^ k"
  by (simp add: cell_of_def)

lemma mod_add_inj:
  assumes "i < n" "j < n" "(c + i) mod n = (c + j) mod (n :: nat)"
  shows "i = j"
proof -
  have "i = j" if "i \<le> j" "j < n" "(c + j) mod n = (c + i) mod n" for i j
  proof -
    have "n dvd (c + j) - (c + i)" using that by (subst mod_eq_dvd_iff_nat [symmetric]) simp_all
    then have "n dvd j - i" by simp
    then show ?thesis using that(1,2) by (metis diff_is_0_eq dvd_imp_le le_antisym less_imp_diff_less linorder_not_less not_gr_zero)
  qed
  then show ?thesis using assms by (metis nat_le_linear)
qed

lemma cell_of_inj:
  fixes pos :: "'w::len word"
  assumes "k \<le> LENGTH('w)" "i < 2 ^ k" "j < 2 ^ k"
  shows "cell_of k (pos + of_nat i) = cell_of k (pos + of_nat j) \<longleftrightarrow> i = j"
  using mod_add_inj [OF assms(2,3)] by (auto simp: cell_of_add [OF assms(1)])

text \<open>What the cells hold when the queue is \<open>q\<close>: from the dequeue position on, the elements with the sequence numbers that mark them
  as ready, then free cells.\<close>

definition holds :: "nat \<Rightarrow> 'w::len word \<Rightarrow> 'w word \<Rightarrow> 'w word list \<Rightarrow> 'v list \<Rightarrow> 'v list \<Rightarrow> bool" where
  "holds k enq deq seqs vals q \<longleftrightarrow>
     0 < k \<and> k < LENGTH('w) \<and> length seqs = 2 ^ k \<and> length vals = 2 ^ k \<and> length q \<le> 2 ^ k \<and> enq = deq + of_nat (length q) \<and>
     (\<forall>i < 2 ^ k. seqs ! cell_of k (deq + of_nat i) = deq + of_nat i + (if i < length q then 1 else 0) \<and>
        (i < length q \<longrightarrow> vals ! cell_of k (deq + of_nat i) = q ! i))"

lemma sint_exact: "- (2 ^ (LENGTH('w) - 1)) \<le> x \<Longrightarrow> x < 2 ^ (LENGTH('w) - 1) \<Longrightarrow> sint (word_of_int x :: 'w::len word) = x"
  by (simp add: sint_sbintrunc' signed_take_bit_int_eq_self)

lemma holds_at:
  assumes "holds k enq deq seqs vals q" "i < 2 ^ k"
  shows "seqs ! cell_of k (deq + of_nat i) = deq + of_nat i + (if i < length q then 1 else 0)"
    "i < length q \<Longrightarrow> vals ! cell_of k (deq + of_nat i) = q ! i"
  using assms by (auto simp: holds_def)

lemma holds_width:
  fixes enq :: "'w::len word"
  assumes "holds k enq deq seqs vals q"
  shows "0 < k" "k < LENGTH('w)" "length seqs = 2 ^ k" "length vals = 2 ^ k" "length q \<le> 2 ^ k" "enq = deq + of_nat (length q)"
  using assms by (simp_all add: holds_def)

lemma holds_full:
  fixes enq :: "'w::len word"
  assumes "holds k enq deq seqs vals q" "length q = 2 ^ k"
  shows "sint (seqs ! cell_of k enq - enq) < 0"
proof -
  note w = holds_width [OF assms(1)]
  have enq: "enq = deq + of_nat (2 ^ k)" using w(6) assms(2) by simp
  then have "cell_of k enq = cell_of k deq" using w(2) by (simp only: cell_of_add) (simp add: cell_of_def)
  moreover have "seqs ! cell_of k deq = deq + 1"
    using holds_at(1) [OF assms(1), of 0] assms(2) by simp
  ultimately have "seqs ! cell_of k enq - enq = word_of_int (1 - 2 ^ k)"
    by (simp add: enq)
  moreover have k: "(2 :: int) ^ k \<le> 2 ^ (LENGTH('w) - 1)" "(2 :: int) \<le> 2 ^ k"
    using w(1,2) self_le_power [of "2 :: int" k] by (auto intro: power_increasing)
  moreover have "sint (word_of_int (1 - 2 ^ k) :: 'w word) = 1 - 2 ^ k"
    using k by (intro sint_exact) linarith+
  ultimately show ?thesis by simp
qed

lemma holds_free:
  assumes "holds k enq deq seqs vals q" "length q < 2 ^ k"
  shows "seqs ! cell_of k enq = enq"
  using holds_at(1) [OF assms(1), of "length q"] assms by (simp add: holds_width(6) [OF assms(1)])

lemma holds_empty:
  fixes enq :: "'w::len word"
  assumes "holds k enq deq seqs vals []"
  shows "sint (seqs ! cell_of k deq - (deq + 1)) < 0" "seqs ! cell_of k deq \<noteq> deq + 1"
proof -
  have "seqs ! cell_of k deq = deq" using holds_at(1) [OF assms, of 0] by simp
  then show "sint (seqs ! cell_of k deq - (deq + 1)) < 0" "seqs ! cell_of k deq \<noteq> deq + 1"
    by simp_all
qed

lemma holds_first:
  assumes "holds k enq deq seqs vals (x # q)"
  shows "seqs ! cell_of k deq = deq + 1" "vals ! cell_of k deq = x"
  using holds_at [OF assms, of 0] by simp_all

lemma holds_push:
  assumes h: "holds k enq deq seqs vals q" "length q < 2 ^ k"
  shows "holds k (enq + 1) deq (seqs[cell_of k enq := enq + 1]) (vals[cell_of k enq := x]) (q @ [x])"
proof -
  note w = holds_width [OF h(1)]
  have ne: "cell_of k enq \<noteq> cell_of k (deq + of_nat i)" if "i < 2 ^ k" "i \<noteq> length q" for i
    using that h(2) w(2) cell_of_inj [of k "length q" i deq] by (auto simp: w(6))
  have "seqs[cell_of k enq := enq + 1] ! cell_of k (deq + of_nat i) = deq + of_nat i + (if i < length (q @ [x]) then 1 else 0) \<and>
      (i < length (q @ [x]) \<longrightarrow> vals[cell_of k enq := x] ! cell_of k (deq + of_nat i) = (q @ [x]) ! i)" if "i < 2 ^ k" for i
  proof (cases "i = length q")
    case True
    then show ?thesis using cell_of_less [of k enq] by (simp add: w(3,4) flip: w(6))
  next
    case False
    then show ?thesis using ne [OF that] holds_at [OF h(1) that] by (auto simp: nth_append)
  qed
  then show ?thesis using w h(2) by (simp add: holds_def add.assoc)
qed

lemma holds_pop:
  assumes h: "holds k enq deq seqs vals (x # q)"
  shows "holds k enq (deq + 1) (seqs[cell_of k deq := deq + 2 ^ k]) (vals[cell_of k deq := y]) q"
proof -
  note w = holds_width [OF h]
  have ne: "cell_of k deq \<noteq> cell_of k (deq + of_nat (Suc i))" if "Suc i < 2 ^ k" for i
    using that w(2) cell_of_inj [of k 0 "Suc i" deq] by auto
  have "seqs[cell_of k deq := deq + 2 ^ k] ! cell_of k (deq + 1 + of_nat i) = deq + 1 + of_nat i + (if i < length q then 1 else 0) \<and>
      (i < length q \<longrightarrow> vals[cell_of k deq := y] ! cell_of k (deq + 1 + of_nat i) = q ! i)" if i: "i < 2 ^ k" for i
  proof (cases "Suc i < 2 ^ k")
    case True
    then show ?thesis using ne [OF True] holds_at [OF h True] by (auto simp: add.assoc)
  next
    case False
    then have i: "Suc i = 2 ^ k" using i by simp
    then have "deq + 1 + of_nat i = deq + of_nat (2 ^ k)" by (metis add.assoc of_nat_Suc)
    then have "deq + 1 + of_nat i = deq + 2 ^ k" by simp
    moreover have "cell_of k (deq + of_nat (2 ^ k)) = cell_of k deq" using w(2) by (simp only: cell_of_add) (simp add: cell_of_def)
    moreover have "\<not> i < length q" using w(5) i by simp
    ultimately show ?thesis using cell_of_less [of k deq] by (simp only:) (simp add: w(3))
  qed
  then show ?thesis using w by (simp add: holds_def)
qed

subsection \<open>The interface of a bounded queue\<close>

datatype 'e queue_call = Push 'e | Take

datatype 'e queue_reply = Accepted bool | Taken "'e option"

fun spec_call :: "nat \<Rightarrow> 'e queue_call \<Rightarrow> 'e list \<Rightarrow> 'e queue_reply \<times> 'e list" where
  "spec_call n (Push e) q = (if length q < n then (Accepted True, q @ [e]) else (Accepted False, q))"
| "spec_call n Take q = (case q of [] \<Rightarrow> (Taken None, []) | x # q' \<Rightarrow> (Taken (Some x), q'))"

fun spec_calls :: "nat \<Rightarrow> 'e queue_call list \<Rightarrow> 'e list \<Rightarrow> 'e queue_reply list \<times> 'e list" where
  "spec_calls n [] q = ([], q)"
| "spec_calls n (c # cs) q = (let (x, q') = spec_call n c q; (xs, q'') = spec_calls n cs q' in (x # xs, q''))"

fun calls :: "('e \<Rightarrow> 'r \<Rightarrow> (bool \<times> 'r) go option) \<Rightarrow> ('r \<Rightarrow> ('e option \<times> 'r) go option) \<Rightarrow>
    'e queue_call list \<Rightarrow> 'r \<Rightarrow> ('e queue_reply list \<times> 'r) go option" where
  "calls push pop [] r = Some (Inr ([], r))"
| "calls push pop (Push e # cs) r =
     (case push e r of
        Some (Inr (b, r')) \<Rightarrow> map_option (\<lambda>m. andThen m (\<lambda>(xs, r''). Inr (Accepted b # xs, r''))) (calls push pop cs r')
      | Some (Inl err) \<Rightarrow> Some (Inl err) | None \<Rightarrow> None)"
| "calls push pop (Take # cs) r =
     (case pop r of
        Some (Inr (x, r')) \<Rightarrow> map_option (\<lambda>m. andThen m (\<lambda>(xs, r''). Inr (Taken x # xs, r''))) (calls push pop cs r')
      | Some (Inl err) \<Rightarrow> Some (Inl err) | None \<Rightarrow> None)"

locale bounded_queue =
  fixes rep :: "nat \<Rightarrow> 'r \<Rightarrow> 'e list \<Rightarrow> bool"
    and push :: "'e \<Rightarrow> 'r \<Rightarrow> (bool \<times> 'r) go option" and pop :: "'r \<Rightarrow> ('e option \<times> 'r) go option"
  assumes push_room: "rep n r q \<Longrightarrow> length q < n \<Longrightarrow> \<exists>r'. push e r = Some (Inr (True, r')) \<and> rep n r' (q @ [e])"
    and push_full: "rep n r q \<Longrightarrow> length q \<ge> n \<Longrightarrow> push e r = Some (Inr (False, r))"
    and pop_empty: "rep n r [] \<Longrightarrow> pop r = Some (Inr (None, r))"
    and pop_first: "rep n r (x # q) \<Longrightarrow> \<exists>r'. pop r = Some (Inr (Some x, r')) \<and> rep n r' q"
begin

lemma calls_refine:
  "rep n r q \<Longrightarrow> \<exists>r'. calls push pop cs r = Some (Inr (fst (spec_calls n cs q), r')) \<and> rep n r' (snd (spec_calls n cs q))"
proof (induction cs arbitrary: r q)
  case (Cons c cs)
  show ?case
  proof (cases c)
    case (Push e)
    show ?thesis
    proof (cases "length q < n")
      case True
      then obtain r' where r': "push e r = Some (Inr (True, r'))" "rep n r' (q @ [e])" using push_room [OF Cons.prems] by blast
      then show ?thesis using Cons.IH [OF r'(2)] Push True by (auto simp: split_beta Let_def)
    next
      case False
      then show ?thesis using push_full [OF Cons.prems] Cons.IH [OF Cons.prems] Push by (auto simp: split_beta Let_def)
    qed
  next
    case Take
    show ?thesis
    proof (cases q)
      case Nil
      then show ?thesis using pop_empty Cons.prems Cons.IH [OF Cons.prems] Take by (auto simp: split_beta Let_def)
    next
      case (Cons x q')
      then obtain r' where r': "pop r = Some (Inr (Some x, r'))" "rep n r' q'" using pop_first Cons.prems by blast
      then show ?thesis using Cons.IH [OF r'(2)] Take Cons by (auto simp: split_beta Let_def)
    qed
  qed
qed simp

end

subsection \<open>The event ring\<close>

definition ring_rep :: "nat \<Rightarrow> 'e Ring \<Rightarrow> 'e list \<Rightarrow> bool" where
  "ring_rep n r q \<longleftrightarrow> (\<exists>k. n = 2 ^ k \<and> ring_mask r = 2 ^ k - 1 \<and>
     holds k (enqPos r) (deqPos r) (map ring_seq (ring_slots r)) (map event (ring_slots r)) q)"

lemma uint_and_mask:
  "k \<le> LENGTH('w) \<Longrightarrow> m = 2 ^ k - 1 \<Longrightarrow> uint (pos AND m :: 'w::len word) = int (cell_of k pos)"
  using unat_and_mask [of k m pos] by (metis uint_nat)

lemma slot_at_holds:
  assumes "ring_mask r = 2 ^ k - 1" "length (ring_slots r) = 2 ^ k" "k < 64"
  shows "slot_at pos r = Inr (ring_slots r ! cell_of k pos)"
    "set_slot pos f r = Inr (r\<lparr>ring_slots := (ring_slots r)[cell_of k pos := f (ring_slots r ! cell_of k pos)]\<rparr>)"
  using assms cell_of_less [of k pos] by (simp_all add: slot_at_def set_slot_def uint_and_mask [of k])

lemma ring_rep_slots:
  assumes "ring_rep n r q"
  obtains k where "n = 2 ^ k" "k < 64" "ring_mask r = 2 ^ k - 1" "length (ring_slots r) = 2 ^ k"
    "holds k (enqPos r) (deqPos r) (map ring_seq (ring_slots r)) (map event (ring_slots r)) q"
  using assms by (auto simp: ring_rep_def holds_def)

lemma TryPush_room:
  assumes "ring_rep n r q" "length q < n"
  shows "\<exists>r'. TryPush e r = Some (Inr (True, r')) \<and> ring_rep n r' (q @ [e])"
proof -
  obtain k where k: "n = 2 ^ k" "k < 64" "ring_mask r = 2 ^ k - 1" "length (ring_slots r) = 2 ^ k"
    and h: "holds k (enqPos r) (deqPos r) (map ring_seq (ring_slots r)) (map event (ring_slots r)) q"
    using assms(1) by (rule ring_rep_slots)
  have lt: "cell_of k (enqPos r) < length (ring_slots r)" using cell_of_less k(4) by metis
  have "ring_seq (ring_slots r ! cell_of k (enqPos r)) = enqPos r"
    using holds_free [OF h] assms(2) k(1) lt by simp
  then have "TryPush e r = Some (Inr (True, r\<lparr>enqPos := enqPos r + 1,
      ring_slots := (ring_slots r)[cell_of k (enqPos r) := (ring_slots r ! cell_of k (enqPos r))\<lparr>event := e, ring_seq := enqPos r + 1\<rparr>]\<rparr>))"
    using k lt by (simp add: TryPush_def push_loop.simps slot_at_holds [of _ k])
  then show ?thesis
    using holds_push [OF h, of e] assms(2) k by (auto simp: ring_rep_def map_update)
qed

lemma TryPush_full:
  assumes "ring_rep n r q" "length q \<ge> n"
  shows "TryPush e r = Some (Inr (False, r))"
proof -
  obtain k where k: "n = 2 ^ k" "k < 64" "ring_mask r = 2 ^ k - 1" "length (ring_slots r) = 2 ^ k"
    and h: "holds k (enqPos r) (deqPos r) (map ring_seq (ring_slots r)) (map event (ring_slots r)) q"
    using assms(1) by (rule ring_rep_slots)
  have lt: "cell_of k (enqPos r) < length (ring_slots r)" using cell_of_less k(4) by metis
  have "sint (ring_seq (ring_slots r ! cell_of k (enqPos r)) - enqPos r) < 0"
    using holds_full [OF h] holds_width(5) [OF h] assms(2) k(1) lt by simp
  then show ?thesis
    using k lt by (simp add: TryPush_def push_loop.simps slot_at_holds [of _ k] Let_def)
qed

lemma Pop_empty:
  assumes "ring_rep n r []"
  shows "Pop r = Some (Inr (None, r))"
proof -
  obtain k where k: "n = 2 ^ k" "k < 64" "ring_mask r = 2 ^ k - 1" "length (ring_slots r) = 2 ^ k"
    and h: "holds k (enqPos r) (deqPos r) (map ring_seq (ring_slots r)) (map event (ring_slots r)) []"
    using assms by (rule ring_rep_slots)
  have lt: "cell_of k (deqPos r) < length (ring_slots r)" using cell_of_less k(4) by metis
  have "sint (ring_seq (ring_slots r ! cell_of k (deqPos r)) - (deqPos r + 1)) < 0"
    using holds_empty(1) [OF h] lt by simp
  then show ?thesis
    using k lt by (simp add: Pop_def pop_loop.simps slot_at_holds [of _ k] Let_def)
qed

lemma Pop_first:
  assumes "ring_rep n r (x # q)"
  shows "\<exists>r'. Pop r = Some (Inr (Some x, r')) \<and> ring_rep n r' q"
proof -
  obtain k where k: "n = 2 ^ k" "k < 64" "ring_mask r = 2 ^ k - 1" "length (ring_slots r) = 2 ^ k"
    and h: "holds k (enqPos r) (deqPos r) (map ring_seq (ring_slots r)) (map event (ring_slots r)) (x # q)"
    using assms by (rule ring_rep_slots)
  have lt: "cell_of k (deqPos r) < length (ring_slots r)" using cell_of_less k(4) by metis
  have "ring_seq (ring_slots r ! cell_of k (deqPos r)) = deqPos r + 1" and x: "event (ring_slots r ! cell_of k (deqPos r)) = x"
    using holds_first [OF h] lt by simp_all
  then have "Pop r = Some (Inr (Some x, r\<lparr>deqPos := deqPos r + 1,
      ring_slots := (ring_slots r)[cell_of k (deqPos r) := (ring_slots r ! cell_of k (deqPos r))\<lparr>ring_seq := deqPos r + 2 ^ k\<rparr>]\<rparr>))"
    using k lt by (simp add: Pop_def pop_loop.simps slot_at_holds [of _ k] Let_def)
  then show ?thesis
    using holds_pop [OF h, of x] k x by (auto simp: ring_rep_def map_update)
qed

interpretation ingest: bounded_queue ring_rep TryPush Pop
  by unfold_locales (simp_all add: TryPush_room TryPush_full Pop_empty Pop_first)

subsection \<open>The dispatch ring\<close>

definition disp_rep :: "nat \<Rightarrow> 'e DispatchRing \<Rightarrow> 'e list \<Rightarrow> bool" where
  "disp_rep n r q \<longleftrightarrow> (\<exists>k. n = 2 ^ k \<and> disp_mask r = 2 ^ k - 1 \<and>
     holds k (disp_enqPos r) (disp_deqPos r) (map cell_seq (disp_cells r)) (map cell_ptr (disp_cells r)) (map Some q))"

lemma disp_rep_cells:
  assumes "disp_rep n r q"
  obtains k where "n = 2 ^ k" "k < 64" "disp_mask r = 2 ^ k - 1" "length (disp_cells r) = 2 ^ k"
    "holds k (disp_enqPos r) (disp_deqPos r) (map cell_seq (disp_cells r)) (map cell_ptr (disp_cells r)) (map Some q)"
    "\<And>pos. disp_index pos r = int (cell_of k pos)" "\<And>pos :: u64. cell_of k pos < length (disp_cells r)"
proof -
  obtain k where k: "n = 2 ^ k" "disp_mask r = 2 ^ k - 1" 
    and h: "holds k (disp_enqPos r) (disp_deqPos r) (map cell_seq (disp_cells r)) (map cell_ptr (disp_cells r)) (map Some q)"
    using assms by (auto simp: disp_rep_def)
  note w = holds_width [OF h]
  have "length (disp_cells r) = 2 ^ k" "k < 64" using w by simp_all
  then show ?thesis
    using cell_of_less [of k] k by (intro that [OF k(1) _ k(2) _ h]) (simp_all add: disp_index_def uint_and_mask [of k])
qed

lemma push_spins_room:
  assumes "disp_rep n r q" "length q < n"
  shows "\<exists>r'. push_spins (Suc s) e r = Inr (True, r') \<and> disp_rep n r' (q @ [e])"
  using assms(1)
proof (rule disp_rep_cells)
  fix k
  assume k: "n = 2 ^ k" "disp_mask r = 2 ^ k - 1" "\<And>pos. disp_index pos r = int (cell_of k pos)" "\<And>pos :: u64. cell_of k pos < length (disp_cells r)"
    and h: "holds k (disp_enqPos r) (disp_deqPos r) (map cell_seq (disp_cells r)) (map cell_ptr (disp_cells r)) (map Some q)"
  note k(3,4) [simp]
  have "cell_seq (disp_cells r ! cell_of k (disp_enqPos r)) = disp_enqPos r"
    using holds_free [OF h] assms(2) k(1,4) by simp
  then show ?thesis
    using holds_push [OF h, of "Some e"] assms(2) k by (auto simp: disp_rep_def map_update Let_def)
qed

lemma push_spins_full:
  assumes "disp_rep n r q" "length q \<ge> n"
  shows "push_spins (Suc s) e r = Inr (False, r)"
  using assms(1)
proof (rule disp_rep_cells)
  fix k
  assume k: "n = 2 ^ k" "\<And>pos. disp_index pos r = int (cell_of k pos)" "\<And>pos :: u64. cell_of k pos < length (disp_cells r)"
    and h: "holds k (disp_enqPos r) (disp_deqPos r) (map cell_seq (disp_cells r)) (map cell_ptr (disp_cells r)) (map Some q)"
  note k(2,3) [simp]
  have "sint (cell_seq (disp_cells r ! cell_of k (disp_enqPos r)) - disp_enqPos r) < 0"
    using holds_full [OF h] holds_width(5) [OF h] assms(2) k(1,3) by simp
  then show ?thesis using k by (simp add: Let_def)
qed

lemma TryPop_empty:
  assumes "disp_rep n r []"
  shows "TryPop r = Some (Inr (None, r))"
  using assms
proof (rule disp_rep_cells)
  fix k
  assume k: "\<And>pos. disp_index pos r = int (cell_of k pos)" "\<And>pos :: u64. cell_of k pos < length (disp_cells r)"
    and h: "holds k (disp_enqPos r) (disp_deqPos r) (map cell_seq (disp_cells r)) (map cell_ptr (disp_cells r)) (map Some [])"
  note k(1,2) [simp]
  have "sint (cell_seq (disp_cells r ! cell_of k (disp_deqPos r)) - (disp_deqPos r + 1)) < 0"
    using holds_empty(1) [of k "disp_enqPos r" "disp_deqPos r" "map cell_seq (disp_cells r)"] h by simp
  then show ?thesis using k by (simp add: TryPop.simps Let_def)
qed

lemma TryPop_first:
  assumes "disp_rep n r (x # q)"
  shows "\<exists>r'. TryPop r = Some (Inr (Some x, r')) \<and> disp_rep n r' q"
  using assms
proof (rule disp_rep_cells)
  fix k
  assume k: "n = 2 ^ k" "disp_mask r = 2 ^ k - 1" "\<And>pos. disp_index pos r = int (cell_of k pos)" "\<And>pos :: u64. cell_of k pos < length (disp_cells r)"
    and h: "holds k (disp_enqPos r) (disp_deqPos r) (map cell_seq (disp_cells r)) (map cell_ptr (disp_cells r)) (map Some (x # q))"
  note k(3,4) [simp]
  have "cell_seq (disp_cells r ! cell_of k (disp_deqPos r)) = disp_deqPos r + 1" "cell_ptr (disp_cells r ! cell_of k (disp_deqPos r)) = Some x"
    using holds_first [of k "disp_enqPos r" "disp_deqPos r" "map cell_seq (disp_cells r)" "map cell_ptr (disp_cells r)" "Some x" "map Some q"] h
    by simp_all
  then show ?thesis
    using holds_pop [of k "disp_enqPos r" "disp_deqPos r" "map cell_seq (disp_cells r)" "map cell_ptr (disp_cells r)" "Some x" "map Some q" None] h k(1,2)
    by (auto simp: TryPop.simps disp_rep_def map_update Let_def)
qed

interpretation dispatch: bounded_queue disp_rep "\<lambda>e r. Some (dispatch_TryPush e r)" TryPop
proof
  have spins: "maxPushSpins = Suc 9999" by (simp add: maxPushSpins_def)
  show "\<exists>r'. Some (dispatch_TryPush e r) = Some (Inr (True, r')) \<and> disp_rep n r' (q @ [e])"
    if "disp_rep n r q" "length q < n" for n and r :: "'a DispatchRing" and q e
    using push_spins_room [OF that] by (simp only: dispatch_TryPush_def spins option.inject)
  show "Some (dispatch_TryPush e r) = Some (Inr (False, r))" if "disp_rep n r q" "n \<le> length q" for n and r :: "'a DispatchRing" and q e
    using push_spins_full [OF that] by (simp only: dispatch_TryPush_def spins)
qed (simp_all add: TryPop_empty TryPop_first)

subsection \<open>The log ring\<close>

definition log_rep :: "nat \<Rightarrow> 'b LogRing \<Rightarrow> 'b list \<Rightarrow> bool" where
  "log_rep n r q \<longleftrightarrow> n = 2 ^ 13 \<and>
     holds 13 (log_head r) (log_tail r) (map log_seq (log_slots r)) (map msg (log_slots r)) (map Some q)"

lemma log_rep_slots:
  assumes "log_rep n r q"
  shows "n = 2 ^ 13" "cell_of 13 (pos :: u64) < length (log_slots r)" "uint (pos AND ringMask) = int (cell_of 13 pos)"
  using assms cell_of_less [of 13 pos] uint_and_mask [of 13 ringMask pos]
  by (simp_all add: log_rep_def holds_def ringMask_def RingCap_def)

lemma log_rep_holds:
  "log_rep n r q \<Longrightarrow> holds 13 (log_head r) (log_tail r) (map log_seq (log_slots r)) (map msg (log_slots r)) (map Some q)"
  by (simp add: log_rep_def)

interpretation gatewaylog: bounded_queue log_rep TryEnqueue "\<lambda>r. Some (Dequeue r)"
proof
  fix n and r :: "'a LogRing" and q x e
  show "\<exists>r'. TryEnqueue e r = Some (Inr (True, r')) \<and> log_rep n r' (q @ [e])" if a: "log_rep n r q" "length q < n"
  proof -
    note [simp] = log_rep_slots(2,3) [OF a(1)]
    have "log_seq (log_slots r ! cell_of 13 (log_head r)) = log_head r"
      using holds_free [OF log_rep_holds [OF a(1)]] a log_rep_slots(1) [OF a(1)] by simp
    then show ?thesis
      using holds_push [OF log_rep_holds [OF a(1)], of "Some e"] a log_rep_slots(1) [OF a(1)]
      by (auto simp: log_rep_def TryEnqueue.simps map_update Let_def)
  qed
  show "TryEnqueue e r = Some (Inr (False, r))" if a: "log_rep n r q" "n \<le> length q"
  proof -
    note [simp] = log_rep_slots(2,3) [OF a(1)]
    have "sint (log_seq (log_slots r ! cell_of 13 (log_head r)) - log_head r) < 0"
      using holds_full [OF log_rep_holds [OF a(1)]] holds_width(5) [OF log_rep_holds [OF a(1)]] a(2) log_rep_slots(1) [OF a(1)]
      by simp
    then show ?thesis by (simp add: TryEnqueue.simps Let_def)
  qed
  show "Some (Dequeue r) = Some (Inr (None, r))" if a: "log_rep n r []"
  proof -
    note [simp] = log_rep_slots(2,3) [OF a]
    show ?thesis using holds_empty(2) [of 13 "log_head r" "log_tail r" "map log_seq (log_slots r)" "map msg (log_slots r)"]
        log_rep_holds [OF a] by (simp add: Dequeue_def Let_def)
  qed
  show "\<exists>r'. Some (Dequeue r) = Some (Inr (Some x, r')) \<and> log_rep n r' q" if a: "log_rep n r (x # q)"
  proof -
    note [simp] = log_rep_slots(2,3) [OF a]
    have h: "holds 13 (log_head r) (log_tail r) (map log_seq (log_slots r)) (map msg (log_slots r)) (Some x # map Some q)"
      using log_rep_holds [OF a] by simp
    show ?thesis using holds_first [OF h] holds_pop [OF h, of None] log_rep_slots(1) [OF a]
      by (auto simp: Dequeue_def Let_def log_rep_def map_update RingCap_def)
  qed
qed

subsection \<open>New rings\<close>

lemma holds_init:
  assumes "0 < k" "k < LENGTH('w)" "length vals = 2 ^ k"
  shows "holds k (0 :: 'w::len word) 0 (map of_nat [0..<2 ^ k]) vals []"
proof -
  have "cell_of k (of_nat i :: 'w word) = i" if "i < 2 ^ k" for i
    using that cell_of_add [of k "0 :: 'w word" i] assms(2) by (simp add: cell_of_def)
  then show ?thesis using assms by (simp add: holds_def)
qed

lemma NewLogRing_rep: "log_rep (2 ^ 13) NewLogRing []"
proof -
  have "unat RingCap = 2 ^ 13" by (simp add: RingCap_def)
  then show ?thesis
    using holds_init [of 13 "map (\<lambda>_. None) [0..<2 ^ 13]", where 'w = 64] by (simp add: log_rep_def NewLogRing_def comp_def)
qed

lemma NewDispatchRing_rep:
  assumes "0 < k" "k < 64" "NewDispatchRing (2 ^ k) = Inr r"
  shows "disp_rep (2 ^ k) r []"
proof -
  have "unat (of_nat (2 ^ k) :: u64) = 2 ^ k"
    using assms(2) by (simp only: unsigned_of_nat) (simp add: take_bit_nat_eq_self)
  then have "unat (2 ^ k :: u64) = 2 ^ k" by simp
  then show ?thesis
    using holds_init [of k "map (\<lambda>_. None) [0..<2 ^ k]", where 'w = 64] assms
    by (auto simp: NewDispatchRing_def disp_rep_def comp_def split: if_splits)
qed

lemma bit_smear: "bit (smear k n) i \<longleftrightarrow> bit n i \<or> bit n (i + k)"
  by (simp add: smear_def bit_or_iff bit_drop_bit_eq add.commute)

lemma smear_doubles:
  assumes "\<forall>i. bit x i \<longleftrightarrow> (\<exists>j<d. bit n (i + j))"
  shows "\<forall>i. bit (smear d x) i \<longleftrightarrow> (\<exists>j<2 * d. bit n (i + j))"
proof
  fix i
  have "(\<exists>j<2 * d. bit n (i + j)) \<longleftrightarrow> (\<exists>j<d. bit n (i + j)) \<or> (\<exists>j<d. bit n (i + d + j))" (is "?l \<longleftrightarrow> ?r")
  proof
    assume ?l
    then obtain j where j: "j < 2 * d" "bit n (i + j)" by blast
    then show ?r by (cases "j < d") (auto intro: exI [of _ "j - d"])
  next
    assume ?r
    then obtain j where "j < d" "bit n (i + j) \<or> bit n (i + (d + j))" by (auto simp: add.assoc)
    then have "j < 2 * d \<and> bit n (i + j) \<or> d + j < 2 * d \<and> bit n (i + (d + j))" by auto
    then show ?l by blast
  qed
  then show "bit (smear d x) i \<longleftrightarrow> (\<exists>j<2 * d. bit n (i + j))" using assms by (simp add: bit_smear)
qed

lemma smeared:
  "\<forall>i. bit (smear 32 (smear 16 (smear 8 (smear 4 (smear 2 (smear 1 n)))))) i \<longleftrightarrow> (\<exists>j<64. bit n (i + j))"
proof -
  have 1: "\<forall>i. bit n i \<longleftrightarrow> (\<exists>j<1. bit n (i + j))" by simp
  note 2 = smear_doubles [OF 1] note 3 = smear_doubles [OF 2] note 4 = smear_doubles [OF 3]
  note 5 = smear_doubles [OF 4] note 6 = smear_doubles [OF 5] note 7 = smear_doubles [OF 6]
  show ?thesis using 7 by simp
qed

lemma power_interval: "0 < x \<Longrightarrow> \<exists>m. 2 ^ m \<le> x \<and> x < 2 ^ Suc m" for x :: nat
proof (induction x rule: less_induct)
  case (less x)
  show ?case
  proof (cases "x = 1")
    case False
    then obtain m where "2 ^ m \<le> x div 2" "x div 2 < 2 ^ Suc m" using less(1) [of "x div 2"] less(2) by auto
    then have "2 ^ Suc m \<le> x" "x < 2 ^ Suc (Suc m)" by auto
    then show ?thesis by blast
  qed (auto intro: exI [of _ 0])
qed

lemma bit_unat: "bit n j \<longleftrightarrow> odd (unat n div 2 ^ j)" for n :: "'w::len word"
proof -
  have "bit n j \<longleftrightarrow> bit (unat n) j" by (auto simp: bit_unsigned_iff dest: bit_imp_le_length)
  then show ?thesis by (simp only: bit_iff_odd)
qed

lemma smeared_mask:
  assumes "2 ^ m \<le> unat n" "unat n < 2 ^ Suc m" "m < 63"
  shows "smear 32 (smear 16 (smear 8 (smear 4 (smear 2 (smear 1 n))))) = mask (Suc m)"
proof (rule bit_word_eqI)
  fix i assume i: "i < LENGTH(64)"
  have "unat n div 2 ^ m = 1" using assms(1,2) by (intro div_nat_eqI) simp_all
  then have top: "bit n m" by (simp add: bit_unat)
  have above: "\<not> bit n j" if "m < j" for j
  proof -
    have "unat n < 2 ^ j" using assms(2) that by (metis Suc_leI one_le_numeral order_less_le_trans power_increasing)
    then show ?thesis by (simp add: bit_unat)
  qed
  have "(\<exists>j<64. bit n (i + j)) \<longleftrightarrow> i < Suc m"
  proof
    assume "\<exists>j<64. bit n (i + j)"
    then show "i < Suc m" using above by (metis le_add1 less_Suc_eq_le linorder_not_less order_less_le_trans)
  next
    assume "i < Suc m"
    then have "m - i < 64 \<and> bit n (i + (m - i))" using top assms(3) by simp
    then show "\<exists>j<64. bit n (i + j)" by blast
  qed
  then show "bit (smear 32 (smear 16 (smear 8 (smear 4 (smear 2 (smear 1 n)))))) i = bit (mask (Suc m) :: u64) i"
    using i smeared [of n] by (simp add: bit_mask_iff)
qed

lemma nextPow2_correct:
  assumes "1 \<le> c" "c \<le> 2 ^ 62"
  shows "\<exists>k \<le> 62. ring_nextPow2 (word_of_int c) = 2 ^ k \<and> c \<le> 2 ^ k \<and> 2 ^ k < 2 * c"
proof (cases "c = 1")
  case False
  let ?n = "word_of_int c - 1 :: u64"
  have "?n = of_nat (nat (c - 1))" using assms(1) by simp
  then have n: "unat ?n = nat (c - 1)" using assms by (simp only: unsigned_of_nat) (simp add: take_bit_nat_eq_self nat_less_iff)
  obtain m where m: "2 ^ m \<le> nat (c - 1)" "nat (c - 1) < 2 ^ Suc m" using power_interval [of "nat (c - 1)"] False assms(1) by auto
  have "nat (c - 1) < 2 ^ 62" using assms by (simp add: nat_less_iff)
  then have "(2 :: nat) ^ m < 2 ^ 62" using m(1) by linarith
  then have m62: "m < 62" using power_less_imp_less_exp [of "2 :: nat" m 62] by simp
  have "word_of_int c \<noteq> (0 :: u64)"
  proof
    assume "word_of_int c = (0 :: u64)"
    then have "nat (c - 1) = 2 ^ 64 - 1" using n by (simp add: unsigned_minus_1_eq_mask mask_eq_exp_minus_1)
    then show False using assms by simp
  qed
  then have "ring_nextPow2 (word_of_int c) = mask (Suc m) + 1"
    using smeared_mask [of m ?n] m n m62 by (simp add: ring_nextPow2_def)
  then have "ring_nextPow2 (word_of_int c) = 2 ^ Suc m" by (simp add: mask_eq_decr_exp)
  moreover have "c \<le> 2 ^ Suc m" "2 ^ Suc m < 2 * c"
    using m assms(1) nat_less_iff [of "c - 1" "2 ^ Suc m"] by (simp_all add: le_nat_iff)
  ultimately show ?thesis using m62 by (intro exI [of _ "Suc m"]) simp
qed (simp add: ring_nextPow2_def smear_def exI [of _ 0])

lemma NewRing_rep:
  assumes "1 \<le> c" "c \<le> 2 ^ 62"
  obtains k where "ring_rep (2 ^ k) (NewRing z c) []" "c \<le> 2 ^ k" "2 ^ k < 2 * c \<or> k = 1"
proof -
  obtain k where k: "k \<le> 62" "ring_nextPow2 (word_of_int c) = 2 ^ k" "c \<le> 2 ^ k" "2 ^ k < 2 * c"
    using nextPow2_correct [OF assms] by blast
  let ?k = "max k 1"
  have "unat (of_nat (2 ^ j) :: u64) = 2 ^ j" if "j \<le> 62" for j
    using that by (simp only: unsigned_of_nat) (simp add: take_bit_nat_eq_self)
  then have u: "unat (2 ^ j :: u64) = 2 ^ j" if "j \<le> 62" for j using that by simp
  have sz: "max (ring_nextPow2 (word_of_int c)) 2 = 2 ^ ?k"
  proof (cases "k = 0")
    case False
    then have "(2 :: nat) \<le> 2 ^ k" using self_le_power [of "2 :: nat" k] by simp
    then have "(2 :: u64) \<le> 2 ^ k" using u [OF k(1)] by (simp add: word_le_nat_alt)
    moreover have "?k = k" using False by simp
    ultimately show ?thesis using k(2) by (simp only: max_def) (auto intro: antisym)
  qed (simp add: k(2) max_def word_le_nat_alt)
  have "ring_rep (2 ^ ?k) (NewRing z c) []"
    using holds_init [of ?k "map (\<lambda>_. z) [0..<2 ^ ?k]", where 'w = 64] k(1) u [of ?k]
    by (auto simp: ring_rep_def NewRing_def Let_def sz comp_def)
  moreover have "c \<le> 2 ^ ?k" using k(3) by (rule order_trans) simp
  moreover have "2 ^ ?k < 2 * c \<or> ?k = 1" using k(4) by (auto simp: max_def)
  ultimately show ?thesis by (rule that)
qed

text \<open>C38. With nobody else using it, each of the three rings is a bounded first-in first-out queue: whatever the sequence of operations, none
  of them panics or spins forever, and all replies are those of a list queue. The capacity is the requested one rounded up to a power of two
  for the event ring, the requested one for the dispatch ring, which must be a power of two from 2 on, and 8192 for the log ring.\<close>

theorem rings_are_queues:
  assumes "1 \<le> c" "c \<le> 2 ^ 62" "0 < j" "j < 64"
  shows "(\<exists>k r'. c \<le> 2 ^ k \<and> (2 ^ k < 2 * c \<or> k = 1) \<and>
      calls TryPush Pop cs (NewRing zero c) = Some (Inr (fst (spec_calls (2 ^ k) cs []), r'))) \<and>
    (\<exists>r r'. NewDispatchRing (2 ^ j) = Inr r \<and>
      calls (\<lambda>e r. Some (dispatch_TryPush e r)) TryPop ds r = Some (Inr (fst (spec_calls (2 ^ j) ds []), r'))) \<and>
    (\<exists>r'. calls TryEnqueue (\<lambda>r. Some (Dequeue r)) ls NewLogRing = Some (Inr (fst (spec_calls 8192 ls []), r')))"
proof (intro conjI)
  show "\<exists>k r'. c \<le> 2 ^ k \<and> (2 ^ k < 2 * c \<or> k = 1) \<and>
      calls TryPush Pop cs (NewRing zero c) = Some (Inr (fst (spec_calls (2 ^ k) cs []), r'))"
    using assms(1,2)
  proof (rule NewRing_rep)
    fix k
    assume k: "ring_rep (2 ^ k) (NewRing zero c) []" "c \<le> 2 ^ k" "2 ^ k < 2 * c \<or> k = 1"
    then show ?thesis using ingest.calls_refine [OF k(1), of cs] by blast
  qed
next
  have "(2 ^ j AND (2 ^ j - 1) :: u64) = 0"
    by (simp flip: mask_eq_decr_exp take_bit_eq_mask) (simp add: take_bit_eq_0_iff)
  moreover have "(2 ^ j :: u64) \<noteq> 0" using assms(4) by simp
  ultimately obtain r where r: "NewDispatchRing (2 ^ j) = Inr (r :: 'b DispatchRing)" by (simp add: NewDispatchRing_def)
  then show "\<exists>r r'. NewDispatchRing (2 ^ j) = Inr r \<and>
      calls (\<lambda>e r. Some (dispatch_TryPush e r)) TryPop ds r = Some (Inr (fst (spec_calls (2 ^ j) ds []), r'))"
    using dispatch.calls_refine [OF NewDispatchRing_rep [OF assms(3,4) r], of ds] by blast
next
  show "\<exists>r'. calls TryEnqueue (\<lambda>r. Some (Dequeue r)) ls NewLogRing = Some (Inr (fst (spec_calls 8192 ls []), r'))"
    using gatewaylog.calls_refine [OF NewLogRing_rep, of ls] by auto
qed

theorem rings_are_queues_witness:
  "\<exists>k r'. 3 \<le> (2 :: int) ^ k \<and> calls TryPush Pop [Push ''a'', Push ''b'', Take, Take, Take] (NewRing [] 3) =
     Some (Inr ([Accepted True, Accepted True, Taken (Some ''a''), Taken (Some ''b''), Taken None], r'))"
proof -
  let ?cs = "[Push ''a'', Push ''b'', Take, Take, Take]"
  have "\<exists>k r'. 3 \<le> (2 :: int) ^ k \<and> (2 ^ k < 2 * (3 :: int) \<or> k = 1) \<and>
      calls TryPush Pop ?cs (NewRing [] 3) = Some (Inr (fst (spec_calls (2 ^ k) ?cs []), r'))"
    by (rule rings_are_queues [of 3 9 ?cs "[]" "[]" "[]", THEN conjunct1]) simp_all
  then obtain k r' where k: "3 \<le> (2 :: int) ^ k"
    and r': "calls TryPush Pop ?cs (NewRing [] 3) = Some (Inr (fst (spec_calls (2 ^ k) ?cs []), r'))"
    by blast
  have "(3 :: nat) \<le> 2 ^ k" using k by (metis of_nat_le_iff of_nat_numeral of_nat_power)
  then have "fst (spec_calls (2 ^ k) ?cs []) = [Accepted True, Accepted True, Taken (Some ''a''), Taken (Some ''b''), Taken None]"
    by simp
  then show ?thesis using k r' by metis
qed

text \<open>The constructor of the dispatch ring also accepts capacity one, with which the sequence numbers cannot tell a full cell from a free
  one: the second of two events takes the place of the first.\<close>

lemma capacity_one_overwrites:
  "\<exists>r r'. NewDispatchRing 1 = Inr r \<and>
     calls (\<lambda>e r. Some (dispatch_TryPush e r)) TryPop [Push 1, Push 2] r = Some (Inr ([Accepted True, Accepted True], r')) \<and>
     map cell_ptr (disp_cells r') = [Some (2 :: nat)]"
proof -
  have "maxPushSpins = Suc 9999" by (simp add: maxPushSpins_def)
  then have once: "dispatch_TryPush ev r = push_spins (Suc n) ev r" if "n = 9999" for ev and r :: "nat DispatchRing" and n
    using that by (simp only: dispatch_TryPush_def)
  show ?thesis
    by (simp add: NewDispatchRing_def once [OF refl] numeral_eq_Suc disp_index_def Let_def idx_def set_idx_def)
qed

end
