(* ===== verification/Rah_Ring_Conc.thy ===== *)
theory Rah_Ring_Conc
  imports Rah_Ring_Laws
begin

unbundle bit_operations_syntax

text \<open>
  The event ring with any number of goroutines pushing and popping at once, interleaved at the granularity of the atomic accesses.
  The history records an operation at the compare-and-swap that claims its position; it is always the history of a
  bounded first-in first-out queue, and a finished operation has returned what the history says. Attempts that find the ring full or
  empty are not in the history.
\<close>

subsection \<open>Interleavings and histories\<close>

datatype 'e queue_op = Enq 'e | Deq 'e

fun replay :: "nat \<Rightarrow> 'e queue_op list \<Rightarrow> 'e list \<Rightarrow> 'e list option" where
  "replay n [] q = Some q"
| "replay n (Enq e # ops) q = (if length q < n then replay n ops (q @ [e]) else None)"
| "replay n (Deq e # ops) q = (case q of [] \<Rightarrow> None | x # q' \<Rightarrow> if x = e then replay n ops q' else None)"

lemma replay_snoc:
  "replay n (ops @ [op]) q = (case replay n ops q of None \<Rightarrow> None | Some q' \<Rightarrow> replay n [op] q')"
  by (induction n ops q rule: replay.induct) (simp_all split: list.split)

type_synonym 'e history = "(nat \<times> 'e queue_op) list"

text \<open>The ring, the goroutines, the operations in the order in which they claimed their positions, and in the order in which they returned.\<close>

type_synonym 'e ring_conf = "'e Ring \<times> (nat \<Rightarrow> 'e ring_pc) \<times> 'e history \<times> 'e history"

fun claims :: "'e ring_pc \<Rightarrow> 'e Ring \<Rightarrow> 'e queue_op list" where
  "claims (PushClaim e pos) r = (if enqPos r = pos then [Enq e] else [])"
| "claims (PopClaim pos) r =
     (if deqPos r = pos then case slot_at pos r of Inr sl \<Rightarrow> [Deq (event sl)] | Inl _ \<Rightarrow> [] else [])"
| "claims p r = []"

fun returns :: "'e ring_pc \<Rightarrow> 'e queue_op list" where
  "returns (PushStore e pos) = [Enq e]"
| "returns (PopStore pos e) = [Deq e]"
| "returns p = []"

fun finished :: "'e ring_pc \<Rightarrow> bool" where
  "finished Idle \<longleftrightarrow> True"
| "finished (Pushed e b) \<longleftrightarrow> True"
| "finished (Popped x) \<longleftrightarrow> True"
| "finished p \<longleftrightarrow> False"

inductive ring_reach :: "'e Ring \<Rightarrow> 'e ring_conf \<Rightarrow> bool" for r0 :: "'e Ring" where
  start: "ring_reach r0 (r0, \<lambda>_. Idle, [], [])"
| call_push: "ring_reach r0 (r, pc, h, rs) \<Longrightarrow> finished (pc i) \<Longrightarrow> ring_reach r0 (r, pc(i := Pushing e), h, rs)"
| call_pop: "ring_reach r0 (r, pc, h, rs) \<Longrightarrow> finished (pc i) \<Longrightarrow> ring_reach r0 (r, pc(i := Popping), h, rs)"
| access: "ring_reach r0 (r, pc, h, rs) \<Longrightarrow> ring_step (pc i) r = Inr (p, r') \<Longrightarrow>
     ring_reach r0 (r', pc(i := p), h @ map (Pair i) (claims (pc i) r), rs @ map (Pair i) (returns (pc i)))"

definition enqs :: "'e history \<Rightarrow> 'e list" where
  "enqs h = concat (map (\<lambda>(i, op). case op of Enq e \<Rightarrow> [e] | Deq e \<Rightarrow> []) h)"

definition deqs :: "'e history \<Rightarrow> nat" where
  "deqs h = length (filter (\<lambda>(i, op). case op of Enq e \<Rightarrow> False | Deq e \<Rightarrow> True) h)"

definition ops_of :: "nat \<Rightarrow> 'e history \<Rightarrow> 'e queue_op list" where
  "ops_of i h = map snd (filter (\<lambda>(j, _). j = i) h)"

lemma history_simps [simp]:
  "enqs [] = []" "enqs (h @ [(i, Enq e)]) = enqs h @ [e]" "enqs (h @ [(i, Deq e)]) = enqs h"
  "deqs [] = 0" "deqs (h @ [(i, Enq e)]) = deqs h" "deqs (h @ [(i, Deq e)]) = Suc (deqs h)"
  "ops_of i [] = []" "ops_of i (h @ [(j, x)]) = ops_of i h @ (if j = i then [x] else [])"
  by (simp_all add: enqs_def deqs_def ops_of_def)

subsection \<open>The invariant\<close>

fun push_ticket :: "'e ring_pc \<Rightarrow> nat option" where
  "push_ticket (PushWrite e pos) = Some (unat pos)"
| "push_ticket (PushStore e pos) = Some (unat pos)"
| "push_ticket p = None"

fun pop_ticket :: "'e ring_pc \<Rightarrow> nat option" where
  "pop_ticket (PopRead pos) = Some (unat pos)"
| "pop_ticket (PopStore pos e) = Some (unat pos)"
| "pop_ticket p = None"

definition sq :: "nat \<Rightarrow> 'e Ring \<Rightarrow> nat \<Rightarrow> nat" where
  "sq k r t = unat (ring_seq (ring_slots r ! (t mod 2 ^ k)))"

definition ev :: "nat \<Rightarrow> 'e Ring \<Rightarrow> nat \<Rightarrow> 'e" where
  "ev k r t = event (ring_slots r ! (t mod 2 ^ k))"

text \<open>What a goroutine knows: \<open>P\<close> are the values enqueued so far, \<open>D\<close> the number of dequeued ones, \<open>w\<close> the operations it has claimed and not finished.\<close>

fun knows :: "nat \<Rightarrow> 'e Ring \<Rightarrow> 'e list \<Rightarrow> nat \<Rightarrow> 'e queue_op list \<Rightarrow> 'e ring_pc \<Rightarrow> bool" where
  "knows k r P D w (PushPos e pos) \<longleftrightarrow> w = [] \<and> unat pos \<le> length P"
| "knows k r P D w (PushClaim e pos) \<longleftrightarrow> w = [] \<and> unat pos \<le> length P \<and>
     (unat pos = length P \<longrightarrow> length P < D + 2 ^ k \<and> sq k r (unat pos) = unat pos)"
| "knows k r P D w (PushWrite e pos) \<longleftrightarrow> D \<le> unat pos \<and> unat pos < length P \<and> P ! unat pos = e \<and> w = [Enq e]"
| "knows k r P D w (PushStore e pos) \<longleftrightarrow>
     D \<le> unat pos \<and> unat pos < length P \<and> P ! unat pos = e \<and> w = [Enq e] \<and> ev k r (unat pos) = e"
| "knows k r P D w (PopPos pos) \<longleftrightarrow> w = [] \<and> unat pos \<le> D"
| "knows k r P D w (PopClaim pos) \<longleftrightarrow> w = [] \<and> unat pos \<le> D \<and>
     (unat pos = D \<longrightarrow> D < length P \<and> sq k r D = Suc D)"
| "knows k r P D w (PopRead pos) \<longleftrightarrow> unat pos < D \<and> length P \<le> unat pos + 2 ^ k \<and>
     ev k r (unat pos) = P ! unat pos \<and> w = [Deq (P ! unat pos)]"
| "knows k r P D w (PopStore pos e) \<longleftrightarrow> unat pos < D \<and> length P \<le> unat pos + 2 ^ k \<and> e = P ! unat pos \<and> w = [Deq e]"
| "knows k r P D w p \<longleftrightarrow> w = []"

definition cells_ok :: "nat \<Rightarrow> 'e Ring \<Rightarrow> nat set \<Rightarrow> nat set \<Rightarrow> 'e list \<Rightarrow> nat \<Rightarrow> bool" where
  \<comment> \<open>\<open>Us\<close>, \<open>Os\<close>: the positions claimed for pushing and popping and not finished\<close>
  "cells_ok k r Us Os P D \<longleftrightarrow>
     (\<forall>t. D \<le> t \<longrightarrow> t < length P \<longrightarrow> (if t \<in> Us then sq k r t = t else sq k r t = Suc t \<and> ev k r t = P ! t)) \<and>
     (\<forall>t. length P \<le> t \<longrightarrow> t < D + 2 ^ k \<longrightarrow> sq k r t = (if 2 ^ k \<le> t \<and> t - 2 ^ k \<in> Os then Suc t - 2 ^ k else t))"

definition tickets :: "('e ring_pc \<Rightarrow> nat option) \<Rightarrow> (nat \<Rightarrow> 'e ring_pc) \<Rightarrow> nat set" where
  "tickets f pc = {t. \<exists>i. f (pc i) = Some t}"

definition one_each :: "('e ring_pc \<Rightarrow> nat option) \<Rightarrow> (nat \<Rightarrow> 'e ring_pc) \<Rightarrow> bool" where
  "one_each f pc \<longleftrightarrow> (\<forall>i j t. f (pc i) = Some t \<longrightarrow> f (pc j) = Some t \<longrightarrow> i = j)"

definition shape :: "nat \<Rightarrow> 'e Ring \<Rightarrow> 'e list \<Rightarrow> nat \<Rightarrow> bool" where
  "shape k r P D \<longleftrightarrow> 0 < k \<and> k < 63 \<and> ring_mask r = 2 ^ k - 1 \<and> length (ring_slots r) = 2 ^ k \<and>
     unat (enqPos r) = length P \<and> unat (deqPos r) = D \<and> D \<le> length P \<and> length P \<le> D + 2 ^ k"

definition ring_inv :: "nat \<Rightarrow> (nat \<Rightarrow> 'e queue_op list) \<Rightarrow> 'e Ring \<times> (nat \<Rightarrow> 'e ring_pc) \<times> 'e history \<Rightarrow> bool" where
  "ring_inv k W = (\<lambda>(r, pc, h).
     shape k r (enqs h) (deqs h) \<and> cells_ok k r (tickets push_ticket pc) (tickets pop_ticket pc) (enqs h) (deqs h) \<and>
     one_each push_ticket pc \<and> one_each pop_ticket pc \<and>
     (\<forall>i. knows k r (enqs h) (deqs h) (W i) (pc i)) \<and>
     replay (2 ^ k) (map snd h) [] = Some (drop (deqs h) (enqs h)))"

subsection \<open>Steps keep the invariant\<close>

lemma mod_window: "a mod n = b mod n \<Longrightarrow> a \<le> b \<Longrightarrow> b < a + n \<Longrightarrow> a = b" for a b n :: nat
  using mod_add_inj [of 0 n "b - a" a] by fastforce

lemma unat_Suc_pos: "unat pos < 2 ^ 63 \<Longrightarrow> unat (pos + 1) = Suc (unat pos)" for pos :: u64
  by (simp add: unat_plus_if_size size_word_def)

lemma tickets_update:
  "f p = f (pc i) \<Longrightarrow> tickets f (pc(i := p)) = tickets f pc"
  "f (pc i) = None \<Longrightarrow> f p = Some t \<Longrightarrow> tickets f (pc(i := p)) = insert t (tickets f pc)"
  "one_each f pc \<Longrightarrow> f (pc i) = Some t \<Longrightarrow> f p = None \<Longrightarrow> tickets f (pc(i := p)) = tickets f pc - {t}"
  by (auto simp: tickets_def one_each_def) (metis option.distinct(1) option.inject)+

lemma one_each_update:
  "one_each f pc \<Longrightarrow> f p = f (pc i) \<or> f p = None \<or> f p = Some t \<and> t \<notin> tickets f pc \<Longrightarrow> one_each f (pc(i := p))"
  unfolding one_each_def tickets_def by (auto split: if_splits) metis+

lemma silent_step:
  assumes "ring_inv k W (r, pc, h)" "push_ticket p = push_ticket (pc i)" "pop_ticket p = pop_ticket (pc i)"
    "knows k r (enqs h) (deqs h) (W i) p"
  shows "ring_inv k W (r, pc(i := p), h)"
  using assms by (simp add: ring_inv_def tickets_update(1) one_each_update)

lemma shape_slot:
  assumes "shape k r P D"
  shows "slot_at pos r = Inr (ring_slots r ! (unat pos mod 2 ^ k))"
    "set_slot pos f r = Inr (r\<lparr>ring_slots := (ring_slots r)[unat pos mod 2 ^ k := f (ring_slots r ! (unat pos mod 2 ^ k))]\<rparr>)"
  using assms slot_at_holds [of r k pos] by (simp_all add: shape_def cell_of_def)

lemma push_claim:
  assumes inv: "ring_inv k W (r, pc, h)" and pc: "pc i = PushClaim e pos" "enqPos r = pos" and bound: "length (enqs h) < 2 ^ 63"
  shows "ring_inv k (W(i := [Enq e])) (r\<lparr>enqPos := pos + 1\<rparr>, pc(i := PushWrite e pos), h @ [(i, Enq e)])"
proof -
  let ?P = "enqs h" and ?D = "deqs h" and ?r = "r\<lparr>enqPos := pos + 1\<rparr>"
  have sh: "shape k r ?P ?D" and ok: "cells_ok k r (tickets push_ticket pc) (tickets pop_ticket pc) ?P ?D"
    and kn: "\<And>j. knows k r ?P ?D (W j) (pc j)"
    using inv by (simp_all add: ring_inv_def)
  have E: "unat pos = length ?P" using sh pc(2) by (simp add: shape_def)
  then have room: "length ?P < ?D + 2 ^ k" "sq k r (length ?P) = length ?P" using kn [of i] pc(1) by simp_all
  have N: "2 \<le> (2 :: nat) ^ k" using sh self_le_power [of "2 :: nat" k] by (simp add: shape_def)
  have sqr: "sq k ?r t = sq k r t" "ev k ?r t = ev k r t" for t by (simp_all add: sq_def ev_def)
  have fresh: "length ?P \<notin> tickets push_ticket pc"
  proof
    assume "length ?P \<in> tickets push_ticket pc"
    then obtain j where "push_ticket (pc j) = Some (length ?P)" by (auto simp: tickets_def)
    then show False using kn [of j] by (cases "pc j") auto
  qed
  have popping: "Suc (length ?P) \<le> t + 2 ^ k" if "t \<in> tickets pop_ticket pc" "length ?P \<le> t + 2 ^ k" for t
  proof (rule ccontr)
    assume "\<not> Suc (length ?P) \<le> t + 2 ^ k"
    then have "length ?P = t + 2 ^ k" using that(2) by simp
    then have "sq k r (length ?P) = Suc t" using ok room(1) that(1) by (auto simp: cells_ok_def)
    then show False using room(2) N \<open>length ?P = t + 2 ^ k\<close> by simp
  qed
  have "knows k ?r (?P @ [e]) ?D ((W(i := [Enq e])) j) ((pc(i := PushWrite e pos)) j)" for j
  proof (cases "j = i")
    case True
    then show ?thesis using E sh by (simp add: shape_def nth_append)
  next
    case False
    have "\<forall>t. pop_ticket (pc j) = Some t \<longrightarrow> length ?P \<le> t + 2 ^ k \<longrightarrow> Suc (length ?P) \<le> t + 2 ^ k"
      using popping unfolding tickets_def by blast
    moreover have "?D \<le> length ?P" using sh by (simp add: shape_def)
    ultimately show ?thesis using kn [of j] False by (cases "pc j") (auto simp: sqr nth_append)
  qed
  moreover have "cells_ok k ?r (insert (length ?P) (tickets push_ticket pc)) (tickets pop_ticket pc) (?P @ [e]) ?D"
    using ok room by (auto simp: cells_ok_def sqr nth_append less_Suc_eq)
  moreover have "one_each push_ticket (pc(i := PushWrite e pos))"
    using inv fresh E by (intro one_each_update [where t = "length ?P"]) (simp_all add: ring_inv_def)
  moreover have "replay (2 ^ k) (map snd (h @ [(i, Enq e)])) [] = Some (drop ?D (?P @ [e]))"
    using inv room(1) sh by (simp add: ring_inv_def replay_snoc shape_def less_diff_conv2)
  ultimately show ?thesis
    using inv pc sh E bound room
    by (simp add: ring_inv_def shape_def unat_Suc_pos tickets_update(1) tickets_update(2) [where t = "length ?P"] one_each_update)
qed

lemma set_views:
  assumes "length (ring_slots r) = 2 ^ k"
  shows "sq k (r\<lparr>ring_slots := (ring_slots r)[u mod 2 ^ k := sl]\<rparr>) t = (if t mod 2 ^ k = u mod 2 ^ k then unat (ring_seq sl) else sq k r t)"
    "ev k (r\<lparr>ring_slots := (ring_slots r)[u mod 2 ^ k := sl]\<rparr>) t = (if t mod 2 ^ k = u mod 2 ^ k then event sl else ev k r t)"
  using assms by (auto simp: sq_def ev_def nth_list_update)

lemma push_write:
  assumes inv: "ring_inv k W (r, pc, h)" and pc: "pc i = PushWrite e pos"
  shows "ring_inv k W (r\<lparr>ring_slots := (ring_slots r)[unat pos mod 2 ^ k := (ring_slots r ! (unat pos mod 2 ^ k))\<lparr>event := e\<rparr>]\<rparr>,
    pc(i := PushStore e pos), h)" (is "ring_inv k W (?r, _, _)")
proof -
  let ?P = "enqs h" and ?D = "deqs h"
  have sh: "shape k r ?P ?D" and ok: "cells_ok k r (tickets push_ticket pc) (tickets pop_ticket pc) ?P ?D"
    and one: "one_each push_ticket pc" and kn: "\<And>j. knows k r ?P ?D (W j) (pc j)"
    using inv by (simp_all add: ring_inv_def)
  have t: "?D \<le> unat pos" "unat pos < length ?P" "length ?P \<le> ?D + 2 ^ k" using kn [of i] pc sh by (simp_all add: shape_def)
  have sqr: "sq k ?r u = sq k r u" for u using sh by (auto simp: set_views shape_def) (simp add: sq_def)
  have evr: "ev k ?r u = (if u mod 2 ^ k = unat pos mod 2 ^ k then e else ev k r u)" for u using sh by (simp add: set_views shape_def)
  have same: "u = unat pos" if "u mod 2 ^ k = unat pos mod 2 ^ k" "u < length ?P" "length ?P \<le> u + 2 ^ k" for u
    using that t mod_window [of u "2 ^ k" "unat pos"] mod_window [of "unat pos" "2 ^ k" u] by (cases "u \<le> unat pos") auto
  have held: "unat pos \<in> tickets push_ticket pc" using pc by (auto simp: tickets_def intro: exI [of _ i])
  have "knows k ?r ?P ?D (W j) ((pc(i := PushStore e pos)) j)" for j
  proof (cases "j = i")
    case True
    then show ?thesis using kn [of i] pc by (simp add: evr)
  next
    case False
    have "push_ticket (pc j) \<noteq> Some (unat pos)" using one False pc by (auto simp: one_each_def)
    moreover have "\<forall>u. u < ?D \<longrightarrow> length ?P \<le> u + 2 ^ k \<longrightarrow> u mod 2 ^ k \<noteq> unat pos mod 2 ^ k"
      using same t(1,2) by (metis leD less_trans order_le_less_trans)
    ultimately show ?thesis using kn [of j] False same t by (cases "pc j") (auto simp: sqr evr)
  qed
  moreover have "cells_ok k ?r (tickets push_ticket pc) (tickets pop_ticket pc) ?P ?D"
    unfolding cells_ok_def
  proof (intro conjI allI impI)
    fix u assume "?D \<le> u" "u < length ?P"
    then show "if u \<in> tickets push_ticket pc then sq k ?r u = u else sq k ?r u = Suc u \<and> ev k ?r u = ?P ! u"
      using ok same [of u] held t(3) by (auto simp: cells_ok_def sqr evr)
  qed (use ok in \<open>simp add: cells_ok_def sqr\<close>)
  ultimately show ?thesis
    using inv pc by (simp add: ring_inv_def shape_def tickets_update(1) one_each_update)
qed

lemma push_store:
  assumes inv: "ring_inv k W (r, pc, h)" and pc: "pc i = PushStore e pos" and bound: "length (enqs h) < 2 ^ 63"
  shows "ring_inv k (W(i := [])) (r\<lparr>ring_slots := (ring_slots r)[unat pos mod 2 ^ k := (ring_slots r ! (unat pos mod 2 ^ k))\<lparr>ring_seq := pos + 1\<rparr>]\<rparr>,
    pc(i := Pushed e True), h)" (is "ring_inv k _ (?r, _, _)")
proof -
  let ?P = "enqs h" and ?D = "deqs h"
  have sh: "shape k r ?P ?D" and ok: "cells_ok k r (tickets push_ticket pc) (tickets pop_ticket pc) ?P ?D"
    and one: "one_each push_ticket pc" and kn: "\<And>j. knows k r ?P ?D (W j) (pc j)"
    using inv by (simp_all add: ring_inv_def)
  have t: "?D \<le> unat pos" "unat pos < length ?P" "length ?P \<le> ?D + 2 ^ k" "ev k r (unat pos) = ?P ! unat pos" "unat (pos + 1) = Suc (unat pos)"
    using kn [of i] pc sh bound by (simp_all add: shape_def unat_Suc_pos)
  have sqr: "sq k ?r u = (if u mod 2 ^ k = unat pos mod 2 ^ k then Suc (unat pos) else sq k r u)" for u
    using sh t(5) by (simp add: set_views shape_def)
  have evr: "ev k ?r u = ev k r u" for u using sh by (auto simp: set_views shape_def) (simp add: ev_def)
  have same: "u = unat pos" if "u mod 2 ^ k = unat pos mod 2 ^ k" "?D \<le> u" "u < ?D + 2 ^ k" for u
    using that t mod_window [of u "2 ^ k" "unat pos"] mod_window [of "unat pos" "2 ^ k" u] by (cases "u \<le> unat pos") auto
  have held: "unat pos \<in> tickets push_ticket pc" using pc by (auto simp: tickets_def intro: exI [of _ i])
  then have seq: "sq k r (unat pos) = unat pos" using ok t by (simp add: cells_ok_def)
  have "knows k ?r ?P ?D ((W(i := [])) j) ((pc(i := Pushed e True)) j)" for j
  proof (cases "j = i")
    case True
    then show ?thesis using kn [of i] pc by simp
  next
    case False
    have "length ?P < ?D + 2 ^ k \<longrightarrow> sq k ?r (length ?P) = sq k r (length ?P)"
      using same [of "length ?P"] t by (auto simp: sqr)
    moreover have "sq k r ?D = Suc ?D \<longrightarrow> sq k ?r ?D = Suc ?D"
      using same [of ?D] seq by (auto simp: sqr)
    ultimately show ?thesis using kn [of j] False by (cases "pc j") (auto simp: evr)
  qed
  moreover have "cells_ok k ?r (tickets push_ticket pc - {unat pos}) (tickets pop_ticket pc) ?P ?D"
    unfolding cells_ok_def
  proof (intro conjI allI impI)
    fix u assume "?D \<le> u" "u < length ?P"
    then show "if u \<in> tickets push_ticket pc - {unat pos} then sq k ?r u = u else sq k ?r u = Suc u \<and> ev k ?r u = ?P ! u"
      using ok same [of u] t by (auto simp: cells_ok_def sqr evr)
  next
    fix u assume "length ?P \<le> u" "u < ?D + 2 ^ k"
    then show "sq k ?r u = (if 2 ^ k \<le> u \<and> u - 2 ^ k \<in> tickets pop_ticket pc then Suc u - 2 ^ k else u)"
      using ok same [of u] t by (auto simp: cells_ok_def sqr)
  qed
  ultimately show ?thesis
    using inv pc one by (simp add: ring_inv_def shape_def tickets_update(1) tickets_update(3) [where t = "unat pos"] one_each_update)
qed

lemma pop_claim:
  assumes inv: "ring_inv k W (r, pc, h)" and pc: "pc i = PopClaim pos" "deqPos r = pos" and bound: "length (enqs h) < 2 ^ 63"
  shows "ring_inv k (W(i := [Deq (ev k r (unat pos))])) (r\<lparr>deqPos := pos + 1\<rparr>, pc(i := PopRead pos), h @ [(i, Deq (ev k r (unat pos)))])"
proof -
  let ?P = "enqs h" and ?D = "deqs h" and ?r = "r\<lparr>deqPos := pos + 1\<rparr>"
  have sh: "shape k r ?P ?D" and ok: "cells_ok k r (tickets push_ticket pc) (tickets pop_ticket pc) ?P ?D"
    and kn: "\<And>j. knows k r ?P ?D (W j) (pc j)"
    using inv by (simp_all add: ring_inv_def)
  have D: "unat pos = ?D" using sh pc(2) by (simp add: shape_def)
  then have ready: "?D < length ?P" "sq k r ?D = Suc ?D" using kn [of i] pc(1) by simp_all
  have sqr: "sq k ?r t = sq k r t" "ev k ?r t = ev k r t" for t by (simp_all add: sq_def ev_def)
  have unheld: "?D \<notin> tickets push_ticket pc" using ok ready by (auto simp: cells_ok_def)
  then have val: "ev k r ?D = ?P ! ?D" using ok ready by (auto simp: cells_ok_def)
  have fresh: "?D \<notin> tickets pop_ticket pc"
  proof
    assume "?D \<in> tickets pop_ticket pc"
    then obtain j where "pop_ticket (pc j) = Some ?D" by (auto simp: tickets_def)
    then show False using kn [of j] by (cases "pc j") auto
  qed
  have "knows k ?r ?P (Suc ?D) ((W(i := [Deq (ev k r (unat pos))])) j) ((pc(i := PopRead pos)) j)" for j
  proof (cases "j = i")
    case True
    then show ?thesis using D val sh by (simp add: shape_def sqr)
  next
    case False
    have "push_ticket (pc j) \<noteq> Some ?D" using unheld by (auto simp: tickets_def)
    then show ?thesis using kn [of j] False by (cases "pc j") (auto simp: sqr)
  qed
  moreover have "cells_ok k ?r (tickets push_ticket pc) (insert ?D (tickets pop_ticket pc)) ?P (Suc ?D)"
    unfolding cells_ok_def
  proof (intro conjI allI impI)
    fix u assume u: "length ?P \<le> u" "u < Suc ?D + 2 ^ k"
    show "sq k ?r u = (if 2 ^ k \<le> u \<and> u - 2 ^ k \<in> insert ?D (tickets pop_ticket pc) then Suc u - 2 ^ k else u)"
    proof (cases "u = ?D + 2 ^ k")
      case True
      then have "sq k r u = sq k r ?D" by (simp add: sq_def)
      then show ?thesis using True ready(2) by (simp add: sqr Suc_diff_le)
    next
      case False
      then have "u - 2 ^ k \<noteq> ?D \<or> u < 2 ^ k" by auto
      then show ?thesis using u ok False by (auto simp: cells_ok_def sqr)
    qed
  qed (use ok in \<open>auto simp: cells_ok_def sqr split: if_splits\<close>)
  moreover have "one_each pop_ticket (pc(i := PopRead pos))"
    using inv fresh D by (intro one_each_update [where t = ?D]) (simp_all add: ring_inv_def)
  moreover have "replay (2 ^ k) (map snd (h @ [(i, Deq (ev k r (unat pos)))])) [] = Some (drop (Suc ?D) ?P)"
    using inv ready(1) val D by (simp add: ring_inv_def replay_snoc Cons_nth_drop_Suc [symmetric])
  ultimately show ?thesis
    using inv pc sh D bound ready
    by (simp add: ring_inv_def shape_def unat_Suc_pos tickets_update(1) tickets_update(2) [where t = ?D] one_each_update)
qed

lemma pop_store:
  assumes inv: "ring_inv k W (r, pc, h)" and pc: "pc i = PopStore pos e" and bound: "length (enqs h) + 2 ^ k < 2 ^ 63"
  shows "ring_inv k (W(i := [])) (r\<lparr>ring_slots := (ring_slots r)[unat pos mod 2 ^ k :=
      (ring_slots r ! (unat pos mod 2 ^ k))\<lparr>ring_seq := pos + ring_mask r + 1\<rparr>]\<rparr>, pc(i := Popped (Some e)), h)" (is "ring_inv k _ (?r, _, _)")
proof -
  let ?P = "enqs h" and ?D = "deqs h" and ?t = "unat pos + 2 ^ k"
  have sh: "shape k r ?P ?D" and ok: "cells_ok k r (tickets push_ticket pc) (tickets pop_ticket pc) ?P ?D"
    and one: "one_each pop_ticket pc" and kn: "\<And>j. knows k r ?P ?D (W j) (pc j)"
    using inv by (simp_all add: ring_inv_def)
  have t: "unat pos < ?D" "length ?P \<le> ?t" "?D \<le> length ?P" "length ?P \<le> ?D + 2 ^ k"
    using kn [of i] pc sh by (simp_all add: shape_def)
  have "unat (of_nat ?t :: u64) = ?t"
    using bound t by (simp only: unsigned_of_nat) (simp add: take_bit_nat_eq_self)
  then have new: "unat (pos + ring_mask r + 1) = ?t" using sh by (simp add: shape_def)
  have sqr: "sq k ?r u = (if u mod 2 ^ k = unat pos mod 2 ^ k then ?t else sq k r u)" for u
    using sh new by (simp add: set_views shape_def)
  have evr: "ev k ?r u = ev k r u" for u using sh by (auto simp: set_views shape_def) (simp add: ev_def)
  have same: "u = ?t" if "u mod 2 ^ k = unat pos mod 2 ^ k" "?D \<le> u" "u < ?D + 2 ^ k" for u
    using that t mod_window [of u "2 ^ k" ?t] mod_window [of ?t "2 ^ k" u] by (cases "u \<le> ?t") auto
  have held: "unat pos \<in> tickets pop_ticket pc" using pc by (auto simp: tickets_def intro: exI [of _ i])
  then have seq: "sq k r ?t = Suc (unat pos)" using ok t by (simp add: cells_ok_def)
  have "knows k ?r ?P ?D ((W(i := [])) j) ((pc(i := Popped (Some e))) j)" for j
  proof (cases "j = i")
    case True
    then show ?thesis using kn [of i] pc by simp
  next
    case False
    have "length ?P < ?D + 2 ^ k \<longrightarrow> sq k r (length ?P) = length ?P \<longrightarrow> sq k ?r (length ?P) = length ?P"
      using same [of "length ?P"] t by (auto simp: sqr)
    moreover have "?D < length ?P \<longrightarrow> sq k ?r ?D = sq k r ?D"
      using same [of ?D] t by (auto simp: sqr)
    ultimately show ?thesis using kn [of j] False by (cases "pc j") (auto simp: evr)
  qed
  moreover have "cells_ok k ?r (tickets push_ticket pc) (tickets pop_ticket pc - {unat pos}) ?P ?D"
    unfolding cells_ok_def
  proof (intro conjI allI impI)
    fix u assume "?D \<le> u" "u < length ?P"
    then show "if u \<in> tickets push_ticket pc then sq k ?r u = u else sq k ?r u = Suc u \<and> ev k ?r u = ?P ! u"
      using ok same [of u] t by (auto simp: cells_ok_def sqr evr)
  next
    fix u assume u: "length ?P \<le> u" "u < ?D + 2 ^ k"
    have "u = ?t" if "2 ^ k \<le> u" "u - 2 ^ k = unat pos" using that by simp
    then show "sq k ?r u = (if 2 ^ k \<le> u \<and> u - 2 ^ k \<in> tickets pop_ticket pc - {unat pos} then Suc u - 2 ^ k else u)"
      using ok same [of u] t u by (auto simp: cells_ok_def sqr)
  qed
  ultimately show ?thesis
    using inv pc one by (simp add: ring_inv_def shape_def tickets_update(1) tickets_update(3) [where t = "unat pos"] one_each_update)
qed

lemma free_slot:
  assumes "ring_inv k W (r, pc, h)" "sq k r (length (enqs h)) = length (enqs h)"
  shows "length (enqs h) < deqs h + 2 ^ k"
proof (rule ccontr)
  let ?P = "enqs h" and ?D = "deqs h"
  have sh: "shape k r ?P ?D" and ok: "cells_ok k r (tickets push_ticket pc) (tickets pop_ticket pc) ?P ?D"
    using assms(1) by (simp_all add: ring_inv_def)
  assume "\<not> length ?P < ?D + 2 ^ k"
  then have full: "length ?P = ?D + 2 ^ k" using sh by (simp add: shape_def)
  then have "sq k r (length ?P) = sq k r ?D" by (simp add: sq_def)
  moreover have "if ?D \<in> tickets push_ticket pc then sq k r ?D = ?D else sq k r ?D = Suc ?D \<and> ev k r ?D = ?P ! ?D"
    using ok full unfolding cells_ok_def by simp
  then have "sq k r ?D \<le> Suc ?D" by (simp split: if_splits)
  moreover have "2 \<le> (2 :: nat) ^ k" using sh self_le_power [of "2 :: nat" k] by (simp add: shape_def)
  ultimately show False using assms(2) full by simp
qed

lemma full_slot:
  assumes "ring_inv k W (r, pc, h)" "sq k r (deqs h) = Suc (deqs h)"
  shows "deqs h < length (enqs h)"
proof (rule ccontr)
  let ?P = "enqs h" and ?D = "deqs h"
  have sh: "shape k r ?P ?D" and ok: "cells_ok k r (tickets push_ticket pc) (tickets pop_ticket pc) ?P ?D"
    using assms(1) by (simp_all add: ring_inv_def)
  assume "\<not> ?D < length ?P"
  then have "?D = length ?P" using sh by (simp add: shape_def)
  then have "sq k r ?D = (if 2 ^ k \<le> ?D \<and> ?D - 2 ^ k \<in> tickets pop_ticket pc then Suc ?D - 2 ^ k else ?D)"
    using ok unfolding cells_ok_def by simp
  moreover have "Suc ?D - 2 ^ k \<le> ?D" using zero_less_power [of "2 :: nat" k] by linarith
  ultimately have "sq k r ?D \<le> ?D" by simp
  then show False using assms(2) by simp
qed

definition conf_inv :: "nat \<Rightarrow> 'e ring_conf \<Rightarrow> bool" where
  "conf_inv k = (\<lambda>(r, pc, h, rs). \<exists>W. ring_inv k W (r, pc, h) \<and> (\<forall>i. ops_of i h = ops_of i rs @ W i))"

lemma sint_diff_0: "sint (a - b) = 0 \<longleftrightarrow> unat a = unat b" for a b :: u64
proof -
  have "sint (a - b) = 0 \<longleftrightarrow> a - b = 0" by (metis word_eq_iff_signed signed_0)
  also have "\<dots> \<longleftrightarrow> a = b" by simp
  finally show ?thesis by (simp only: word_unat_eq_iff)
qed

lemma seq_is:
  assumes "shape k r P D" "unat pos < 2 ^ 63"
  shows "sint (ring_seq (ring_slots r ! (unat pos mod 2 ^ k)) - pos) = 0 \<longleftrightarrow> sq k r (unat pos) = unat pos"
    "sint (ring_seq (ring_slots r ! (unat pos mod 2 ^ k)) - (pos + 1)) = 0 \<longleftrightarrow> sq k r (unat pos) = Suc (unat pos)"
  using assms unat_Suc_pos [of pos] by (simp_all only: sq_def sint_diff_0)

lemma access_inv:
  assumes inv: "ring_inv k W (r, pc, h)" and ops: "\<forall>j. ops_of j h = ops_of j rs @ W j" and bound: "length (enqs h) + 2 ^ k < 2 ^ 63"
  shows "\<exists>p r'. ring_step (pc i) r = Inr (p, r') \<and>
    conf_inv k (r', pc(i := p), h @ map (Pair i) (claims (pc i) r), rs @ map (Pair i) (returns (pc i)))"
proof -
  have sh: "shape k r (enqs h) (deqs h)" and kn: "knows k r (enqs h) (deqs h) (W i) (pc i)" using inv by (simp_all add: ring_inv_def)
  have silent: "conf_inv k (r, pc(i := p), h, rs)"
    if "push_ticket p = push_ticket (pc i)" "pop_ticket p = pop_ticket (pc i)" "knows k r (enqs h) (deqs h) (W i) p" for p
    using silent_step [OF inv that] ops by (auto simp: conf_inv_def)
  have D: "deqs h \<le> length (enqs h)" "unat (enqPos r) = length (enqs h)" "unat (deqPos r) = deqs h" using sh by (simp_all add: shape_def)
  show ?thesis
  proof (cases "pc i")
    case (PushPos e pos)
    then show ?thesis
      using kn bound free_slot [OF inv] seq_is(1) [OF sh, of pos]
      by (auto simp: shape_slot [OF sh] Let_def intro!: silent)
  next
    case (PopPos pos)
    then show ?thesis
      using kn bound D(1) full_slot [OF inv] seq_is(2) [OF sh, of pos]
      by (auto simp: shape_slot [OF sh] Let_def intro!: silent)
  next
    case (PushClaim e pos)
    then have "conf_inv k (r\<lparr>enqPos := pos + 1\<rparr>, pc(i := PushWrite e pos), h @ [(i, Enq e)], rs)" if "enqPos r = pos"
      using push_claim [OF inv PushClaim that] ops bound kn by (auto simp: conf_inv_def)
    then show ?thesis using PushClaim kn by (auto intro!: silent)
  next
    case (PopClaim pos)
    then have "conf_inv k (r\<lparr>deqPos := pos + 1\<rparr>, pc(i := PopRead pos), h @ [(i, Deq (ev k r (unat pos)))], rs)" if "deqPos r = pos"
      using pop_claim [OF inv PopClaim that] ops bound kn by (auto simp: conf_inv_def)
    then show ?thesis using PopClaim kn by (auto simp: shape_slot [OF sh] ev_def intro!: silent)
  next
    case (PushWrite e pos)
    then show ?thesis using push_write [OF inv PushWrite] ops by (auto simp: shape_slot [OF sh] conf_inv_def)
  next
    case (PushStore e pos)
    then show ?thesis using push_store [OF inv PushStore] ops bound kn by (auto simp: shape_slot [OF sh] conf_inv_def)
  next
    case (PopStore pos e)
    then show ?thesis using pop_store [OF inv PopStore] ops bound kn by (auto simp: shape_slot [OF sh] conf_inv_def)
  next
    case (PopRead pos)
    then show ?thesis using kn by (auto simp: shape_slot [OF sh] ev_def intro!: silent)
  qed (use kn D in \<open>auto intro!: silent\<close>)
qed

subsection \<open>Every interleaving is that of a queue\<close>

lemma start_inv:
  assumes "ring_rep (2 ^ k) r []" "enqPos r = 0" "deqPos r = 0" "k < 63"
  shows "conf_inv k (r, \<lambda>_. Idle, [], [])"
  using assms(1)
proof (rule ring_rep_slots)
  fix m
  assume m: "(2 :: nat) ^ k = 2 ^ m" "ring_mask r = 2 ^ m - 1" "length (ring_slots r) = 2 ^ m"
    and h: "holds m (enqPos r) (deqPos r) (map ring_seq (ring_slots r)) (map event (ring_slots r)) []"
  have [simp]: "m = k" using m(1) by simp
  have seq: "sq k r t = t" if "t < 2 ^ k" for t
  proof -
    have t: "unat (of_nat t :: u64) = t"
      using that assms(4) power_strict_increasing [of k 64 "2 :: nat"] by (simp only: unsigned_of_nat) (simp add: take_bit_nat_eq_self)
    then have "cell_of k (of_nat t :: u64) = t" using that by (simp add: cell_of_def)
    then show ?thesis using holds_at(1) [OF h, of t] that m(3) t assms(3) by (simp add: sq_def)
  qed
  have "ring_inv k (\<lambda>_. []) (r, \<lambda>_. Idle, [])"
    using seq assms(2-4) m(2,3) holds_width(1) [OF h]
    by (auto simp: ring_inv_def shape_def cells_ok_def tickets_def one_each_def)
  then show ?thesis by (auto simp: conf_inv_def)
qed

lemma reach_inv:
  assumes "ring_reach r0 (r, pc, h, rs)" "ring_rep (2 ^ k) r0 []" "enqPos r0 = 0" "deqPos r0 = 0" "k < 63"
    "length (enqs h) + 2 ^ k < 2 ^ 63"
  shows "conf_inv k (r, pc, h, rs)"
  using assms(1,6)
proof (induction "(r, pc, h, rs)" arbitrary: r pc h rs rule: ring_reach.induct)
  case start
  show ?case by (rule start_inv [OF assms(2-5)])
next
  case (call_push r pc h rs i e)
  then obtain W where "ring_inv k W (r, pc, h)" "\<forall>i. ops_of i h = ops_of i rs @ W i" by (auto simp: conf_inv_def)
  moreover have "knows k r (enqs h) (deqs h) (W i) (pc i)" using calculation(1) by (simp add: ring_inv_def)
  ultimately show ?case using silent_step [of k W r pc h "Pushing e" i] call_push.hyps(3) by (cases "pc i") (auto simp: conf_inv_def)
next
  case (call_pop r pc h rs i)
  then obtain W where "ring_inv k W (r, pc, h)" "\<forall>i. ops_of i h = ops_of i rs @ W i" by (auto simp: conf_inv_def)
  moreover have "knows k r (enqs h) (deqs h) (W i) (pc i)" using calculation(1) by (simp add: ring_inv_def)
  ultimately show ?case using silent_step [of k W r pc h Popping i] call_pop.hyps(3) by (cases "pc i") (auto simp: conf_inv_def)
next
  case (access r pc h rs i p r')
  have "length (enqs h) \<le> length (enqs (h @ map (Pair i) (claims (pc i) r)))" by (simp add: enqs_def)
  then have bound: "length (enqs h) + 2 ^ k < 2 ^ 63" using access.prems by linarith
  then obtain W where "ring_inv k W (r, pc, h)" "\<forall>i. ops_of i h = ops_of i rs @ W i" using access.hyps(2) by (auto simp: conf_inv_def)
  then show ?case using access_inv [of k W r pc h rs i] bound access.hyps(3) by auto
qed

text \<open>C3. Any number of goroutines use the event ring at once, their atomic accesses interleaved in any way. The operations that claim a
  position (pushes and pops that succeed), in the order in which they claim it, form a history of a bounded first-in first-out queue of the ring's capacity. Every goroutine has returned from exactly
  the operations it has in that history, with the same values, apart from at most one it is still finishing.
  No access is out of range. Attempts that find the ring full or empty claim nothing and have no place in the history: whether their
  answer was right at the time is not stated. (Fewer than \<open>2 ^ 62\<close> pushes, so that positions do not come round.)\<close>

theorem ring_linearizable:
  assumes "1 \<le> c" "c \<le> 2 ^ 61" "ring_reach (NewRing zero c) (r, pc, h, rs)" "length (enqs h) < 2 ^ 62"
  shows "(\<exists>k q. c \<le> 2 ^ k \<and> (2 ^ k < 2 * c \<or> k = 1) \<and> replay (2 ^ k) (map snd h) [] = Some q) \<and>
    (\<forall>i. \<exists>w. ops_of i h = ops_of i rs @ w \<and> length w \<le> 1 \<and> (finished (pc i) \<longrightarrow> w = [])) \<and>
    (\<forall>i. \<exists>p r'. ring_step (pc i) r = Inr (p, r'))"
proof -
  have "c \<le> 2 ^ 62" using assms(2) by simp
  with assms(1) show ?thesis
  proof (rule NewRing_rep)
    fix k
    assume k: "ring_rep (2 ^ k) (NewRing zero c) []" "c \<le> 2 ^ k" "2 ^ k < 2 * c \<or> k = 1"
    have "(2 :: int) ^ k < 2 ^ 62" using k(3) assms(2) by auto
    then have "k < 62" using power_less_imp_less_exp [of "2 :: int" k 62] by simp
    then have k62: "k < 62" "(2 :: nat) ^ k \<le> 2 ^ 62" using power_increasing [of k 62 "2 :: nat"] by simp_all
    have "enqPos (NewRing zero c) = 0" "deqPos (NewRing zero c) = 0" by (simp_all add: NewRing_def Let_def)
    then have "conf_inv k (r, pc, h, rs)" using reach_inv [OF assms(3) k(1)] k62 assms(4) by simp
    then obtain W where inv: "ring_inv k W (r, pc, h)" and ops: "\<forall>i. ops_of i h = ops_of i rs @ W i" by (auto simp: conf_inv_def)
    have bound: "length (enqs h) + 2 ^ k < 2 ^ 63" using k62 assms(4) by simp
    have "length (W i) \<le> 1 \<and> (finished (pc i) \<longrightarrow> W i = [])" for i
    proof -
      have "knows k r (enqs h) (deqs h) (W i) (pc i)" using inv by (simp add: ring_inv_def)
      then show ?thesis by (cases "pc i") auto
    qed
    moreover have "replay (2 ^ k) (map snd h) [] = Some (drop (deqs h) (enqs h))" using inv by (simp add: ring_inv_def)
    ultimately show ?thesis using k(2,3) ops access_inv [OF inv ops bound] by blast
  qed
qed

fun schedule :: "nat list \<Rightarrow> 'e ring_conf \<Rightarrow> 'e ring_conf option" where
  "schedule [] c = Some c"
| "schedule (i # is) (r, pc, h, rs) =
     (case ring_step (pc i) r of
        Inl _ \<Rightarrow> None
      | Inr (p, r') \<Rightarrow> schedule is (r', pc(i := p), h @ map (Pair i) (claims (pc i) r), rs @ map (Pair i) (returns (pc i))))"

lemma schedule_reach: "ring_reach r0 c \<Longrightarrow> schedule is c = Some c' \<Longrightarrow> ring_reach r0 c'"
  by (induction "is" c rule: schedule.induct) (auto split: sum.splits dest: ring_reach.access)

theorem ring_linearizable_witness:
  "\<exists>k q. 2 \<le> (2 :: int) ^ k \<and> replay (2 ^ k) [Enq 7, Enq 8, Deq (7 :: nat)] [] = Some q"
proof -
  let ?pc = "(\<lambda>_. Idle)(0 := Pushing 7, 1 := Pushing 8, 2 := Popping) :: nat \<Rightarrow> nat ring_pc"
  let ?is = "[0, 1, 0, 1, 0, 1, 1, 1, 1, 1, 1, 0, 0, 2, 2, 2, 2, 2]"
  have run: "map_option (\<lambda>(r, pc, h, rs). (h, rs)) (schedule ?is (NewRing 0 2, ?pc, [], [])) =
      Some ([(0, Enq 7), (1, Enq 8), (2, Deq 7)], [(1, Enq 8), (0, Enq 7), (2, Deq 7)])"
    by code_simp
  let ?h = "[(0, Enq 7), (1, Enq 8), (2, Deq 7)] :: nat history" and ?rs = "[(1, Enq 8), (0, Enq 7), (2, Deq 7)] :: nat history"
  have init: "ring_reach (NewRing 0 2) (NewRing 0 2, ?pc, [], [])"
    by (intro ring_reach.call_pop ring_reach.call_push ring_reach.start) simp_all
  obtain c where c: "schedule ?is (NewRing 0 2, ?pc, [], []) = Some c" "(\<lambda>(r, pc, h, rs). (h, rs)) c = (?h, ?rs)"
    using run unfolding map_option_eq_Some by blast
  then obtain r pc where "ring_reach (NewRing 0 2) (r, pc, ?h, ?rs)"
    using schedule_reach [OF init c(1)] by (cases c) auto
  then have "\<exists>k q. (2 :: int) \<le> 2 ^ k \<and> (2 ^ k < 2 * (2 :: int) \<or> k = 1) \<and> replay (2 ^ k) (map snd ?h) [] = Some q"
    by (rule ring_linearizable [THEN conjunct1, rotated 2]) (simp_all add: enqs_def)
  then show ?thesis unfolding list.map snd_conv by blast
qed

end
