(* ===== verification/Spec2Isabelle.thy ===== *)
theory Spec2Isabelle
  imports Rah_Cas Rah_Router_Correct Rah_Context_Laws Rah_TxID Rah_Counters_Laws Rah_Tx Rah_Cond_Laws Rah_Compile_Limits Rah_Ring_Conc
begin

text \<open>
  Rah is an API gateway. A request is matched to an API by the base-path router, given a pooled request context and a
  transaction identifier, passed through rate limits, and then handled by a flow: the compiler turns the configured steps
  of the flow into a table of instructions over numbered slots, and the executor runs the table on the context until an
  instruction stops it. All file names below are relative to \<open>src/internal\<close>.

  \<^bold>\<open>Conventions\<close> (\<open>Rah_Prelude\<close>). Byte strings are lists of 8-bit words, machine integers are words where the code counts
  bits or wraps, and \<open>int\<close> wrapped by \<open>i16\<close>, \<open>i32\<close>, \<open>i64\<close> otherwise. A run-time panic of Go is a value of \<open>go_panic\<close>: fallible code has
  type \<open>'a go\<close>. State is passed explicitly. A loop that need not end is a \<open>partial_function (option)\<close>; parsers and the
  compiler carry fuel where their recursion is not structural. The fuel is proved to be enough for the condition parser and for the flows of
  \<open>compiled_flow_correct\<close>; for other flows the compiler may run out of it, which is the value \<open>None\<close>. Memory is not bounded: an allocation
  fails only where Go refuses its size.
  \<open>Rah_Text\<close> has the functions of Go's \<open>bytes\<close> and \<open>strings\<close> packages the source uses, and the query scanner.

  \<^bold>\<open>Compare-and-swap loops\<close> (\<open>Rah_Cas\<close>). A lock-free loop is a body that maps the loaded word to either a result or a
  replacement; any interleaving of such loops has the effect of some sequence of whole operations.

  \<^bold>\<open>Base-path router\<close> (\<open>router/\<close>). \<open>Rah_Router\<close>: the radix-tree builder, the flattening into an arena of nodes with child
  bitmaps, and \<open>Lookup\<close>. \<open>Rah_Router_Tree\<close>: the builder keeps a well-formed tree that stores exactly the added routes;
  \<open>Rah_Router_Arena\<close>: the arena represents the tree; \<open>Rah_Router_Correct\<close>: for ASCII paths and valid
  routes (fewer than 2^15, paths that are not empty and shorter than 2^16 bytes, identifiers other than 0) \<open>Lookup\<close> answers what an
  abstract specification (longest registered prefix on a segment boundary, with the branch-point exception the code has) says. The interface
  \<open>route_table\<close> is interpreted on the model.

  \<^bold>\<open>Request context\<close> (\<open>rctx/\<close>). \<open>Rah_Context\<close>: response writing, slots, arena allocation, instruction log, cancellation and
  timers, storage operations, \<open>Reset\<close>. \<open>Rah_Context_Laws\<close>: a reset context shows nothing of the previous request; timers
  of earlier requests do nothing when they compare the generation after the reset, and one that has compared it before cancels the
  next request; allocations never overlap; headers precede body bytes on the wire as far as the context's own operations write it.
  \<open>Rah_TxID\<close>: identifiers of one generator are distinct, and their two formatters agree.

  \<^bold>\<open>Rate limits\<close> (\<open>engine/rate_limit.go\<close>, \<open>counter_arena.go\<close>, \<open>upstream_rate_limit.go\<close>, \<open>upstream_cost_window.go\<close>,
  \<open>spike_arrest.go\<close>). \<open>Rah_Counters\<close> has the counters as compare-and-swap bodies and the arenas and registries around them;
  \<open>Rah_Counters_Laws\<close> shows, under any interleaving in which the requests take effect in the order of their windows or clock readings, that a
  window admits at most its limit and a bucket at most its tokens and refill, and that a late request breaks the first of these; also
  that spike arrest spaces requests and that tenants do not share counters.

  \<^bold>\<open>Executor and steps\<close> (\<open>engine/executor.go\<close>, \<open>engine/steps/\<close>). \<open>Rah_Exec\<close>: the loop over the table with its redirections on
  failure, the call stack, jumps and loop gates. \<open>Rah_Exec_Laws\<close>, \<open>Rah_Loop_Laws\<close>: the loop refines a step relation, forward flows
  end, nested calls return, while steps with a straight-line body end, and what foreach really visits. \<open>Rah_Steps\<close>: seventy steps
  on requests, responses, cookies, text, numbers, errors and transactions. \<open>Rah_Steps_Laws\<close>: error policies contain errors,
  and a flow of typed instructions (no calls, RET or foreach gates) never panics. \<open>Rah_Flow\<close>: total-correctness triples for code placed
  in a table; \<open>Rah_Tx\<close>: transactions around a straight-line body commit or roll back as a whole.

  \<^bold>\<open>Conditions\<close> (\<open>engine/steps/cond_expr.go\<close>). \<open>Rah_Cond\<close>: tokenizer, recursive-descent parser to closures, and the older
  postfix evaluator. \<open>Rah_Cond_Laws\<close>: compilation always returns, and the text of an expression compiles to its meaning. The parser
  consumes a token in all but a bounded number of calls, so \<open>parse_fuel\<close>, linear in the number of tokens, is enough.

  \<^bold>\<open>Flow compiler\<close> (\<open>control/compiler.go\<close>). \<open>Rah_Compiler\<close>: slot allocation with liveness, the instructions of each step,
  branches, loops, calls, transactions, error policies, tracing, discovery of request bindings. Fragments may refer to each
  other, so compilation carries fuel: \<open>None\<close> is a compilation that does not end.
  \<open>Rah_Compiler_Laws\<close>: whatever is compiled, variables in use have distinct slots (\<open>slots_stay_distinct\<close>).
  \<open>Rah_Compile_Correct\<close>: a semantics of flows over named variables, and \<open>compiled_flow_correct\<close>: the compiled table computes it, with
  a fuel computed from the flow. \<open>Rah_Compile_Limits\<close>: concrete flows that are not compiled to what they say.

  \<^bold>\<open>Lock-free rings\<close> (\<open>ingest/ring.go\<close>, \<open>scheduler/dispatch_ring.go\<close>, \<open>gatewaylog/ring.go\<close>). \<open>Rah_Ring\<close>: the three rings, the
  event ring as a machine of atomic accesses. \<open>Rah_Ring_Laws\<close>: used by one goroutine, each is a bounded first-in first-out queue (the
  interface \<open>bounded_queue\<close>, interpreted for all three), also when positions wrap around. \<open>Rah_Ring_Conc\<close>: under any
  interleaving of fewer than \<open>2 ^ 62\<close> pushes the operations of the event ring that claim a position are those of one sequential queue, in
  the order of their claims; the answers full and empty are not covered.

  \<^bold>\<open>Not modelled.\<close> The HTTP server and the upstream calls, the connectors to databases, caches, message brokers, mail and
  secret stores, and the steps that call them: they are input and output of other systems. The management server,
  the studio and the synchronisation tool (\<open>control/management_server.go\<close>, \<open>studio/\<close>, \<open>sync/\<close>): request
  handlers over the file system and the registry. Circuit breakers, concurrency and egress limits, the
  upstream registry, the timing wheel, and the pipelines around the rings. Observability and logging output. The parsers of JSON, XML, SOAP and Avro: they
  wrap packages outside the repository; the JSON reader is a parameter of the steps that use it, as are
  regular expressions, the clock and the order in which Go visits a map. The memory model is sequentially consistent, and \<open>Cancel\<close> and
  \<open>Reset\<close> of a context are single steps.
\<close>

end
